(* ===== verification/Prelude.thy ===== *)
theory Prelude
  imports Main "HOL-Library.Word"
begin

text \<open>
  Types, results and generic facts shared by every component.

  The C integer types are words of their width: \<open>c_int\<close> and \<open>c_uint\<close> have 32 bits,
  \<open>c_ulong\<close> and \<open>size_t\<close> have 64 (the module is built for x86-64).  A signed comparison
  of the source reads the word with \<open>sint\<close>, an unsigned one with the word order.

  A run of a C function either returns (\<open>Inr\<close>) or is stuck (\<open>Inl\<close>): \<open>Fault\<close> is an
  access that C leaves undefined (a null or dangling pointer, an index outside an
  array), \<open>Spin\<close> is a loop that never ends.  \<open>rbind\<close> is the sequencing of two runs.
\<close>

section \<open>Machine integers\<close>

type_synonym c_int = "32 word"
type_synonym c_uint = "32 word"
type_synonym c_ulong = "64 word"
type_synonym size_t = "64 word"
type_synonym byte = "8 word"
type_synonym addr = nat

lemma sint_of_nat_small: "j < 2 ^ 31 \<Longrightarrow> sint (of_nat j :: c_int) = int j"
  by (simp add: signed_of_nat signed_take_bit_int_eq_self)

lemma of_nat_c_int_eq_iff [simp]:
  "i < 2 ^ 31 \<Longrightarrow> j < 2 ^ 31 \<Longrightarrow> (of_nat i :: c_int) = of_nat j \<longleftrightarrow> i = j"
  by (metis of_nat_eq_iff sint_of_nat_small)

lemma of_nat_c_uint_le_iff:
  "i < 2 ^ 32 \<Longrightarrow> j < 2 ^ 32 \<Longrightarrow> (of_nat i :: c_uint) \<le> of_nat j \<longleftrightarrow> i \<le> j"
  by (simp add: word_le_nat_alt unat_of_nat)

section \<open>Results of a run\<close>

datatype stuck = Fault | Spin

type_synonym 'a res = "stuck + 'a"

definition rbind :: "'a res \<Rightarrow> ('a \<Rightarrow> 'b res) \<Rightarrow> 'b res" where
  "rbind m f = (case m of Inl e \<Rightarrow> Inl e | Inr x \<Rightarrow> f x)"

lemma rbind_Inr [simp]: "rbind (Inr x) f = f x"
  by (simp add: rbind_def)

lemma rbind_Inl [simp]: "rbind (Inl e) f = Inl e"
  by (simp add: rbind_def)

lemma rbind_eq_Inr [simp]: "rbind m f = Inr y \<longleftrightarrow> (\<exists>x. m = Inr x \<and> f x = Inr y)"
  by (cases m) auto

lemma case_stuck: "(case x of None \<Rightarrow> Inl e | Some y \<Rightarrow> f y) = Inr z \<longleftrightarrow> (\<exists>y. x = Some y \<and> f y = Inr z)"
  by (cases x) auto

lemma case_Inr_split:
  "(case x of None \<Rightarrow> a | Some y \<Rightarrow> f y) = Inr z \<longleftrightarrow> x = None \<and> a = Inr z \<or> (\<exists>y. x = Some y \<and> f y = Inr z)"
  by (cases x) auto

text \<open>A loop that may not end is a partial function into \<open>option\<close>; \<open>None\<close> is the loop that
  never ends.\<close>

definition loop_res :: "'a res option \<Rightarrow> 'a res" where
  "loop_res r = (case r of None \<Rightarrow> Inl Spin | Some x \<Rightarrow> x)"

lemma loop_res_Some [simp]: "loop_res (Some x) = x"
  by (simp add: loop_res_def)

lemma loop_res_None [simp]: "loop_res None = Inl Spin"
  by (simp add: loop_res_def)

section \<open>Collections of rewrite rules\<close>

text \<open>\<open>klog_simps\<close>: how the recorded kernel calls of an operation add up.
  \<open>frame_simps\<close>: what an operation leaves unchanged.\<close>

named_theorems klog_simps
named_theorems frame_simps

section \<open>Generic facts on lists\<close>

fun first_index :: "('a \<Rightarrow> bool) \<Rightarrow> 'a list \<Rightarrow> nat option" where
  "first_index P [] = None"
| "first_index P (x # xs) = (if P x then Some 0 else map_option Suc (first_index P xs))"

lemma first_index_Some:
  "first_index P xs = Some i \<Longrightarrow> i < length xs \<and> P (xs ! i) \<and> (\<forall>j < i. \<not> P (xs ! j))"
proof (induction xs arbitrary: i)
  case Nil
  then show ?case by simp
next
  case (Cons x xs)
  show ?case
  proof (cases "P x")
    case True
    with Cons.prems show ?thesis by simp
  next
    case False
    with Cons.prems obtain k where "first_index P xs = Some k" "i = Suc k" by auto
    with Cons.IH [of k] False show ?thesis
      by (auto simp: nth_Cons split: nat.splits)
  qed
qed

lemma first_index_None: "first_index P xs = None \<longleftrightarrow> (\<forall>x \<in> set xs. \<not> P x)"
  by (induction xs) auto

lemma length_filter_update:
  "i < length xs \<Longrightarrow>
   length (filter P (xs[i := y])) + (if P (xs ! i) then 1 else 0) =
   length (filter P xs) + (if P y then 1 else 0)"
proof (induction xs arbitrary: i)
  case Nil
  then show ?case by simp
next
  case (Cons x xs)
  then show ?case by (cases i) auto
qed

lemma length_filter_all: "length (filter P xs) = length xs \<longleftrightarrow> (\<forall>x \<in> set xs. P x)"
proof
  assume "length (filter P xs) = length xs"
  then show "\<forall>x \<in> set xs. P x" by (metis length_filter_less nat_neq_iff)
qed simp

section \<open>Inductive invariants of a machine\<close>

text \<open>A machine is an initial-state predicate and a step relation; a property of the initial
  states that every step keeps holds in every reachable state.\<close>

inductive reach :: "('s \<Rightarrow> bool) \<Rightarrow> ('s \<Rightarrow> 's \<Rightarrow> bool) \<Rightarrow> 's \<Rightarrow> bool"
  for init :: "'s \<Rightarrow> bool" and step :: "'s \<Rightarrow> 's \<Rightarrow> bool" where
  reach_init: "init s \<Longrightarrow> reach init step s"
| reach_step: "reach init step s \<Longrightarrow> step s t \<Longrightarrow> reach init step t"

locale machine_invariant =
  fixes init :: "'s \<Rightarrow> bool" and step :: "'s \<Rightarrow> 's \<Rightarrow> bool" and inv :: "'s \<Rightarrow> bool"
  assumes inv_init: "init s \<Longrightarrow> inv s"
    and inv_step: "inv s \<Longrightarrow> step s t \<Longrightarrow> inv t"
begin

lemma reach_inv: "reach init step s \<Longrightarrow> inv s"
  by (induction rule: reach.induct) (auto intro: inv_init inv_step)

end

end
