(* ===== verification/Errno.thy ===== *)
theory Errno
  imports Prelude
begin

text \<open>
  The error numbers the module returns, with their values in Linux on x86-64, and the
  enumerations and limits of \<^verbatim>\<open>global_include/TAG_MACROS.h\<close>.  A system call returns
  \<open>Inl e\<close> for \<^verbatim>\<open>return -e\<close> and \<open>Inr n\<close> for a value that is not an error;
  \<open>c_return\<close> is the integer the caller receives.
\<close>

datatype errno =
    ENOENT | ENOMEM | EFAULT | ENOSYS | ENOMSG | EBADE | EBADR | EXFULL | EBADRQC | EBADSLT
  | ENODATA | ENOSR | EBADMSG | EILSEQ | ERESTART | EADDRINUSE | ETOOMANYREFS | EUCLEAN

fun errno_val :: "errno \<Rightarrow> int" where
  "errno_val ENOENT = 2"
| "errno_val ENOMEM = 12"
| "errno_val EFAULT = 14"
| "errno_val ENOSYS = 38"
| "errno_val ENOMSG = 42"
| "errno_val EBADE = 52"
| "errno_val EBADR = 53"
| "errno_val EXFULL = 54"
| "errno_val EBADRQC = 56"
| "errno_val EBADSLT = 57"
| "errno_val ENODATA = 61"
| "errno_val ENOSR = 63"
| "errno_val EBADMSG = 74"
| "errno_val EILSEQ = 84"
| "errno_val ERESTART = 85"
| "errno_val EADDRINUSE = 98"
| "errno_val ETOOMANYREFS = 109"
| "errno_val EUCLEAN = 117"

lemma errno_val_inject [simp]: "errno_val a = errno_val b \<longleftrightarrow> a = b"
  by (cases a; cases b) simp_all

lemma errno_val_range: "0 < errno_val e \<and> errno_val e < 4096"
  by (cases e) simp_all

type_synonym rv = "errno + c_int"

definition c_return :: "rv \<Rightarrow> int" where
  "c_return r = (case r of Inl e \<Rightarrow> - errno_val e | Inr n \<Rightarrow> sint n)"

section \<open>TAG_MACROS.h\<close>

definition TAG_IPC_PRIVATE :: c_int where "TAG_IPC_PRIVATE = - 1"

definition CREATE :: c_int where "CREATE = 0"
definition OPEN :: c_int where "OPEN = 1"

definition OPEN_ROOM :: c_int where "OPEN_ROOM = 0"
definition PRIVATE_ROOM :: c_int where "PRIVATE_ROOM = 1"

definition AWAKE_ALL :: c_int where "AWAKE_ALL = 0"
definition REMOVE :: c_int where "REMOVE = 1"

definition levelDeep :: nat where "levelDeep = 32"
definition MAX_MESSAGE_SIZE :: size_t where "MAX_MESSAGE_SIZE = 4096"
definition min_sys_TAG_Services :: nat where "min_sys_TAG_Services = 256"

lemmas tag_macros =
  TAG_IPC_PRIVATE_def CREATE_def OPEN_def OPEN_ROOM_def PRIVATE_ROOM_def AWAKE_ALL_def REMOVE_def

text \<open>An array of \<open>levelDeep\<close> elements indexed by an \<^verbatim>\<open>int\<close>: \<open>None\<close> is an index outside it.\<close>

definition level_ix :: "c_int \<Rightarrow> nat option" where
  "level_ix k = (if 0 \<le> sint k \<and> sint k < int levelDeep then Some (nat (sint k)) else None)"

lemma level_ix_of_nat: "j < levelDeep \<Longrightarrow> level_ix (of_nat j) = Some j"
  by (simp add: level_ix_def levelDeep_def sint_of_nat_small)

lemma level_ix_Some: "level_ix k = Some j \<Longrightarrow> j < levelDeep \<and> k = of_nat j"
  unfolding level_ix_def levelDeep_def
  by (auto split: if_splits simp: nat_less_iff)

end
