(* ===== verification/KernelLog.thy ===== *)
theory KernelLog
  imports Errno
begin

text \<open>
  The calls the module makes into the kernel for their effect alone (locks, the module
  reference count, allocation of message buffers, waking) are recorded in the order of
  the source.  What the kernel does with them is not modelled; what is stated is the
  protocol their documentation asks for: \<open>lock_use\<close> runs one lock's calls of a log
  through that protocol, and \<open>module_refs\<close> counts the references taken and given back.
\<close>

datatype lock = SearchLock | ListLock addr

datatype kcall =
    ReadLock lock | ReadUnlock lock | WriteLock lock | WriteUnlock lock
  | TryModuleGet | ModulePut
  | Vzalloc size_t | Vfree size_t
  | WakeUpAll addr nat

type_synonym klog = "kcall list"

section \<open>The reader-writer lock protocol\<close>

text \<open>\<open>Readers n\<close>: held for reading \<open>n\<close> times (\<open>Readers 0\<close> is free); \<open>Writer\<close>: held for
  writing; \<open>Blocked\<close>: an acquisition that waits for a hold the log never gives back;
  \<open>Misused\<close>: a release of a hold that is not there.\<close>

datatype lock_st = Readers nat | Writer | Blocked | Misused

fun lock_step :: "lock \<Rightarrow> lock_st \<Rightarrow> kcall \<Rightarrow> lock_st" where
  "lock_step lk (Readers n) (ReadLock x) = (if x = lk then Readers (Suc n) else Readers n)"
| "lock_step lk (Readers n) (WriteLock x) =
     (if x = lk then if n = 0 then Writer else Blocked else Readers n)"
| "lock_step lk (Readers n) (ReadUnlock x) =
     (if x = lk then if n = 0 then Misused else Readers (n - 1) else Readers n)"
| "lock_step lk (Readers n) (WriteUnlock x) = (if x = lk then Misused else Readers n)"
| "lock_step lk Writer (WriteUnlock x) = (if x = lk then Readers 0 else Writer)"
| "lock_step lk Writer (ReadUnlock x) = (if x = lk then Misused else Writer)"
| "lock_step lk Writer (ReadLock x) = (if x = lk then Blocked else Writer)"
| "lock_step lk Writer (WriteLock x) = (if x = lk then Blocked else Writer)"
| "lock_step lk st _ = st"

definition lock_use :: "lock \<Rightarrow> klog \<Rightarrow> lock_st" where
  "lock_use lk cs = foldl (lock_step lk) (Readers 0) cs"

lemma lock_use_append [klog_simps]:
  "lock_use lk (cs @ ds) = foldl (lock_step lk) (lock_use lk cs) ds"
  by (simp add: lock_use_def)

lemma lock_use_Nil [simp]: "lock_use lk [] = Readers 0"
  by (simp add: lock_use_def)

lemma lock_step_other [simp]:
  "lock_step lk st TryModuleGet = st" "lock_step lk st ModulePut = st"
  "lock_step lk st (Vzalloc n) = st" "lock_step lk st (Vfree n) = st"
  "lock_step lk st (WakeUpAll a i) = st"
  by (cases st; simp)+

text \<open>A log that takes and gives back a lock leaves it as it was.\<close>

lemma read_section [simp]:
  "lock_step lk (lock_step lk (Readers n) (ReadLock x)) (ReadUnlock x) = Readers n"
  by simp

lemma write_section [simp]:
  "lock_step lk (lock_step lk (Readers 0) (WriteLock x)) (WriteUnlock x) = Readers 0"
  by simp

section \<open>The module reference count\<close>

fun ref_delta :: "kcall \<Rightarrow> int" where
  "ref_delta TryModuleGet = 1"
| "ref_delta ModulePut = - 1"
| "ref_delta _ = 0"

definition module_refs :: "klog \<Rightarrow> int" where
  "module_refs cs = sum_list (map ref_delta cs)"

lemma module_refs_simps [simp]:
  "module_refs [] = 0"
  "module_refs (cs @ ds) = module_refs cs + module_refs ds"
  "module_refs (c # cs) = ref_delta c + module_refs cs"
  by (simp_all add: module_refs_def)

section \<open>Message buffers\<close>

text \<open>\<open>Vfree n\<close> gives back what \<open>Vzalloc n\<close> answered, which for no bytes is a null pointer.\<close>

fun buf_delta :: "kcall \<Rightarrow> int" where
  "buf_delta (Vzalloc n) = (if n = 0 then 0 else 1)"
| "buf_delta (Vfree n) = (if n = 0 then 0 else - 1)"
| "buf_delta _ = 0"

definition buffers_held :: "klog \<Rightarrow> int" where
  "buffers_held cs = sum_list (map buf_delta cs)"

lemma buffers_held_simps [simp]:
  "buffers_held [] = 0"
  "buffers_held (cs @ ds) = buffers_held cs + buffers_held ds"
  "buffers_held (c # cs) = buf_delta c + buffers_held cs"
  by (simp_all add: buffers_held_def)

section \<open>Runs of critical sections\<close>

definition write_sections :: "lock \<Rightarrow> nat \<Rightarrow> klog" where
  "write_sections lk n = concat (replicate n [WriteLock lk, WriteUnlock lk])"

lemma write_sections_simps [simp]:
  "write_sections lk 0 = []"
  "write_sections lk (Suc n) = WriteLock lk # WriteUnlock lk # write_sections lk n"
  by (simp_all add: write_sections_def)

lemma write_sections_counts [simp]:
  "module_refs (write_sections lk n) = 0" "buffers_held (write_sections lk n) = 0"
  by (induction n) simp_all

lemma write_sections_other [simp]:
  "x \<noteq> lk \<Longrightarrow> foldl (lock_step x) st (write_sections lk n) = st"
proof (induction n)
  case (Suc n)
  then show ?case by (cases st) simp_all
qed simp

lemma write_sections_same [simp]:
  "foldl (lock_step x) (Readers 0) (write_sections lk n) = Readers 0"
  by (cases "x = lk") (induction n, simp_all)

end
