(* ===== verification/RcuList.thy ===== *)
theory RcuList
  imports KernelLog
begin

text \<open>
  The epoch-based list of \<^verbatim>\<open>rcu-list.c\<close> and \<^verbatim>\<open>list.h\<close>: one node per level of a
  service.  Nodes live in a store from addresses to \<open>element\<close>s (\<open>el_heap\<close>), the list
  itself is a record inside its service.  \<open>kmalloc\<close> is a parameter (\<open>alloc\<close>): it answers
  an address of the store or \<open>None\<close>.  The functions here are the whole C functions, run
  by one thread; the sleep in the middle of \<^verbatim>\<open>rcu_list_search\<close> splits it into
  \<open>search_enter\<close> and \<open>search_leave\<close>.
\<close>

section \<open>Data\<close>

record element =
  e_next :: "addr option"
  e_level :: c_int
  e_message :: "byte list"
  e_size :: size_t

record rcu_list =
  epoch :: nat
  standing :: "int list"
  head :: "addr option"
  readerQueue :: "nat list list"
  ready :: "int list"
  waiters :: "int list"

type_synonym el_store = "addr \<Rightarrow> element option"
type_synonym el_alloc = "el_store \<Rightarrow> addr option"

record kmem =
  el_heap :: el_store
  klog :: klog

definition logk :: "kcall \<Rightarrow> kmem \<Rightarrow> kmem" where
  "logk c m = m\<lparr>klog := klog m @ [c]\<rparr>"

lemma logk_simps [simp]:
  "el_heap (logk c m) = el_heap m" "klog (logk c m) = klog m @ [c]"
  by (simp_all add: logk_def)

section \<open>Operations\<close>

text \<open>Every field of the record is set, so the result does not depend on the memory the
  list is placed in.\<close>

definition rcu_list_init :: rcu_list where
  "rcu_list_init =
     \<lparr>epoch = 0, standing = [0, 0], head = None,
      readerQueue = replicate levelDeep [], ready = replicate levelDeep 0,
      waiters = replicate levelDeep 0\<rparr>"

text \<open>\<^verbatim>\<open>while (p != NULL) { if (p->level == key) break; p = p->next; }\<close>\<close>

partial_function (option) find_level ::
  "el_store \<Rightarrow> c_int \<Rightarrow> addr option \<Rightarrow> addr option res option" where
  "find_level h key p = (case p of
     None \<Rightarrow> Some (Inr None)
   | Some a \<Rightarrow> (case h a of
       None \<Rightarrow> Some (Inl Fault)
     | Some e \<Rightarrow>
         if e_level e = key then Some (Inr (Some a)) else find_level h key (e_next e)))"

text \<open>The loop of \<^verbatim>\<open>rcu_list_remove\<close> and \<^verbatim>\<open>rcu_list_replace\<close>: the first node whose
  successor has the level, \<open>None\<close> when the end is reached.\<close>

partial_function (option) find_pred ::
  "el_store \<Rightarrow> c_int \<Rightarrow> addr option \<Rightarrow> addr option res option" where
  "find_pred h key p = (case p of
     None \<Rightarrow> Some (Inr None)
   | Some a \<Rightarrow> (case h a of
       None \<Rightarrow> Some (Inl Fault)
     | Some e \<Rightarrow> (case e_next e of
         None \<Rightarrow> find_pred h key None
       | Some b \<Rightarrow> (case h b of
           None \<Rightarrow> Some (Inl Fault)
         | Some f \<Rightarrow>
             if e_level f = key then Some (Inr (Some a)) else find_pred h key (Some b)))))"

definition other_epoch :: "rcu_list \<Rightarrow> nat" where
  "other_epoch l = (epoch l + 1) mod 2"

definition rcu_list_insert ::
  "el_alloc \<Rightarrow> lock \<Rightarrow> rcu_list \<Rightarrow> c_int \<Rightarrow> byte list \<Rightarrow> size_t \<Rightarrow> kmem
    \<Rightarrow> (c_int \<times> rcu_list \<times> kmem) res" where
  "rcu_list_insert alloc lk l key msg sz m =
     (case alloc (el_heap m) of
        None \<Rightarrow> Inr (0, l, m)
      | Some p \<Rightarrow>
          let e = \<lparr>e_next = None, e_level = key, e_message = msg, e_size = sz\<rparr>;
              m1 = logk (WriteLock lk) (m\<lparr>el_heap := (el_heap m)(p \<mapsto> e)\<rparr>);
              m2 = m1\<lparr>el_heap := (el_heap m1)(p \<mapsto> e\<lparr>e_next := head l\<rparr>)\<rparr>;
              grace = epoch l;
              l1 = l\<lparr>head := Some p, epoch := other_epoch l\<rparr>
          in if standing l1 ! grace > 0 then Inl Spin
             else Inr (1, l1, logk (WriteUnlock lk) m2))"

text \<open>The end of \<^verbatim>\<open>rcu_list_replace\<close>: the new epoch, the wait for the readers of the old
  one, the release of the lock and of the node taken out.\<close>

definition replace_commit ::
  "lock \<Rightarrow> rcu_list \<Rightarrow> addr \<Rightarrow> kmem \<Rightarrow> (c_int \<times> rcu_list \<times> kmem) res" where
  "replace_commit lk l removed m =
     (let grace = epoch l; l1 = l\<lparr>epoch := other_epoch l\<rparr>
      in if standing l1 ! grace > 0 then Inl Spin
         else let m1 = logk (WriteUnlock lk) m
              in Inr (1, l1, m1\<lparr>el_heap := (el_heap m1)(removed := None)\<rparr>))"

definition rcu_list_replace ::
  "el_alloc \<Rightarrow> lock \<Rightarrow> rcu_list \<Rightarrow> c_int \<Rightarrow> byte list \<Rightarrow> size_t \<Rightarrow> kmem
    \<Rightarrow> (c_int \<times> rcu_list \<times> kmem) res" where
  "rcu_list_replace alloc lk l key msg sz m =
     (case alloc (el_heap m) of
        None \<Rightarrow> Inr (0, l, m)
      | Some n \<Rightarrow>
          let new = \<lparr>e_next = None, e_level = key, e_message = msg, e_size = sz\<rparr>;
              m1 = logk (WriteLock lk) (m\<lparr>el_heap := (el_heap m)(n \<mapsto> new)\<rparr>);
              h = el_heap m1
          in (case head l of
                None \<Rightarrow> Inr (0, l, m1)
              | Some a \<Rightarrow> (case h a of
                  None \<Rightarrow> Inl Fault
                | Some e \<Rightarrow>
                    if e_level e = key then
                      replace_commit lk (l\<lparr>head := Some n\<rparr>) a
                        (m1\<lparr>el_heap := h(n \<mapsto> new\<lparr>e_next := e_next e\<rparr>)\<rparr>)
                    else
                      rbind (loop_res (find_pred h key (Some a))) (\<lambda>r. case r of
                        None \<Rightarrow> Inr (0, l, m1)
                      | Some p \<Rightarrow>
                          let pe = the (h p); removed = the (e_next pe);
                              h1 = h(p \<mapsto> pe\<lparr>e_next := Some n\<rparr>)
                          in (case h1 removed of
                                None \<Rightarrow> Inl Fault
                              | Some re \<Rightarrow>
                                  replace_commit lk l removed
                                    (m1\<lparr>el_heap := h1(n \<mapsto> new\<lparr>e_next := e_next re\<rparr>)\<rparr>))))))"

text \<open>The end of \<^verbatim>\<open>rcu_list_remove\<close>.\<close>

definition remove_commit ::
  "lock \<Rightarrow> rcu_list \<Rightarrow> addr option \<Rightarrow> kmem \<Rightarrow> (c_int \<times> rcu_list \<times> kmem) res" where
  "remove_commit lk l removed m =
     (let grace = epoch l; temp = other_epoch l
      in if standing l ! temp > 0 then Inl Spin
         else if standing l ! grace > 0 then Inl Spin
         else let m1 = logk (WriteUnlock lk) m; l1 = l\<lparr>epoch := temp\<rparr>
              in (case removed of
                    None \<Rightarrow> Inr (0, l1, m1)
                  | Some r \<Rightarrow> Inr (1, l1, m1\<lparr>el_heap := (el_heap m1)(r := None)\<rparr>)))"

definition rcu_list_remove ::
  "lock \<Rightarrow> rcu_list \<Rightarrow> c_int \<Rightarrow> kmem \<Rightarrow> (c_int \<times> rcu_list \<times> kmem) res" where
  "rcu_list_remove lk l key m =
     (let m1 = logk (WriteLock lk) m; h = el_heap m1
      in (case head l of
            None \<Rightarrow> remove_commit lk l None m1
          | Some a \<Rightarrow> (case h a of
              None \<Rightarrow> Inl Fault
            | Some e \<Rightarrow>
                if e_level e = key then
                  remove_commit lk (l\<lparr>head := e_next e\<rparr>) (Some a) m1
                else
                  rbind (loop_res (find_pred h key (Some a))) (\<lambda>r. case r of
                    None \<Rightarrow> remove_commit lk l None m1
                  | Some p \<Rightarrow>
                      let pe = the (h p); removed = the (e_next pe)
                      in (case h removed of
                            None \<Rightarrow> Inl Fault
                          | Some re \<Rightarrow>
                              remove_commit lk l (Some removed)
                                (m1\<lparr>el_heap := h(p \<mapsto> pe\<lparr>e_next := e_next re\<rparr>)\<rparr>))))))"

text \<open>\<^verbatim>\<open>rcu_list_search\<close> up to the sleep, and from the wake-up on.  \<open>signalled\<close> is the
  outcome \<^verbatim>\<open>-ERESTARTSYS\<close> of \<^verbatim>\<open>wait_event_interruptible\<close>.\<close>

definition search_enter :: "rcu_list \<Rightarrow> c_int \<Rightarrow> (nat \<times> rcu_list) res" where
  "search_enter l key = (case level_ix key of
     None \<Rightarrow> Inl Fault
   | Some j \<Rightarrow>
       Inr (epoch l, l\<lparr>ready := (ready l)[j := 0], waiters := (waiters l)[j := waiters l ! j + 1]\<rparr>))"

definition add_standing :: "nat \<Rightarrow> int \<Rightarrow> rcu_list \<Rightarrow> rcu_list" where
  "add_standing ep d l = l\<lparr>standing := (standing l)[ep := standing l ! ep + d]\<rparr>"

definition search_leave ::
  "el_store \<Rightarrow> rcu_list \<Rightarrow> nat \<Rightarrow> c_int \<Rightarrow> bool \<Rightarrow> (addr option \<times> rcu_list) res" where
  "search_leave h l my_epoch key signalled = (case level_ix key of
     None \<Rightarrow> Inl Fault
   | Some j \<Rightarrow>
       let leave = (\<lambda>k. k\<lparr>waiters := (waiters k)[j := waiters k ! j - 1]\<rparr>)
       in if signalled then Inr (None, leave (add_standing my_epoch (- 1) l))
          else let l1 = add_standing my_epoch 1 l
               in rbind (loop_res (find_level h key (head l1))) (\<lambda>p.
                    Inr (p, leave (add_standing my_epoch (- 1) l1))))"

text \<open>\<^verbatim>\<open>wake_up_all\<close> takes every sleeper off a level's queue.\<close>

definition wake_up_all :: "nat \<Rightarrow> rcu_list \<Rightarrow> rcu_list" where
  "wake_up_all j l = l\<lparr>readerQueue := (readerQueue l)[j := []]\<rparr>"

definition waitqueue_active :: "rcu_list \<Rightarrow> nat \<Rightarrow> bool" where
  "waitqueue_active l j \<longleftrightarrow> readerQueue l ! j \<noteq> []"

end
