(* ===== verification/LevelStore.thy ===== *)
theory LevelStore
  imports KernelLog
begin

text \<open>
  The interface of \<^verbatim>\<open>list.h\<close>: what the services rely on when they call \<^verbatim>\<open>list_init\<close>,
  \<^verbatim>\<open>list_insert\<close> and \<^verbatim>\<open>list_replace\<close>, whichever list the macros select.  \<open>view\<close> is the
  message and size kept for a level, \<open>foot\<close> the memory a list owns, \<open>sound\<close> and \<open>room\<close> what
  the allocator promises, \<open>log\<close> the calls recorded in the memory.
\<close>

text \<open>An operation on the list \<open>l\<close> keeps every other list: one that shares no memory with it.\<close>

definition others_kept ::
  "('m \<Rightarrow> 'l \<Rightarrow> bool) \<Rightarrow> ('m \<Rightarrow> 'l \<Rightarrow> 'v) \<Rightarrow> ('m \<Rightarrow> 'l \<Rightarrow> addr set) \<Rightarrow> 'm \<Rightarrow> 'l \<Rightarrow> 'm \<Rightarrow> 'l \<Rightarrow> bool" where
  "others_kept ok view foot m l m' l' \<longleftrightarrow>
     (\<forall>x. ok m x \<and> foot m l \<inter> foot m x = {} \<longrightarrow>
        ok m' x \<and> view m' x = view m x \<and> foot m' x = foot m x \<and> foot m' l' \<inter> foot m' x = {})"

lemma others_kept_refl [simp]: "others_kept ok view foot m l m l"
  by (simp add: others_kept_def)

lemma others_kept_trans:
  "others_kept ok view foot m l m' l' \<Longrightarrow> others_kept ok view foot m' l' m'' l'' \<Longrightarrow>
   others_kept ok view foot m l m'' l''"
  unfolding others_kept_def by metis

text \<open>\<^verbatim>\<open>for (j = 0; j < levelDeep; j++) list_insert(&levels, j, "", 0);\<close> with the insertion as
  a parameter; its result is ignored, as in the code.\<close>

fun list_fill ::
  "('l \<Rightarrow> c_int \<Rightarrow> byte list \<Rightarrow> size_t \<Rightarrow> 'm \<Rightarrow> (c_int \<times> 'l \<times> 'm) res)
    \<Rightarrow> nat list \<Rightarrow> 'l \<Rightarrow> 'm \<Rightarrow> ('l \<times> 'm) res" where
  "list_fill list_insert [] l m = Inr (l, m)"
| "list_fill list_insert (j # js) l m =
     rbind (list_insert l (of_nat j) [0] 0 m) (\<lambda>(_, l', m'). list_fill list_insert js l' m')"

definition fresh_levels :: "nat list \<Rightarrow> c_int \<Rightarrow> (byte list \<times> size_t) option" where
  "fresh_levels js k = (if k \<in> of_nat ` set js then Some ([0], 0) else None)"

locale level_store =
  fixes list_init :: 'l
    and list_insert :: "'k \<Rightarrow> lock \<Rightarrow> 'l \<Rightarrow> c_int \<Rightarrow> byte list \<Rightarrow> size_t \<Rightarrow> 'm \<Rightarrow> (c_int \<times> 'l \<times> 'm) res"
    and list_replace :: "'k \<Rightarrow> lock \<Rightarrow> 'l \<Rightarrow> c_int \<Rightarrow> byte list \<Rightarrow> size_t \<Rightarrow> 'm \<Rightarrow> (c_int \<times> 'l \<times> 'm) res"
    and ok :: "'m \<Rightarrow> 'l \<Rightarrow> bool"
    and view :: "'m \<Rightarrow> 'l \<Rightarrow> c_int \<Rightarrow> (byte list \<times> size_t) option"
    and foot :: "'m \<Rightarrow> 'l \<Rightarrow> addr set"
    and sound :: "'k \<Rightarrow> bool"
    and room :: "'k \<Rightarrow> 'm \<Rightarrow> nat \<Rightarrow> bool"
    and log :: "'m \<Rightarrow> klog"
  assumes init_ok: "ok m list_init"
    and init_view: "view m list_init = Map.empty"
    and init_foot: "foot m list_init = {}"
    and insert_ok: "sound k \<Longrightarrow> ok m l \<Longrightarrow> \<exists>c l' m'. list_insert k lk l key msg sz m = Inr (c, l', m') \<and>
        ok m' l' \<and> others_kept ok view foot m l m' l' \<and>
        (c = 0 \<and> l' = l \<and> m' = m \<or>
         c = 1 \<and> view m' l' = (view m l)(key \<mapsto> (msg, sz)) \<and>
           log m' = log m @ [WriteLock lk, WriteUnlock lk]) \<and>
        (\<forall>j. room k m (Suc j) \<longrightarrow> c = 1 \<and> room k m' j)"
    and replace_ok: "sound k \<Longrightarrow> ok m l \<Longrightarrow> view m l key \<noteq> None \<Longrightarrow>
        \<exists>c l' m'. list_replace k lk l key msg sz m = Inr (c, l', m') \<and>
        ok m' l' \<and> others_kept ok view foot m l m' l' \<and>
        (c = 0 \<and> l' = l \<and> m' = m \<or>
         c = 1 \<and> view m' l' = (view m l)(key \<mapsto> (msg, sz)) \<and>
           log m' = log m @ [WriteLock lk, WriteUnlock lk]) \<and>
        (\<forall>j. room k m (Suc j) \<longrightarrow> c = 1 \<and> room k m' (Suc j))"
begin

text \<open>Filling a list: whatever the allocator answers, the list stays well formed and the
  others are kept; with enough room every level of \<open>js\<close> is there.\<close>

lemma fill_ok:
  assumes "sound k" "ok m l"
  shows "\<exists>l' m'. list_fill (list_insert k lk) js l m = Inr (l', m') \<and> ok m' l' \<and>
    others_kept ok view foot m l m' l' \<and>
    (\<forall>key v. view m' l' key = Some v \<longrightarrow> view m l key = Some v \<or> fresh_levels js key = Some v) \<and>
    (\<exists>n. log m' = log m @ write_sections lk n) \<and>
    (\<forall>r. room k m (length js + r) \<longrightarrow> room k m' r \<and> view m' l' = view m l ++ fresh_levels js)"
  using assms
proof (induction js arbitrary: l m)
  case Nil
  have "fresh_levels [] = Map.empty" by (simp add: fresh_levels_def fun_eq_iff)
  moreover have "\<exists>n. log m = log m @ write_sections lk n" by (rule exI [of _ 0]) simp
  ultimately show ?case using Nil by simp
next
  case (Cons j js)
  from insert_ok [OF Cons.prems] obtain c l1 m1 where
    1: "list_insert k lk l (of_nat j) [0] 0 m = Inr (c, l1, m1)" "ok m1 l1"
       "others_kept ok view foot m l m1 l1"
       "c = 0 \<and> l1 = l \<and> m1 = m \<or> c = 1 \<and> view m1 l1 = (view m l)(of_nat j \<mapsto> ([0], 0)) \<and>
          log m1 = log m @ [WriteLock lk, WriteUnlock lk]"
       "\<And>j. room k m (Suc j) \<Longrightarrow> c = 1 \<and> room k m1 j"
    by meson
  from Cons.IH [OF Cons.prems(1) 1(2)] obtain l' m' where
    2: "list_fill (list_insert k lk) js l1 m1 = Inr (l', m')" "ok m' l'"
       "others_kept ok view foot m1 l1 m' l'"
       "\<And>key v. view m' l' key = Some v \<Longrightarrow> view m1 l1 key = Some v \<or> fresh_levels js key = Some v"
       "\<exists>n. log m' = log m1 @ write_sections lk n"
       "\<And>r. room k m1 (length js + r) \<Longrightarrow> room k m' r \<and> view m' l' = view m1 l1 ++ fresh_levels js"
    by meson
  have levels: "view m l key = Some v \<or> fresh_levels (j # js) key = Some v"
    if "view m' l' key = Some v" for key v
    using 2(4) [OF that] 1(4) by (auto simp: fresh_levels_def split: if_splits)
  have logs: "\<exists>n. log m' = log m @ write_sections lk n"
  proof -
    from 2(5) obtain n where n: "log m' = log m1 @ write_sections lk n" by blast
    show ?thesis
    proof (cases "c = 0")
      case True
      with 1(4) n show ?thesis by auto
    next
      case False
      with 1(4) n have "log m' = log m @ write_sections lk (Suc n)" by simp
      then show ?thesis by blast
    qed
  qed
  have full: "room k m' r \<and> view m' l' = view m l ++ fresh_levels (j # js)"
    if "room k m (length (j # js) + r)" for r
  proof -
    from 1(5) that have c: "c = 1" "room k m1 (length js + r)" by auto
    with 1(4) have "view m1 l1 = (view m l)(of_nat j \<mapsto> ([0], 0))" by auto
    with 2(6) [OF c(2)] show ?thesis
      by (auto simp: fresh_levels_def map_add_def fun_eq_iff split: option.splits)
  qed
  show ?case
    using 1(1) 2(1,2) others_kept_trans [OF 1(3) 2(3)] levels logs full by auto
qed

lemma init_fill:
  assumes "sound k"
  shows "\<exists>l' m'. list_fill (list_insert k lk) js list_init m = Inr (l', m') \<and> ok m' l' \<and>
    others_kept ok view foot m list_init m' l' \<and>
    (\<forall>key v. view m' l' key = Some v \<longrightarrow> fresh_levels js key = Some v) \<and>
    (\<exists>n. log m' = log m @ write_sections lk n) \<and>
    (\<forall>r. room k m (length js + r) \<longrightarrow> room k m' r \<and> view m' l' = fresh_levels js)"
  using fill_ok [where m = m and lk = lk and js = js, OF assms init_ok] by (simp add: init_view)

end

end
