(* ===== verification/RcuCorrect.thy ===== *)
theory RcuCorrect
  imports RcuList LevelStore
begin

text \<open>
  What the list operations do: \<open>chain h p as\<close> says that the nodes reached from \<open>p\<close> are
  at the addresses \<open>as\<close>, in order; \<open>entries h as\<close> are the levels and messages they hold.
  The loops end on every chain, and insertion, replacement, removal and search act on
  \<open>entries\<close> as the corresponding list operations do.
\<close>

section \<open>Chains of nodes\<close>

primrec seg :: "el_store \<Rightarrow> addr option \<Rightarrow> addr list \<Rightarrow> addr option \<Rightarrow> bool" where
  "seg h p [] q \<longleftrightarrow> p = q"
| "seg h p (a # as) q \<longleftrightarrow> p = Some a \<and> (\<exists>e. h a = Some e \<and> seg h (e_next e) as q)"

abbreviation chain :: "el_store \<Rightarrow> addr option \<Rightarrow> addr list \<Rightarrow> bool" where
  "chain h p as \<equiv> seg h p as None"

lemma seg_append [simp]: "seg h p (as @ bs) q \<longleftrightarrow> (\<exists>r. seg h p as r \<and> seg h r bs q)"
  by (induction as arbitrary: p) auto

lemma chain_None [simp]: "chain h None as \<longleftrightarrow> as = []"
  by (cases as) auto

lemma seg_fresh [simp]: "a \<notin> set as \<Longrightarrow> seg (h(a := x)) p as q \<longleftrightarrow> seg h p as q"
  by (induction as arbitrary: p) auto

lemma seg_cong: "(\<And>a. a \<in> set as \<Longrightarrow> h a = h' a) \<Longrightarrow> seg h p as q \<longleftrightarrow> seg h' p as q"
  by (induction as arbitrary: p) auto

lemma seg_allocated: "seg h p as q \<Longrightarrow> a \<in> set as \<Longrightarrow> \<exists>e. h a = Some e"
  by (induction as arbitrary: p) auto

lemma chain_unique: "chain h p as \<Longrightarrow> chain h p bs \<Longrightarrow> as = bs"
proof (induction as arbitrary: p bs)
  case Nil
  then show ?case by simp
next
  case (Cons a as)
  then show ?case by (cases bs) auto
qed

lemma chain_distinct: "chain h p as \<Longrightarrow> distinct as"
proof (induction as arbitrary: p)
  case Nil
  then show ?case by simp
next
  case (Cons a as)
  then obtain e where e: "h a = Some e" "chain h (e_next e) as" by auto
  have "a \<notin> set as"
  proof
    assume "a \<in> set as"
    then obtain us vs where as: "as = us @ a # vs" by (meson split_list)
    with e have "chain h (Some a) (a # vs)" by auto
    moreover from e have "chain h (Some a) (a # as)" by simp
    ultimately have "vs = as" by (metis chain_unique list.inject)
    with as show False by (metis length_append length_Cons add_Suc_right less_add_Suc2 less_irrefl)
  qed
  with Cons.IH e show ?case by simp
qed

definition entry :: "el_store \<Rightarrow> addr \<Rightarrow> c_int \<times> byte list \<times> size_t" where
  "entry h a = (let e = the (h a) in (e_level e, e_message e, e_size e))"

definition entries :: "el_store \<Rightarrow> addr list \<Rightarrow> (c_int \<times> byte list \<times> size_t) list" where
  "entries h as = map (entry h) as"

abbreviation lev :: "el_store \<Rightarrow> addr \<Rightarrow> c_int" where
  "lev h a \<equiv> e_level (the (h a))"

lemma fst_entry [simp]: "fst (entry h a) = lev h a"
  by (simp add: entry_def Let_def)

lemma entries_simps [simp]:
  "entries h [] = []" "entries h (a # as) = entry h a # entries h as"
  "entries h (as @ bs) = entries h as @ entries h bs"
  by (simp_all add: entries_def)

lemma entry_fresh [simp]: "b \<noteq> a \<Longrightarrow> entry (h(a := x)) b = entry h b"
  by (simp add: entry_def)

lemma entries_fresh [simp]: "a \<notin> set as \<Longrightarrow> entries (h(a := x)) as = entries h as"
  by (induction as) auto

lemma entry_upd [simp]: "entry (h(a \<mapsto> e)) a = (e_level e, e_message e, e_size e)"
  by (simp add: entry_def)

lemma entries_cong: "(\<And>a. a \<in> set as \<Longrightarrow> h a = h' a) \<Longrightarrow> entries h as = entries h' as"
  by (induction as) (auto simp: entry_def)

section \<open>The loops\<close>

lemma find_level_chain:
  "chain h p as \<Longrightarrow> find_level h key p = Some (Inr (find (\<lambda>a. lev h a = key) as))"
  by (induction as arbitrary: p) (auto simp: find_level.simps)

fun pred_of :: "('a \<Rightarrow> bool) \<Rightarrow> 'a list \<Rightarrow> 'a option" where
  "pred_of P (a # b # xs) = (if P b then Some a else pred_of P (b # xs))"
| "pred_of P _ = None"

lemma find_pred_chain:
  "chain h p as \<Longrightarrow> find_pred h key p = Some (Inr (pred_of (\<lambda>a. lev h a = key) as))"
proof (induction "\<lambda>a. lev h a = key" as arbitrary: p rule: pred_of.induct)
  case (1 a b xs)
  then show ?case by (auto simp: find_pred.simps [of _ _ "Some a"])
next
  case "2_1"
  then show ?case by (simp add: find_pred.simps)
next
  case "2_2"
  then show ?case by (auto simp: find_pred.simps)
qed

lemma pred_of_split:
  "\<not> P a \<Longrightarrow> (\<forall>x \<in> set xs. \<not> P x) \<Longrightarrow> P r \<Longrightarrow>
   pred_of P (a # xs @ r # ys) = Some (last (a # xs))"
  by (induction xs arbitrary: a) auto

lemma pred_of_Some: "pred_of P as = Some p \<Longrightarrow> \<exists>xs r ys. as = xs @ p # r # ys \<and> P r"
proof (induction P as rule: pred_of.induct)
  case (1 P a b xs)
  show ?case
  proof (cases "P b")
    case True
    with 1 show ?thesis by (intro exI [of _ "[]"]) auto
  next
    case False
    with 1 obtain us r ys where "b # xs = us @ p # r # ys" "P r" by auto
    then show ?thesis by (intro exI [of _ "a # us"]) auto
  qed
qed simp_all

lemma pred_of_none: "\<forall>x \<in> set xs. \<not> P x \<Longrightarrow> pred_of P xs = None"
  by (induction P xs rule: pred_of.induct) auto

section \<open>Well-formed lists\<close>

text \<open>No reader is counted in either epoch and the arrays have their length: the state of
  a list between two calls that run one after the other.\<close>

definition quiet :: "rcu_list \<Rightarrow> bool" where
  "quiet l \<longleftrightarrow> epoch l < 2 \<and> length (standing l) = 2 \<and> (\<forall>i < 2. standing l ! i \<le> 0) \<and>
     length (readerQueue l) = levelDeep \<and> length (ready l) = levelDeep \<and>
     length (waiters l) = levelDeep"

lemma other_epoch_less [simp]: "other_epoch l < 2"
  by (simp add: other_epoch_def)

lemma quiet_no_standing: "quiet l \<Longrightarrow> i < 2 \<Longrightarrow> \<not> standing l ! i > 0"
  by (auto simp: quiet_def not_less)

lemma quiet_upd [simp]:
  "quiet (l\<lparr>head := x\<rparr>) \<longleftrightarrow> quiet l"
  "i < 2 \<Longrightarrow> quiet l \<Longrightarrow> quiet (l\<lparr>epoch := i\<rparr>)"
  "length xs = levelDeep \<Longrightarrow> quiet l \<Longrightarrow> quiet (l\<lparr>ready := xs\<rparr>)"
  "length xs = levelDeep \<Longrightarrow> quiet l \<Longrightarrow> quiet (l\<lparr>waiters := xs\<rparr>)"
  "length qs = levelDeep \<Longrightarrow> quiet l \<Longrightarrow> quiet (l\<lparr>readerQueue := qs\<rparr>)"
  by (simp_all add: quiet_def)

lemma quiet_init [simp]: "quiet rcu_list_init"
  by (auto simp: quiet_def rcu_list_init_def less_2_cases_iff)

section \<open>Insertion\<close>

lemma insert_eq:
  assumes "alloc (el_heap m) = Some p" "quiet l"
  shows "rcu_list_insert alloc lk l key msg sz m =
    Inr (1, l\<lparr>head := Some p, epoch := other_epoch l\<rparr>,
         m\<lparr>el_heap := (el_heap m)(p \<mapsto> \<lparr>e_next = head l, e_level = key, e_message = msg, e_size = sz\<rparr>),
           klog := klog m @ [WriteLock lk, WriteUnlock lk]\<rparr>)"
  using assms quiet_no_standing [of l "epoch l"]
  by (simp add: rcu_list_insert_def logk_def Let_def quiet_def)

lemma insert_chain:
  assumes "chain h p as" "a \<notin> set as"
  shows "chain (h(a \<mapsto> \<lparr>e_next = p, e_level = k, e_message = msg, e_size = sz\<rparr>)) (Some a) (a # as)"
  using assms by simp

section \<open>Replacement\<close>

text \<open>The store after a replacement: the new node has the place of the old one.\<close>

lemma replace_head_eq:
  assumes "alloc (el_heap m) = Some n" "quiet l" "chain (el_heap m) (head l) (r # ys)"
    and "el_heap m n = None" "lev (el_heap m) r = key" "el_heap m r = Some e"
  shows "rcu_list_replace alloc lk l key msg sz m =
    Inr (1, l\<lparr>head := Some n, epoch := other_epoch l\<rparr>,
         m\<lparr>el_heap := (el_heap m)(n \<mapsto> \<lparr>e_next = e_next e, e_level = key, e_message = msg, e_size = sz\<rparr>,
                                 r := None),
           klog := klog m @ [WriteLock lk, WriteUnlock lk]\<rparr>)"
proof -
  have ne: "n \<noteq> r" using assms(4,6) by auto
  have hd: "head l = Some r" using assms(3) by simp
  have st: "\<not> standing l ! epoch l > 0" using assms(2) quiet_no_standing [of l "epoch l"]
    by (simp add: quiet_def)
  show ?thesis
    using assms ne hd st
    by (simp add: rcu_list_replace_def replace_commit_def logk_def Let_def other_epoch_def)
qed

lemma replace_mid_eq:
  assumes al: "alloc (el_heap m) = Some n" "quiet l" "el_heap m n = None"
    and ch: "chain (el_heap m) (head l) (xs @ p # r # ys)"
    and nk: "\<forall>x \<in> set (xs @ [p]). lev (el_heap m) x \<noteq> key"
    and r: "lev (el_heap m) r = key" "el_heap m r = Some e" "el_heap m p = Some pe"
  shows "rcu_list_replace alloc lk l key msg sz m =
    Inr (1, l\<lparr>epoch := other_epoch l\<rparr>,
         m\<lparr>el_heap := (el_heap m)(n \<mapsto> \<lparr>e_next = e_next e, e_level = key, e_message = msg, e_size = sz\<rparr>,
                                 p \<mapsto> pe\<lparr>e_next := Some n\<rparr>, r := None),
           klog := klog m @ [WriteLock lk, WriteUnlock lk]\<rparr>)"
proof -
  let ?new = "\<lparr>e_next = None, e_level = key, e_message = msg, e_size = sz\<rparr>"
  let ?h = "(el_heap m)(n \<mapsto> ?new)"
  obtain a zs where az: "xs @ [p] = a # zs" by (cases xs) auto
  have split: "xs @ p # r # ys = a # zs @ r # ys" using az by (metis append.assoc append_Cons append_Nil)
  have last: "last (a # zs) = p" using az by (metis last_snoc)
  have dist: "distinct (xs @ p # r # ys)" using ch by (rule chain_distinct)
  have nin: "n \<notin> set (xs @ p # r # ys)"
    using al(3) seg_allocated [OF ch] by (metis option.distinct(1))
  have ch': "chain ?h (head l) (a # zs @ r # ys)"
    using ch nin seg_fresh [of n "a # zs @ r # ys"] unfolding split by blast
  have hd: "head l = Some a" using ch' by simp
  have a_in: "a \<in> set (xs @ [p])" unfolding az by simp
  have a_ne: "a \<noteq> n" using a_in nin by auto
  obtain ea where ea: "el_heap m a = Some ea" using ch a_in seg_allocated [of _ _ _ _ a] by fastforce
  have lev_h: "lev ?h x = lev (el_heap m) x" if "x \<in> set (xs @ p # r # ys)" for x
    using that nin by auto
  have lev_a: "e_level ea \<noteq> key" using nk a_in ea by fastforce
  have pred: "pred_of (\<lambda>x. lev ?h x = key) (a # zs @ r # ys) = Some p"
  proof -
    have "\<forall>x \<in> set (a # zs). lev ?h x \<noteq> key"
      using nk lev_h unfolding az [symmetric] by (auto simp del: fun_upd_apply)
    moreover have "lev ?h r = key" using lev_h [of r] r(1) by (simp del: fun_upd_apply)
    ultimately show ?thesis using last pred_of_split [of "\<lambda>x. lev ?h x = key" a zs r ys]
      by (simp del: fun_upd_apply)
  qed
  have find: "find_pred ?h key (Some a) = Some (Inr (Some p))"
    using find_pred_chain [OF ch', of key] pred hd by simp
  have ne: "n \<noteq> r" "n \<noteq> p" "p \<noteq> r" using nin dist by auto
  have next_p: "e_next pe = Some r" using ch r(3) by auto
  have st: "\<not> standing l ! epoch l > 0" using al(2) quiet_no_standing [of l "epoch l"]
    by (simp add: quiet_def)
  show ?thesis
    using al(1) hd ea lev_a find ne next_p st r(2,3) a_ne
    by (simp add: rcu_list_replace_def replace_commit_def logk_def Let_def other_epoch_def
        fun_upd_twist fun_upd_upd)
qed

text \<open>Both cases, as one step of the list of entries.\<close>

lemma replace_spec:
  assumes al: "alloc (el_heap m) = Some n" "el_heap m n = None" and q: "quiet l"
    and ch: "chain (el_heap m) (head l) (xs @ r # ys)"
    and nk: "\<forall>x \<in> set xs. lev (el_heap m) x \<noteq> key" and rk: "lev (el_heap m) r = key"
  obtains h' l' where
    "rcu_list_replace alloc lk l key msg sz m =
       Inr (1, l', m\<lparr>el_heap := h', klog := klog m @ [WriteLock lk, WriteUnlock lk]\<rparr>)"
    "quiet l'" "l' = l\<lparr>head := head l', epoch := other_epoch l\<rparr>" "chain h' (head l') (xs @ n # ys)"
    "entries h' (xs @ n # ys) = entries (el_heap m) xs @ (key, msg, sz) # entries (el_heap m) ys"
    "\<And>a. a \<notin> set (xs @ r # ys) \<Longrightarrow> a \<noteq> n \<Longrightarrow> h' a = el_heap m a" "h' r = None" "n \<noteq> r"
proof -
  have dist: "distinct (xs @ r # ys)" using ch by (rule chain_distinct)
  have nin: "n \<notin> set (xs @ r # ys)"
    using al(2) seg_allocated [OF ch] by (metis option.distinct(1))
  obtain e where e: "el_heap m r = Some e" using seg_allocated [OF ch, of r] by auto
  show thesis
  proof (cases xs rule: rev_cases)
    case Nil
    with ch have ch0: "chain (el_heap m) (head l) (r # ys)" by simp
    let ?h = "(el_heap m)(n \<mapsto> \<lparr>e_next = e_next e, e_level = key, e_message = msg, e_size = sz\<rparr>,
      r := None)"
    show thesis
    proof (rule that [of "l\<lparr>head := Some n, epoch := other_epoch l\<rparr>" ?h])
      show "rcu_list_replace alloc lk l key msg sz m =
         Inr (1, l\<lparr>head := Some n, epoch := other_epoch l\<rparr>,
              m\<lparr>el_heap := ?h, klog := klog m @ [WriteLock lk, WriteUnlock lk]\<rparr>)"
        by (rule replace_head_eq) (use al q ch0 rk e in auto)
    qed (use Nil ch e nin dist q in auto)
  next
    case (snoc us p)
    with ch have ch0: "chain (el_heap m) (head l) (us @ p # r # ys)" by simp
    obtain pe where pe: "el_heap m p = Some pe" using seg_allocated [OF ch0, of p] by auto
    let ?h = "(el_heap m)(n \<mapsto> \<lparr>e_next = e_next e, e_level = key, e_message = msg, e_size = sz\<rparr>,
      p \<mapsto> pe\<lparr>e_next := Some n\<rparr>, r := None)"
    show thesis
    proof (rule that [of "l\<lparr>epoch := other_epoch l\<rparr>" ?h])
      show "rcu_list_replace alloc lk l key msg sz m =
         Inr (1, l\<lparr>epoch := other_epoch l\<rparr>,
              m\<lparr>el_heap := ?h, klog := klog m @ [WriteLock lk, WriteUnlock lk]\<rparr>)"
        by (rule replace_mid_eq [where xs = us and ys = ys]) (use al q ch0 rk e pe nk snoc in auto)
    next
      show "chain ?h (head (l\<lparr>epoch := other_epoch l\<rparr>)) (xs @ n # ys)"
        using ch0 e pe nin dist snoc by auto
    next
      show "entries ?h (xs @ n # ys) =
        entries (el_heap m) xs @ (key, msg, sz) # entries (el_heap m) ys"
        using pe nin dist snoc by (auto simp: entry_def)
    qed (use snoc nin q dist in auto)
  qed
qed

text \<open>A level that no node has: nothing is replaced, and the write lock taken at the start is
  still held when \<open>0\<close> is returned.\<close>

lemma replace_absent:
  assumes al: "alloc (el_heap m) = Some n" "el_heap m n = None"
    and ch: "chain (el_heap m) (head l) as" and nk: "\<forall>a \<in> set as. lev (el_heap m) a \<noteq> key"
  shows "rcu_list_replace alloc lk l key msg sz m =
    Inr (0, l, m\<lparr>el_heap := (el_heap m)(n \<mapsto> \<lparr>e_next = None, e_level = key, e_message = msg, e_size = sz\<rparr>),
                klog := klog m @ [WriteLock lk]\<rparr>)"
proof -
  let ?new = "\<lparr>e_next = None, e_level = key, e_message = msg, e_size = sz\<rparr>"
  let ?h = "(el_heap m)(n \<mapsto> ?new)"
  have nin: "n \<notin> set as"
    using al(2) seg_allocated [OF ch] by (metis option.distinct(1))
  show ?thesis
  proof (cases as)
    case Nil
    with ch have "head l = None" by simp
    with al show ?thesis
      by (auto simp: rcu_list_replace_def logk_def Let_def)
  next
    case (Cons a bs)
    from ch Cons obtain e where a: "head l = Some a" "el_heap m a = Some e" by auto
    have ch': "chain ?h (Some a) as" using ch nin a by (simp del: fun_upd_apply)
    have "\<forall>x \<in> set as. lev ?h x \<noteq> key" using nk nin by auto
    then have "find_pred ?h key (Some a) = Some (Inr None)"
      using find_pred_chain [OF ch', of key] pred_of_none [of as] by simp
    moreover have "a \<noteq> n" "e_level e \<noteq> key" using nin Cons nk a by auto
    ultimately show ?thesis
      using al a by (auto simp: rcu_list_replace_def logk_def Let_def)
  qed
qed

section \<open>The list as a store of levels\<close>

text \<open>What a search finds for a level, and the well-formedness and memory of a list.\<close>

definition rcu_view :: "kmem \<Rightarrow> rcu_list \<Rightarrow> c_int \<Rightarrow> (byte list \<times> size_t) option" where
  "rcu_view m l key = (case find_level (el_heap m) key (head l) of
     Some (Inr (Some a)) \<Rightarrow> map_option (\<lambda>e. (e_message e, e_size e)) (el_heap m a)
   | _ \<Rightarrow> None)"

definition rcu_ok :: "kmem \<Rightarrow> rcu_list \<Rightarrow> bool" where
  "rcu_ok m l \<longleftrightarrow> quiet l \<and> (\<exists>as. chain (el_heap m) (head l) as)"

definition rcu_foot :: "kmem \<Rightarrow> rcu_list \<Rightarrow> addr set" where
  "rcu_foot m l = {a. \<exists>as. chain (el_heap m) (head l) as \<and> a \<in> set as}"

text \<open>\<^verbatim>\<open>kmalloc\<close> answers memory that is not in use; \<open>alloc_room\<close>: it has memory for \<open>j\<close>
  more nodes.\<close>

definition alloc_sound :: "((addr \<Rightarrow> 'a option) \<Rightarrow> addr option) \<Rightarrow> bool" where
  "alloc_sound alloc \<longleftrightarrow> (\<forall>h a. alloc h = Some a \<longrightarrow> h a = None)"

definition alloc_room :: "((addr \<Rightarrow> 'a option) \<Rightarrow> addr option) \<Rightarrow> (addr \<Rightarrow> 'a option) \<Rightarrow> nat \<Rightarrow> bool" where
  "alloc_room alloc h j \<longleftrightarrow> finite (dom h) \<and>
     (\<forall>g. finite (dom g) \<longrightarrow> card (dom g) < card (dom h) + j \<longrightarrow> alloc g \<noteq> None)"

lemma alloc_room_0: "finite (dom h) \<Longrightarrow> (\<forall>g. finite (dom g) \<longrightarrow> card (dom g) < card (dom h) \<longrightarrow> alloc g \<noteq> None)
   \<Longrightarrow> alloc_room alloc h 0"
  by (simp add: alloc_room_def)

lemma alloc_room_Some: "alloc_room alloc h (Suc j) \<Longrightarrow> \<exists>a. alloc h = Some a"
  unfolding alloc_room_def by fastforce

lemma alloc_room_le: "alloc_room alloc h j \<Longrightarrow> i \<le> j \<Longrightarrow> alloc_room alloc h i"
  unfolding alloc_room_def by auto

lemma alloc_room_upd:
  assumes "alloc_room alloc h (Suc j)" "dom h' = insert a (dom h)" "h a = None"
  shows "alloc_room alloc h' j"
proof -
  have "a \<notin> dom h" using assms(3) by auto
  moreover have "finite (dom h)" using assms(1) by (simp add: alloc_room_def)
  ultimately show ?thesis using assms unfolding alloc_room_def by simp
qed

lemma alloc_room_card:
  assumes "alloc_room alloc h j" "finite (dom h')" "card (dom h') = card (dom h)"
  shows "alloc_room alloc h' j"
  using assms unfolding alloc_room_def by simp

lemma alloc_room_less:
  assumes "alloc_room alloc h j" "dom h' \<subseteq> dom h"
  shows "alloc_room alloc h' j"
proof -
  have fin: "finite (dom h)" using assms(1) by (simp add: alloc_room_def)
  with assms(2) have "finite (dom h')" "card (dom h') \<le> card (dom h)"
    by (auto intro: finite_subset card_mono)
  with assms(1) show ?thesis unfolding alloc_room_def by auto
qed

lemma rcu_same_heap:
  assumes "el_heap m' = el_heap m"
  shows "rcu_view m' = rcu_view m" "rcu_ok m' = rcu_ok m" "rcu_foot m' = rcu_foot m"
  unfolding rcu_view_def rcu_ok_def rcu_foot_def assms by (rule refl)+

lemma rcu_view_chain:
  assumes "chain (el_heap m) (head l) as"
  shows "rcu_view m l = map_of (entries (el_heap m) as)"
proof
  fix key
  have *: "(case find (\<lambda>a. lev h a = key) bs of Some a \<Rightarrow> map_option (\<lambda>e. (e_message e, e_size e)) (h a)
            | None \<Rightarrow> None) = map_of (entries h bs) key"
    if "\<forall>a \<in> set bs. \<exists>e. h a = Some e" for h :: el_store and bs
    using that
  proof (induction bs)
    case Nil
    then show ?case by simp
  next
    case (Cons b bs)
    then obtain e where e: "h b = Some e" by auto
    then have "entry h b = (e_level e, e_message e, e_size e)" by (simp add: entry_def)
    with e Cons show ?case by simp
  qed
  have "rcu_view m l key = (case find (\<lambda>a. lev (el_heap m) a = key) as of
      Some a \<Rightarrow> map_option (\<lambda>e. (e_message e, e_size e)) (el_heap m a) | None \<Rightarrow> None)"
    unfolding rcu_view_def find_level_chain [OF assms] by (simp split: option.split)
  also have "\<dots> = map_of (entries (el_heap m) as) key"
    by (rule *) (use seg_allocated [OF assms] in blast)
  finally show "rcu_view m l key = map_of (entries (el_heap m) as) key" .
qed

lemma rcu_foot_chain: "chain (el_heap m) (head l) as \<Longrightarrow> rcu_foot m l = set as"
  using chain_unique by (auto simp: rcu_foot_def)

lemma rcu_okI: "quiet l \<Longrightarrow> chain (el_heap m) (head l) as \<Longrightarrow> rcu_ok m l"
  by (auto simp: rcu_ok_def)

text \<open>A list whose nodes a change of the store leaves alone.\<close>

lemma rcu_unchanged:
  assumes "rcu_ok m x" "\<And>a. a \<in> rcu_foot m x \<Longrightarrow> el_heap m' a = el_heap m a"
  shows "rcu_ok m' x \<and> rcu_view m' x = rcu_view m x \<and> rcu_foot m' x = rcu_foot m x"
proof -
  from assms(1) obtain bs where bs: "quiet x" "chain (el_heap m) (head x) bs"
    by (auto simp: rcu_ok_def)
  have same: "\<And>a. a \<in> set bs \<Longrightarrow> el_heap m a = el_heap m' a"
    using assms(2) rcu_foot_chain [OF bs(2)] by simp
  then have bs': "chain (el_heap m') (head x) bs"
    using bs(2) seg_cong [of bs "el_heap m" "el_heap m'"] by blast
  show ?thesis
    using bs bs' entries_cong [OF same]
    by (simp add: rcu_okI rcu_view_chain [OF bs(2)] rcu_view_chain [OF bs']
        rcu_foot_chain [OF bs(2)] rcu_foot_chain [OF bs'])
qed

lemma rcu_others_kept:
  assumes "el_heap m n = None" "rcu_foot m' l' \<subseteq> insert n (rcu_foot m l)"
    and "\<And>a. a \<notin> rcu_foot m l \<Longrightarrow> a \<noteq> n \<Longrightarrow> el_heap m' a = el_heap m a"
  shows "others_kept rcu_ok rcu_view rcu_foot m l m' l'"
  unfolding others_kept_def
proof (intro allI impI)
  fix x assume x: "rcu_ok m x \<and> rcu_foot m l \<inter> rcu_foot m x = {}"
  then have n: "n \<notin> rcu_foot m x"
    using assms(1) seg_allocated by (fastforce simp: rcu_foot_def)
  have "rcu_ok m' x \<and> rcu_view m' x = rcu_view m x \<and> rcu_foot m' x = rcu_foot m x"
    using x n assms(3) by (intro rcu_unchanged) auto
  then show "rcu_ok m' x \<and> rcu_view m' x = rcu_view m x \<and> rcu_foot m' x = rcu_foot m x \<and>
      rcu_foot m' l' \<inter> rcu_foot m' x = {}"
    using x n assms(2) by auto
qed

text \<open>The contract of the two writers, in the terms of the interface.\<close>

definition writer_ok ::
  "el_alloc \<Rightarrow> lock \<Rightarrow> rcu_list \<Rightarrow> c_int \<Rightarrow> byte list \<Rightarrow> size_t \<Rightarrow> kmem
    \<Rightarrow> c_int \<Rightarrow> rcu_list \<Rightarrow> kmem \<Rightarrow> bool" where
  "writer_ok alloc lk l key msg sz m c l' m' \<longleftrightarrow>
     rcu_ok m' l' \<and> others_kept rcu_ok rcu_view rcu_foot m l m' l' \<and>
     (c = 0 \<and> l' = l \<and> m' = m \<or>
      c = 1 \<and> rcu_view m' l' = (rcu_view m l)(key \<mapsto> (msg, sz)) \<and>
        klog m' = klog m @ [WriteLock lk, WriteUnlock lk])"

lemma rcu_insert_ok:
  assumes "alloc_sound alloc" "rcu_ok m l"
  shows "\<exists>c l' m'. rcu_list_insert alloc lk l key msg sz m = Inr (c, l', m') \<and>
    writer_ok alloc lk l key msg sz m c l' m' \<and>
    (\<forall>j. alloc_room alloc (el_heap m) (Suc j) \<longrightarrow> c = 1 \<and> alloc_room alloc (el_heap m') j)"
proof (cases "alloc (el_heap m)")
  case None
  then have "\<not> alloc_room alloc (el_heap m) (Suc j)" for j
    by (metis alloc_room_Some option.distinct(1))
  with None assms(2) show ?thesis
    by (auto simp: rcu_list_insert_def writer_ok_def)
next
  case (Some p)
  from assms obtain as where q: "quiet l" and as: "chain (el_heap m) (head l) as"
    by (auto simp: rcu_ok_def)
  have fr: "el_heap m p = None" using assms(1) Some by (auto simp: alloc_sound_def)
  have nin: "p \<notin> set as" using fr seg_allocated [OF as] by (metis option.distinct(1))
  let ?e = "\<lparr>e_next = head l, e_level = key, e_message = msg, e_size = sz\<rparr>"
  let ?m = "m\<lparr>el_heap := (el_heap m)(p \<mapsto> ?e), klog := klog m @ [WriteLock lk, WriteUnlock lk]\<rparr>"
  let ?l = "l\<lparr>head := Some p, epoch := other_epoch l\<rparr>"
  have ch: "chain (el_heap ?m) (head ?l) (p # as)" using as nin by simp
  have w: "writer_ok alloc lk l key msg sz m 1 ?l ?m"
    unfolding writer_ok_def
  proof (intro conjI disjI2)
    show "rcu_ok ?m ?l" by (rule rcu_okI [OF _ ch]) (use q in simp)
    show "others_kept rcu_ok rcu_view rcu_foot m l ?m ?l"
      by (rule rcu_others_kept [OF fr])
        (use rcu_foot_chain [OF as] rcu_foot_chain [OF ch] in auto)
    show "rcu_view ?m ?l = (rcu_view m l)(key \<mapsto> (msg, sz))"
      unfolding rcu_view_chain [OF as] rcu_view_chain [OF ch] using nin by simp
  qed simp_all
  have "alloc_room alloc (el_heap ?m) j" if "alloc_room alloc (el_heap m) (Suc j)" for j
    by (rule alloc_room_upd [OF that _ fr]) auto
  with w insert_eq [of alloc m p l lk key msg sz, OF Some q] show ?thesis by auto
qed

lemma rcu_replace_ok:
  assumes "alloc_sound alloc" "rcu_ok m l" "rcu_view m l key \<noteq> None"
  shows "\<exists>c l' m'. rcu_list_replace alloc lk l key msg sz m = Inr (c, l', m') \<and>
    writer_ok alloc lk l key msg sz m c l' m' \<and> (alloc (el_heap m) \<noteq> None \<longrightarrow> c = 1) \<and>
    (\<forall>j. alloc_room alloc (el_heap m) (Suc j) \<longrightarrow> c = 1 \<and> alloc_room alloc (el_heap m') (Suc j))"
proof (cases "alloc (el_heap m)")
  case None
  then have "\<not> alloc_room alloc (el_heap m) (Suc j)" for j
    by (metis alloc_room_Some option.distinct(1))
  with None assms(2) show ?thesis
    by (auto simp: rcu_list_replace_def writer_ok_def)
next
  case (Some n)
  from assms obtain as where q: "quiet l" and as: "chain (el_heap m) (head l) as"
    by (auto simp: rcu_ok_def)
  have fr: "el_heap m n = None" using assms(1) Some by (auto simp: alloc_sound_def)
  have "\<exists>a \<in> set as. lev (el_heap m) a = key"
    using assms(3) rcu_view_chain [OF as] by (auto simp: entries_def map_of_eq_None_iff)
  then obtain xs r ys where sp: "as = xs @ r # ys" "\<forall>x \<in> set xs. lev (el_heap m) x \<noteq> key"
    and rk: "lev (el_heap m) r = key"
    using split_list_first_prop [of as "\<lambda>a. lev (el_heap m) a = key"] by blast
  have as': "chain (el_heap m) (head l) (xs @ r # ys)" using as sp by simp
  obtain h' l' where R:
    "rcu_list_replace alloc lk l key msg sz m =
       Inr (1, l', m\<lparr>el_heap := h', klog := klog m @ [WriteLock lk, WriteUnlock lk]\<rparr>)"
    "quiet l'" "l' = l\<lparr>head := head l', epoch := other_epoch l\<rparr>" "chain h' (head l') (xs @ n # ys)"
    "entries h' (xs @ n # ys) = entries (el_heap m) xs @ (key, msg, sz) # entries (el_heap m) ys"
    "\<And>a. a \<notin> set (xs @ r # ys) \<Longrightarrow> a \<noteq> n \<Longrightarrow> h' a = el_heap m a" "h' r = None" "n \<noteq> r"
    by (rule replace_spec [where alloc = alloc and m = m and n = n and l = l and key = key
          and msg = msg and sz = sz and lk = lk, OF Some fr q as' sp(2) rk]) (rule that)
  let ?m = "m\<lparr>el_heap := h', klog := klog m @ [WriteLock lk, WriteUnlock lk]\<rparr>"
  have ch: "chain (el_heap ?m) (head l') (xs @ n # ys)" using R(4) by simp
  have keys: "map_of (entries (el_heap m) xs) key = None"
    using sp(2) by (auto simp: map_of_eq_None_iff entries_def)
  have w: "writer_ok alloc lk l key msg sz m 1 l' ?m"
    unfolding writer_ok_def
  proof (intro conjI disjI2)
    show "rcu_ok ?m l'" by (rule rcu_okI [OF R(2) ch])
    show "others_kept rcu_ok rcu_view rcu_foot m l ?m l'"
      by (rule rcu_others_kept [OF fr])
        (use rcu_foot_chain [OF as'] rcu_foot_chain [OF ch] R(6) in auto)
    show "rcu_view ?m l' = (rcu_view m l)(key \<mapsto> (msg, sz))"
      unfolding rcu_view_chain [OF as'] rcu_view_chain [OF ch] using R(5) keys rk
      by (auto simp: map_add_def fun_eq_iff split: option.splits)
  qed simp_all
  have "dom h' = insert n (dom (el_heap m) - {r})"
  proof -
    have "\<forall>a \<in> set (xs @ n # ys). h' a \<noteq> None" "\<forall>a \<in> set (xs @ r # ys). el_heap m a \<noteq> None"
      using seg_allocated [OF R(4)] seg_allocated [OF as'] by fastforce+
    then have "a \<in> dom h' \<longleftrightarrow> a \<in> insert n (dom (el_heap m) - {r})" for a
      using R(6) [of a] R(7,8)
      by (cases "a \<in> set xs \<union> set ys"; cases "a = n"; cases "a = r")
        (simp_all add: domIff del: not_None_eq)
    then show ?thesis by blast
  qed
  moreover have "r \<in> dom (el_heap m)" "n \<notin> dom (el_heap m)"
    using seg_allocated [OF as', of r] fr by auto
  ultimately have "finite (dom h') \<and> card (dom h') = card (dom (el_heap m))"
    if "finite (dom (el_heap m))"
    using that card_Suc_Diff1 [of "dom (el_heap m)" r] by (simp add: card_insert_if)
  then have "alloc_room alloc (el_heap ?m) (Suc j)" if "alloc_room alloc (el_heap m) (Suc j)" for j
    using that alloc_room_card [OF that, of h'] by (auto simp: alloc_room_def)
  with w R(1) show ?thesis by auto
qed

lemma init_head: "head rcu_list_init = None"
  by (simp add: rcu_list_init_def)

interpretation rcu: level_store rcu_list_init rcu_list_insert rcu_list_replace
  rcu_ok rcu_view rcu_foot "alloc_sound :: el_alloc \<Rightarrow> bool"
  "\<lambda>(k :: el_alloc) m. alloc_room k (el_heap m)" klog
proof
  fix m show "rcu_ok m rcu_list_init" "rcu_view m rcu_list_init = Map.empty"
    "rcu_foot m rcu_list_init = {}"
    by (simp_all add: rcu_ok_def rcu_view_def rcu_foot_def init_head find_level.simps fun_eq_iff)
next
  fix k :: el_alloc and m l lk key msg sz
  assume "alloc_sound k" "rcu_ok m l"
  then show "\<exists>c l' m'. rcu_list_insert k lk l key msg sz m = Inr (c, l', m') \<and>
      rcu_ok m' l' \<and> others_kept rcu_ok rcu_view rcu_foot m l m' l' \<and>
      (c = 0 \<and> l' = l \<and> m' = m \<or>
       c = 1 \<and> rcu_view m' l' = (rcu_view m l)(key \<mapsto> (msg, sz)) \<and>
         klog m' = klog m @ [WriteLock lk, WriteUnlock lk]) \<and>
      (\<forall>j. alloc_room k (el_heap m) (Suc j) \<longrightarrow> c = 1 \<and> alloc_room k (el_heap m') j)"
    using rcu_insert_ok [of k m l lk key msg sz] unfolding writer_ok_def by blast
next
  fix k :: el_alloc and m l key lk msg sz
  assume "alloc_sound k" "rcu_ok m l" "rcu_view m l key \<noteq> None"
  then show "\<exists>c l' m'. rcu_list_replace k lk l key msg sz m = Inr (c, l', m') \<and>
      rcu_ok m' l' \<and> others_kept rcu_ok rcu_view rcu_foot m l m' l' \<and>
      (c = 0 \<and> l' = l \<and> m' = m \<or>
       c = 1 \<and> rcu_view m' l' = (rcu_view m l)(key \<mapsto> (msg, sz)) \<and>
         klog m' = klog m @ [WriteLock lk, WriteUnlock lk]) \<and>
      (\<forall>j. alloc_room k (el_heap m) (Suc j) \<longrightarrow> c = 1 \<and> alloc_room k (el_heap m') (Suc j))"
    using rcu_replace_ok [of k m l key lk msg sz] unfolding writer_ok_def by blast
qed

section \<open>Removal\<close>

lemma remove_commit_quiet:
  assumes "quiet l"
  shows "remove_commit lk l removed m =
    Inr (case removed of None \<Rightarrow> (0, l\<lparr>epoch := other_epoch l\<rparr>, logk (WriteUnlock lk) m)
         | Some r \<Rightarrow> (1, l\<lparr>epoch := other_epoch l\<rparr>,
             (logk (WriteUnlock lk) m)\<lparr>el_heap := (el_heap m)(r := None)\<rparr>))"
  using assms quiet_no_standing [of l "epoch l"] quiet_no_standing [of l "other_epoch l"]
  by (simp add: remove_commit_def Let_def quiet_def split: option.splits)

lemma remove_spec:
  assumes q: "quiet l" and ch: "chain (el_heap m) (head l) (xs @ r # ys)"
    and nk: "\<forall>x \<in> set xs. lev (el_heap m) x \<noteq> key" and rk: "lev (el_heap m) r = key"
  shows "\<exists>l' m'. rcu_list_remove lk l key m = Inr (1, l', m') \<and> quiet l' \<and>
    chain (el_heap m') (head l') (xs @ ys) \<and>
    entries (el_heap m') (xs @ ys) = entries (el_heap m) (xs @ ys) \<and>
    el_heap m' r = None \<and> klog m' = klog m @ [WriteLock lk, WriteUnlock lk]"
proof -
  have dist: "distinct (xs @ r # ys)" using ch by (rule chain_distinct)
  obtain e where e: "el_heap m r = Some e" using seg_allocated [OF ch, of r] by auto
  show ?thesis
  proof (cases xs rule: rev_cases)
    case Nil
    with ch e have "head l = Some r" "chain (el_heap m) (e_next e) ys" by auto
    with e rk q dist Nil show ?thesis
      by (simp add: rcu_list_remove_def Let_def remove_commit_quiet)
  next
    case (snoc us p)
    with ch have ch0: "chain (el_heap m) (head l) (us @ p # r # ys)" by simp
    obtain pe where pe: "el_heap m p = Some pe" "e_next pe = Some r" using ch0 by auto
    have "xs \<noteq> []" using snoc by simp
    then obtain a zs where az: "xs = a # zs" by (meson neq_Nil_conv)
    obtain ea where a: "head l = Some a" "el_heap m a = Some ea" "e_level ea \<noteq> key"
      using ch az nk by auto
    have "last (a # zs) = p" using az snoc by (metis last_snoc)
    moreover have "pred_of (\<lambda>x. lev (el_heap m) x = key) (a # zs @ r # ys) = Some (last (a # zs))"
      by (rule pred_of_split) (use nk az rk in auto)
    moreover have "chain (el_heap m) (Some a) (a # zs @ r # ys)" using ch az a(1) by simp
    ultimately have find: "find_pred (el_heap m) key (Some a) = Some (Inr (Some p))"
      using find_pred_chain [of "el_heap m" "Some a" "a # zs @ r # ys" key] by (simp del: last.simps)
    have "rcu_list_remove lk l key m = Inr (1, l\<lparr>epoch := other_epoch l\<rparr>,
        m\<lparr>el_heap := (el_heap m)(p \<mapsto> pe\<lparr>e_next := e_next e\<rparr>, r := None),
          klog := klog m @ [WriteLock lk, WriteUnlock lk]\<rparr>)"
      using a find pe e q
      by (simp add: rcu_list_remove_def Let_def remove_commit_quiet logk_def)
    then show ?thesis using ch0 e pe q dist snoc by (auto simp: entry_def)
  qed
qed

lemma remove_absent:
  assumes q: "quiet l" and ch: "chain (el_heap m) (head l) as"
    and nk: "\<forall>a \<in> set as. lev (el_heap m) a \<noteq> key"
  shows "rcu_list_remove lk l key m =
    Inr (0, l\<lparr>epoch := other_epoch l\<rparr>, m\<lparr>klog := klog m @ [WriteLock lk, WriteUnlock lk]\<rparr>)"
proof (cases as)
  case Nil
  with ch have "head l = None" by simp
  then show ?thesis by (simp add: rcu_list_remove_def Let_def remove_commit_quiet [OF q] logk_def)
next
  case (Cons a bs)
  with ch nk obtain e where a: "head l = Some a" "el_heap m a = Some e" "e_level e \<noteq> key" by auto
  have "find_pred (el_heap m) key (Some a) = Some (Inr None)"
    using find_pred_chain [OF ch, of key] pred_of_none [of as] nk a(1) by simp
  with a show ?thesis
    by (simp add: rcu_list_remove_def Let_def remove_commit_quiet [OF q] logk_def)
qed

section \<open>Search\<close>

lemma search_enter_eq:
  "level_ix key = Some j \<Longrightarrow> search_enter l key =
    Inr (epoch l, l\<lparr>ready := (ready l)[j := 0], waiters := (waiters l)[j := waiters l ! j + 1]\<rparr>)"
  by (simp add: search_enter_def)

lemma search_enter_outside: "level_ix key = None \<Longrightarrow> search_enter l key = Inl Fault"
  by (simp add: search_enter_def)

lemma add_standing_back [simp]:
  "ep < length (standing l) \<Longrightarrow> add_standing ep (- d) (add_standing ep d l) = l"
  by (simp add: add_standing_def)

lemma add_standing_head [simp]: "head (add_standing ep d l) = head l"
  "length (standing (add_standing ep d l)) = length (standing l)"
  by (simp_all add: add_standing_def)

text \<open>A reader that was woken finds the message stored for its level, and leaves the counters
  as a search that found nothing to count would.\<close>

lemma search_leave_woken:
  assumes "rcu_ok m l" "level_ix key = Some j" "ep < 2"
  shows "\<exists>p. search_leave (el_heap m) l ep key False =
      Inr (p, l\<lparr>waiters := (waiters l)[j := waiters l ! j - 1]\<rparr>) \<and>
    rcu_view m l key = map_option (\<lambda>a. (e_message (the (el_heap m a)), e_size (the (el_heap m a)))) p \<and>
    (\<forall>a. p = Some a \<longrightarrow> el_heap m a \<noteq> None)"
proof -
  from assms(1) obtain as where q: "quiet l" and ch: "chain (el_heap m) (head l) as"
    by (auto simp: rcu_ok_def)
  let ?p = "find (\<lambda>a. lev (el_heap m) a = key) as"
  have restore: "add_standing ep (- 1) (add_standing ep 1 l) = l"
    using q assms(3) by (simp add: quiet_def)
  have "search_leave (el_heap m) l ep key False =
      Inr (?p, l\<lparr>waiters := (waiters l)[j := waiters l ! j - 1]\<rparr>)"
    using assms(2) restore by (simp add: search_leave_def find_level_chain [OF ch])
  moreover have al: "el_heap m a \<noteq> None" if "?p = Some a" for a
  proof -
    from that have "a \<in> set as" by (auto simp: find_Some_iff)
    with seg_allocated [OF ch] show ?thesis by fastforce
  qed
  moreover have "rcu_view m l key =
    map_option (\<lambda>a. (e_message (the (el_heap m a)), e_size (the (el_heap m a)))) ?p"
    using al by (auto simp: rcu_view_def find_level_chain [OF ch] split: option.splits)
  ultimately show ?thesis by blast
qed

lemma search_leave_signalled:
  "level_ix key = Some j \<Longrightarrow> search_leave h l ep key True =
    Inr (None, (add_standing ep (- 1) l)\<lparr>waiters := (waiters l)[j := waiters l ! j - 1]\<rparr>)"
  by (simp add: search_leave_def add_standing_def)

lemma rcu_replace_missing:
  assumes snd: "alloc_sound alloc" and ok: "rcu_ok m l" and none: "rcu_view m l key = None"
  shows "\<exists>m'. rcu_list_replace alloc lk l key msg sz m = Inr (0, l, m') \<and>
    rcu_ok m' l \<and> rcu_view m' l = rcu_view m l \<and>
    others_kept rcu_ok rcu_view rcu_foot m l m' l \<and>
    (if alloc (el_heap m) = None then m' = m else klog m' = klog m @ [WriteLock lk]) \<and>
    (\<forall>j. alloc_room alloc (el_heap m) (Suc j) \<longrightarrow> alloc_room alloc (el_heap m') j)"
proof (cases "alloc (el_heap m)")
  case None
  then have "\<not> alloc_room alloc (el_heap m) (Suc j)" for j
    by (metis alloc_room_Some option.distinct(1))
  with None ok show ?thesis by (simp add: rcu_list_replace_def)
next
  case (Some n)
  from ok obtain as where as: "chain (el_heap m) (head l) as" by (auto simp: rcu_ok_def)
  have fr: "el_heap m n = None" using snd Some by (auto simp: alloc_sound_def)
  have nk: "\<forall>a \<in> set as. lev (el_heap m) a \<noteq> key"
    using none unfolding rcu_view_chain [OF as] by (force simp: map_of_eq_None_iff entries_def image_image)
  let ?m = "m\<lparr>el_heap := (el_heap m)(n \<mapsto> \<lparr>e_next = None, e_level = key, e_message = msg, e_size = sz\<rparr>),
    klog := klog m @ [WriteLock lk]\<rparr>"
  have "n \<notin> rcu_foot m l" using fr seg_allocated by (fastforce simp: rcu_foot_def)
  then have un: "rcu_ok ?m l \<and> rcu_view ?m l = rcu_view m l \<and> rcu_foot ?m l = rcu_foot m l"
    by (intro rcu_unchanged [OF ok]) auto
  moreover have "others_kept rcu_ok rcu_view rcu_foot m l ?m l"
    by (rule rcu_others_kept [OF fr]) (use un in auto)
  moreover have "alloc_room alloc (el_heap ?m) j" if "alloc_room alloc (el_heap m) (Suc j)" for j
    by (rule alloc_room_upd [OF that _ fr]) auto
  ultimately show ?thesis
    using replace_absent [of alloc m n l as key lk msg sz, OF Some fr as nk] Some by auto
qed

text \<open>What lies in the queues and flags does not matter to the nodes.\<close>

lemma rcu_same_head:
  assumes "head l' = head l"
  shows "rcu_view m l' = rcu_view m l" "rcu_foot m l' = rcu_foot m l"
    "quiet l' \<Longrightarrow> rcu_ok m l \<Longrightarrow> rcu_ok m l'"
    "others_kept rcu_ok rcu_view rcu_foot m l m l'"
  using assms by (auto simp: rcu_view_def rcu_foot_def rcu_ok_def others_kept_def)

section \<open>What the writers leave alone\<close>

definition same_queues :: "rcu_list \<Rightarrow> rcu_list \<Rightarrow> bool" where
  "same_queues l l' \<longleftrightarrow> readerQueue l' = readerQueue l \<and> ready l' = ready l \<and>
     waiters l' = waiters l \<and> standing l' = standing l"

lemma same_queues_refl [simp]: "same_queues l l"
  by (simp add: same_queues_def)

lemma insert_queues:
  "rcu_list_insert alloc lk l k msg sz m = Inr (c, l', m') \<Longrightarrow> same_queues l l'"
  by (auto simp: rcu_list_insert_def same_queues_def Let_def split: option.splits if_splits)

lemma commit_queues:
  "replace_commit lk l r m = Inr (c, l', m') \<Longrightarrow> same_queues l l'"
  by (auto simp: replace_commit_def same_queues_def Let_def split: if_splits)

lemma replace_queues:
  "rcu_list_replace alloc lk l k msg sz m = Inr (c, l', m') \<Longrightarrow> same_queues l l'"
  by (auto simp: rcu_list_replace_def Let_def dest: commit_queues split: option.splits if_splits)
    (auto dest: commit_queues simp: same_queues_def)

lemma fill_queues:
  "list_fill (rcu_list_insert alloc lk) js l m = Inr (l', m') \<Longrightarrow> same_queues l l'"
proof (induction js arbitrary: l m)
  case (Cons j js)
  then show ?case by (fastforce dest: insert_queues simp: same_queues_def)
qed simp

end
