(* ===== verification/Services.thy ===== *)
theory Services
  imports RcuCorrect
begin

text \<open>
  The table of services of \<^verbatim>\<open>TAG_Messaging.h\<close> and the helpers of \<^verbatim>\<open>TAG_Messagin_help.c\<close>:
  the permission checks, the two searches and the creation of a service.  \<open>kstate\<close> holds
  the module's global variables and the memory they point to; \<open>kenv\<close> is what the kernel
  supplies to one call: the allocator, the caller's identity and whether the module can
  still be entered.
\<close>

section \<open>State\<close>

record TAG_Service =
  sv_key :: c_int
  sv_tag :: c_uint
  uid_Creator :: c_int
  sv_perm :: c_int
  levels :: rcu_list

type_synonym sv_store = "addr \<Rightarrow> TAG_Service option"

record kstate =
  mem :: kmem
  sv_heap :: sv_store
  tagServices :: "addr option list option"
  serviceCount :: c_uint
  MAX_SERVICE_NUM :: c_int

text \<open>\<open>fresh_service\<close> is what the memory of a service holds when \<^verbatim>\<open>kmalloc\<close> answers it.\<close>

record kenv =
  kmalloc_element :: el_alloc
  kmalloc_service :: "sv_store \<Rightarrow> addr option"
  fresh_service :: TAG_Service
  module_live :: bool
  vzalloc_ok :: bool
  cur_uid :: c_uint
  cur_tgid :: c_int

definition klogs :: "kcall \<Rightarrow> kstate \<Rightarrow> kstate" where
  "klogs c s = s\<lparr>mem := logk c (mem s)\<rparr>"

definition set_levels :: "addr \<Rightarrow> TAG_Service \<Rightarrow> rcu_list \<Rightarrow> kstate \<Rightarrow> kstate" where
  "set_levels a sv l s = s\<lparr>sv_heap := (sv_heap s)(a \<mapsto> sv\<lparr>levels := l\<rparr>)\<rparr>"

section \<open>TAG_Messagin_help.c\<close>

definition permAmmisible :: "c_int \<Rightarrow> c_int" where
  "permAmmisible p = (if p = OPEN_ROOM \<or> p = PRIVATE_ROOM then 0 else - 1)"

definition keyAmmissible :: "c_int \<Rightarrow> c_int" where
  "keyAmmissible k = (if k = 0 then - 1 else 0)"

definition validServiceOperation :: "kenv \<Rightarrow> TAG_Service \<Rightarrow> bool" where
  "validServiceOperation env sv =
     (if cur_uid env = 0 then True
      else if sv_perm sv = OPEN_ROOM then True
      else if sv_perm sv = PRIVATE_ROOM then uid_Creator sv = cur_tgid env
      else False)"

text \<open>The loop of both searches, over the array of pointers.\<close>

fun scan_services :: "(TAG_Service \<Rightarrow> bool) \<Rightarrow> sv_store \<Rightarrow> addr option list \<Rightarrow> addr option res" where
  "scan_services P hp [] = Inr None"
| "scan_services P hp (None # ps) = scan_services P hp ps"
| "scan_services P hp (Some a # ps) = (case hp a of
     None \<Rightarrow> Inl Fault
   | Some sv \<Rightarrow> if P sv then Inr (Some a) else scan_services P hp ps)"

definition searchTAG_Service_withKey :: "kstate \<Rightarrow> c_int \<Rightarrow> addr option res" where
  "searchTAG_Service_withKey s k = (case tagServices s of
     None \<Rightarrow> Inl Fault
   | Some ps \<Rightarrow> scan_services (\<lambda>sv. sv_key sv = k) (sv_heap s) ps)"

definition searchTAG_Service_withTag :: "kstate \<Rightarrow> c_int \<Rightarrow> addr option res" where
  "searchTAG_Service_withTag s t = (case tagServices s of
     None \<Rightarrow> Inl Fault
   | Some ps \<Rightarrow> scan_services (\<lambda>sv. sv_tag sv = t) (sv_heap s) ps)"

text \<open>The first free entry of the array gets a service with an empty message at every level.
  The result of \<^verbatim>\<open>kmalloc\<close> is used unchecked, so no memory is an access through a null
  pointer.\<close>

definition new_TAG_Service ::
  "kenv \<Rightarrow> kstate \<Rightarrow> c_int \<Rightarrow> c_int \<Rightarrow> c_int \<Rightarrow> (addr option \<times> kstate) res" where
  "new_TAG_Service env s k uid p = (case tagServices s of
     None \<Rightarrow> Inl Fault
   | Some ps \<Rightarrow> (case first_index (\<lambda>x. x = None) ps of
       None \<Rightarrow> Inr (None, s)
     | Some i \<Rightarrow> (case kmalloc_service env (sv_heap s) of
         None \<Rightarrow> Inl Fault
       | Some a \<Rightarrow>
           rbind (list_fill (rcu_list_insert (kmalloc_element env) (ListLock a)) [0..<levelDeep]
                    rcu_list_init (mem s))
             (\<lambda>(l, m). Inr (Some a,
                s\<lparr>mem := m,
                  sv_heap := (sv_heap s)(a \<mapsto> (fresh_service env)
                    \<lparr>sv_key := k, sv_tag := of_nat i, uid_Creator := uid, sv_perm := p, levels := l\<rparr>),
                  tagServices := Some (ps[i := Some a])\<rparr>)))))"

text \<open>\<^verbatim>\<open>getTAG_Service\<close>, which nothing calls: the first service with key 0 is relabelled.\<close>

fun take_over :: "nat \<Rightarrow> addr option list \<Rightarrow> kstate \<Rightarrow> c_int \<Rightarrow> c_int \<Rightarrow> c_int \<Rightarrow> (addr option \<times> kstate) res" where
  "take_over i [] s k uid p = Inr (None, s)"
| "take_over i (None # ps) s k uid p = Inl Fault"
| "take_over i (Some a # ps) s k uid p = (case sv_heap s a of
     None \<Rightarrow> Inl Fault
   | Some sv \<Rightarrow>
       if sv_key sv = 0 then
         Inr (Some a, s\<lparr>sv_heap := (sv_heap s)(a \<mapsto>
           sv\<lparr>sv_key := k, sv_tag := of_nat i, uid_Creator := uid, sv_perm := p\<rparr>)\<rparr>)
       else take_over (Suc i) ps s k uid p)"

definition getTAG_Service ::
  "kstate \<Rightarrow> c_int \<Rightarrow> c_int \<Rightarrow> c_int \<Rightarrow> (addr option \<times> kstate) res" where
  "getTAG_Service s k uid p = (case tagServices s of
     None \<Rightarrow> Inl Fault
   | Some ps \<Rightarrow> take_over 0 ps s k uid p)"

section \<open>initService and unmountRCU\<close>

text \<open>\<open>kmalloc_array\<close>: the array \<^verbatim>\<open>kmalloc\<close> answers, with the pointers its memory holds.\<close>

definition initService :: "addr option list option \<Rightarrow> kstate \<Rightarrow> c_int \<times> kstate" where
  "initService kmalloc_array s =
     (0, s\<lparr>tagServices := kmalloc_array, serviceCount := 0,
           MAX_SERVICE_NUM := of_nat min_sys_TAG_Services\<rparr>)"

definition unmountRCU :: "kstate \<Rightarrow> kstate" where
  "unmountRCU s = s\<lparr>tagServices := None\<rparr>"

end
