(* ===== verification/ServiceTable.thy ===== *)
theory ServiceTable
  imports Services
begin

text \<open>
  The invariant of the service table and its helpers' contract.  \<open>svc_at s i\<close> is the
  service in entry \<open>i\<close> of the array; \<open>kinv\<close> says that entry \<open>i\<close> holds a service with tag
  \<open>i\<close>, that services share no list nodes, that no two services have the same public key and
  that \<^verbatim>\<open>serviceCount\<close> counts the used entries.
\<close>

section \<open>The table\<close>

definition slots :: "kstate \<Rightarrow> addr option list" where
  "slots s = (case tagServices s of None \<Rightarrow> [] | Some ps \<Rightarrow> ps)"

definition slot :: "kstate \<Rightarrow> nat \<Rightarrow> addr option" where
  "slot s i = (if i < length (slots s) then slots s ! i else None)"

definition svc_at :: "kstate \<Rightarrow> nat \<Rightarrow> TAG_Service option" where
  "svc_at s i = (case slot s i of None \<Rightarrow> None | Some a \<Rightarrow> sv_heap s a)"

definition msgs :: "kstate \<Rightarrow> TAG_Service \<Rightarrow> c_int \<Rightarrow> (byte list \<times> size_t) option" where
  "msgs s sv = rcu_view (mem s) (levels sv)"

definition svc_wf :: "kmem \<Rightarrow> nat \<Rightarrow> TAG_Service \<Rightarrow> bool" where
  "svc_wf m i sv \<longleftrightarrow>
     sv_tag sv = of_nat i \<and> sv_key sv \<noteq> 0 \<and> (sv_perm sv = OPEN_ROOM \<or> sv_perm sv = PRIVATE_ROOM) \<and>
     rcu_ok m (levels sv) \<and>
     (\<forall>k. rcu_view m (levels sv) k \<noteq> None \<longrightarrow> level_ix k \<noteq> None) \<and>
     (\<forall>k msg sz. rcu_view m (levels sv) k = Some (msg, sz) \<longrightarrow>
        unat sz \<le> length msg \<and> sz \<le> MAX_MESSAGE_SIZE)"

definition used :: "kstate \<Rightarrow> nat" where
  "used s = length (filter (\<lambda>x. x \<noteq> None) (slots s))"

definition kinv :: "kstate \<Rightarrow> bool" where
  "kinv s \<longleftrightarrow>
     tagServices s \<noteq> None \<and> length (slots s) = min_sys_TAG_Services \<and>
     (\<forall>i a. slot s i = Some a \<longrightarrow> sv_heap s a \<noteq> None) \<and>
     (\<forall>i sv. svc_at s i = Some sv \<longrightarrow> svc_wf (mem s) i sv) \<and>
     (\<forall>i j x y. svc_at s i = Some x \<longrightarrow> svc_at s j = Some y \<longrightarrow> i \<noteq> j \<longrightarrow>
        rcu_foot (mem s) (levels x) \<inter> rcu_foot (mem s) (levels y) = {}) \<and>
     (\<forall>i j x y. svc_at s i = Some x \<longrightarrow> svc_at s j = Some y \<longrightarrow> i \<noteq> j \<longrightarrow>
        sv_key x = sv_key y \<longrightarrow> sv_key x = TAG_IPC_PRIVATE) \<and>
     serviceCount s = of_nat (used s) \<and> MAX_SERVICE_NUM s = of_nat min_sys_TAG_Services"

section \<open>Recording a call changes nothing else\<close>

lemma rcu_logk [simp]:
  "rcu_view (logk c m) = rcu_view m" "rcu_ok (logk c m) = rcu_ok m" "rcu_foot (logk c m) = rcu_foot m"
  unfolding rcu_view_def rcu_ok_def rcu_foot_def logk_simps by (rule refl)+

lemma klogs_simps [simp]:
  "tagServices (klogs c s) = tagServices s" "sv_heap (klogs c s) = sv_heap s"
  "serviceCount (klogs c s) = serviceCount s" "MAX_SERVICE_NUM (klogs c s) = MAX_SERVICE_NUM s"
  "mem (klogs c s) = logk c (mem s)"
  by (simp_all add: klogs_def)

lemma klogs_table [simp]:
  "slots (klogs c s) = slots s" "slot (klogs c s) = slot s" "svc_at (klogs c s) = svc_at s"
  "used (klogs c s) = used s" "msgs (klogs c s) = msgs s"
  unfolding slots_def slot_def svc_at_def used_def msgs_def klogs_simps rcu_logk by (rule refl)+

lemma kinv_klogs [simp]: "kinv (klogs c s) = kinv s"
  by (simp add: kinv_def svc_wf_def)

text \<open>A run of recorded calls.\<close>

definition klog_all :: "klog \<Rightarrow> kstate \<Rightarrow> kstate" where
  "klog_all cs s = s\<lparr>mem := (mem s)\<lparr>klog := klog (mem s) @ cs\<rparr>\<rparr>"

lemma klog_all_Nil [simp]: "klog_all [] s = s"
  by (simp add: klog_all_def)

lemma klog_all_append [simp]: "klog_all ds (klog_all cs s) = klog_all (cs @ ds) s"
  by (simp add: klog_all_def)

lemma klogs_klog_all: "klogs c s = klog_all [c] s"
  by (simp add: klog_all_def klogs_def logk_def)

lemma klog_all_fold: "klog_all cs s = fold klogs cs s"
proof (induction cs rule: rev_induct)
  case (snoc c cs)
  then show ?case by (simp add: snoc [symmetric]) (simp add: klog_all_def klogs_def logk_def)
qed simp

lemma fold_klogs_same:
  "kinv (fold klogs cs s) = kinv s" "svc_at (fold klogs cs s) = svc_at s"
  "slot (fold klogs cs s) = slot s" "slots (fold klogs cs s) = slots s"
  by (induction cs arbitrary: s) simp_all

lemma klog_all_same [simp]:
  "kinv (klog_all cs s) = kinv s" "svc_at (klog_all cs s) = svc_at s"
  "slot (klog_all cs s) = slot s" "slots (klog_all cs s) = slots s"
  unfolding klog_all_fold fold_klogs_same by (rule refl)+

lemma klog_all_simps [simp]:
  "tagServices (klog_all cs s) = tagServices s" "sv_heap (klog_all cs s) = sv_heap s"
  "serviceCount (klog_all cs s) = serviceCount s" "MAX_SERVICE_NUM (klog_all cs s) = MAX_SERVICE_NUM s"
  "el_heap (mem (klog_all cs s)) = el_heap (mem s)" "klog (mem (klog_all cs s)) = klog (mem s) @ cs"
  by (simp_all add: klog_all_def)

section \<open>The searches\<close>

definition slot_holds :: "(TAG_Service \<Rightarrow> bool) \<Rightarrow> sv_store \<Rightarrow> addr option \<Rightarrow> bool" where
  "slot_holds P hp x \<longleftrightarrow> (\<exists>a. x = Some a \<and> P (the (hp a)))"

lemma slot_holds_simps [simp]:
  "slot_holds P hp None = False" "slot_holds P hp (Some a) = P (the (hp a))"
  by (simp_all add: slot_holds_def)

definition nth_opt :: "'a option list \<Rightarrow> nat option \<Rightarrow> 'a option" where
  "nth_opt xs i = (case i of None \<Rightarrow> None | Some j \<Rightarrow> xs ! j)"

lemma nth_opt_simps [simp]:
  "nth_opt xs None = None" "nth_opt xs (Some j) = xs ! j"
  "nth_opt (x # xs) (map_option Suc i) = nth_opt xs i"
  by (simp_all add: nth_opt_def split: option.split)

lemma scan_services_eq:
  "(\<And>a. Some a \<in> set ps \<Longrightarrow> hp a \<noteq> None) \<Longrightarrow>
   scan_services P hp ps = Inr (nth_opt ps (first_index (slot_holds P hp) ps))"
proof (induction ps)
  case Nil
  then show ?case by simp
next
  case (Cons p ps)
  show ?case
  proof (cases p)
    case None
    with Cons show ?thesis by simp
  next
    case (Some a)
    with Cons.prems obtain sv where "hp a = Some sv" by fastforce
    with Cons Some show ?thesis by simp
  qed
qed

lemma kinv_slots:
  assumes "kinv s"
  shows "tagServices s = Some (slots s)" "length (slots s) = min_sys_TAG_Services"
    and "Some a \<in> set (slots s) \<Longrightarrow> sv_heap s a \<noteq> None"
proof -
  show "tagServices s = Some (slots s)" "length (slots s) = min_sys_TAG_Services"
    using assms by (auto simp: kinv_def slots_def)
  assume "Some a \<in> set (slots s)"
  then obtain i where "i < length (slots s)" "slots s ! i = Some a" by (auto simp: in_set_conv_nth)
  then have "slot s i = Some a" by (simp add: slot_def)
  with assms show "sv_heap s a \<noteq> None" unfolding kinv_def by blast
qed

lemma kinv_wf: "kinv s \<Longrightarrow> svc_at s i = Some sv \<Longrightarrow> svc_wf (mem s) i sv"
  by (simp add: kinv_def)

lemma kinv_slot: "kinv s \<Longrightarrow> slot s i = Some a \<Longrightarrow> \<exists>sv. sv_heap s a = Some sv \<and> svc_at s i = Some sv"
  by (auto simp: kinv_def svc_at_def)

lemma svc_at_slot: "svc_at s i = Some sv \<Longrightarrow> \<exists>a. slot s i = Some a \<and> sv_heap s a = Some sv"
  by (auto simp: svc_at_def split: option.splits)

lemma slot_bound: "kinv s \<Longrightarrow> slot s i = Some a \<Longrightarrow> i < min_sys_TAG_Services"
  by (auto simp: slot_def kinv_slots(2) split: if_splits)

lemma of_nat_slot_eq [simp]:
  "i < min_sys_TAG_Services \<Longrightarrow> j < min_sys_TAG_Services \<Longrightarrow> (of_nat i :: c_uint) = of_nat j \<longleftrightarrow> i = j"
  by (simp add: min_sys_TAG_Services_def)

text \<open>The services in two entries are different objects.\<close>

lemma slot_inj:
  assumes "kinv s" "slot s i = Some a" "slot s j = Some a"
  shows "i = j"
proof -
  obtain sv where sv: "svc_at s i = Some sv" "svc_at s j = Some sv"
    using kinv_slot [OF assms(1,2)] kinv_slot [OF assms(1,3)] by auto
  have "(of_nat i :: c_uint) = of_nat j"
    using kinv_wf [OF assms(1) sv(1)] kinv_wf [OF assms(1) sv(2)] by (simp add: svc_wf_def)
  then show ?thesis using slot_bound [OF assms(1,2)] slot_bound [OF assms(1,3)] by simp
qed

lemma first_index_eqI:
  assumes "i < length xs" "P (xs ! i)" "\<And>j. j < length xs \<Longrightarrow> P (xs ! j) \<Longrightarrow> j = i"
  shows "first_index P xs = Some i"
proof (cases "first_index P xs")
  case None
  with assms(1,2) show ?thesis using nth_mem [of i xs] unfolding first_index_None by blast
next
  case (Some j)
  from first_index_Some [OF Some] have "j = i" by (intro assms(3)) simp_all
  with Some show ?thesis by simp
qed

text \<open>A search by tag is a look-up in the array.\<close>

lemma search_tag:
  assumes inv: "kinv s"
  shows "searchTAG_Service_withTag s t = Inr (slot s (unat t))"
proof -
  let ?Q = "slot_holds (\<lambda>sv. sv_tag sv = t) (sv_heap s)"
  have Q: "?Q (slots s ! i) \<longleftrightarrow> (slot s i \<noteq> None \<and> of_nat i = t)" if "i < length (slots s)" for i
  proof (cases "slot s i")
    case None
    with that show ?thesis by (simp add: slot_def)
  next
    case (Some a)
    with kinv_slot [OF inv Some] kinv_wf [OF inv] that show ?thesis
      by (auto simp: slot_def svc_wf_def)
  qed
  have eq: "searchTAG_Service_withTag s t = Inr (nth_opt (slots s) (first_index ?Q (slots s)))"
    using kinv_slots [OF inv] by (simp add: searchTAG_Service_withTag_def scan_services_eq)
  show ?thesis
  proof (cases "slot s (unat t)")
    case None
    have "\<not> ?Q (slots s ! i)" if "i < length (slots s)" for i
    proof
      assume "?Q (slots s ! i)"
      with Q [OF that] have i: "slot s i \<noteq> None" "of_nat i = t" by auto
      then have "unat t = i"
        using that kinv_slots(2) [OF inv] by (auto simp: unat_of_nat min_sys_TAG_Services_def)
      with None i show False by simp
    qed
    then have "first_index ?Q (slots s) = None" by (auto simp: first_index_None in_set_conv_nth)
    with eq None show ?thesis by simp
  next
    case (Some a)
    then have lt: "unat t < length (slots s)" by (auto simp: slot_def split: if_splits)
    have "first_index ?Q (slots s) = Some (unat t)"
    proof (rule first_index_eqI [OF lt])
      show "?Q (slots s ! unat t)" using Q [OF lt] Some by simp
      fix j assume "j < length (slots s)" "?Q (slots s ! j)"
      then show "j = unat t"
        using Q [of j] kinv_slots(2) [OF inv] by (auto simp: unat_of_nat min_sys_TAG_Services_def)
    qed
    with eq Some lt show ?thesis by (simp add: slot_def)
  qed
qed

text \<open>A search by key finds the first entry whose service has the key.\<close>

lemma search_key:
  assumes inv: "kinv s"
  obtains (found) i sv where "searchTAG_Service_withKey s k = Inr (slot s i)" "svc_at s i = Some sv"
      "sv_key sv = k" "\<And>j x. svc_at s j = Some x \<Longrightarrow> j < i \<Longrightarrow> sv_key x \<noteq> k"
  | (absent) "searchTAG_Service_withKey s k = Inr None" "\<And>j x. svc_at s j = Some x \<Longrightarrow> sv_key x \<noteq> k"
proof -
  let ?Q = "slot_holds (\<lambda>sv. sv_key sv = k) (sv_heap s)"
  have Q: "?Q (slots s ! i) \<longleftrightarrow> (\<exists>x. svc_at s i = Some x \<and> sv_key x = k)" if "i < length (slots s)" for i
    using that kinv_slot [OF inv, of i] by (auto simp: slot_def svc_at_def split: option.splits)
  have out: "svc_at s j = Some x \<Longrightarrow> j < length (slots s)" for j x
    by (auto simp: svc_at_def slot_def split: option.splits if_splits)
  have eq: "searchTAG_Service_withKey s k = Inr (nth_opt (slots s) (first_index ?Q (slots s)))"
    using kinv_slots [OF inv] by (simp add: searchTAG_Service_withKey_def scan_services_eq)
  show thesis
  proof (cases "first_index ?Q (slots s)")
    case None
    then have "\<not> ?Q (slots s ! j)" if "j < length (slots s)" for j
      using that nth_mem [OF that] unfolding first_index_None by blast
    with None eq Q out show thesis by (intro absent) auto
  next
    case (Some i)
    from first_index_Some [OF Some]
    have i: "i < length (slots s)" "?Q (slots s ! i)" "\<forall>j < i. \<not> ?Q (slots s ! j)" by auto
    then obtain sv where sv: "svc_at s i = Some sv" "sv_key sv = k" using Q by auto
    have "searchTAG_Service_withKey s k = Inr (slot s i)" using eq Some i(1) by (simp add: slot_def)
    then show thesis
    proof (rule found [OF _ sv])
      fix j x assume "svc_at s j = Some x" "j < i"
      then show "sv_key x \<noteq> k" using i Q [of j] by auto
    qed
  qed
qed

section \<open>The three changes of the table\<close>

lemma kinv_rcu_ok: "kinv s \<Longrightarrow> svc_at s i = Some sv \<Longrightarrow> rcu_ok (mem s) (levels sv)"
  using kinv_wf by (auto simp: svc_wf_def)

lemma kinv_disjoint:
  "kinv s \<Longrightarrow> svc_at s i = Some x \<Longrightarrow> svc_at s j = Some y \<Longrightarrow> i \<noteq> j \<Longrightarrow>
   rcu_foot (mem s) (levels x) \<inter> rcu_foot (mem s) (levels y) = {}"
  unfolding kinv_def by blast

lemma kinv_keys:
  "kinv s \<Longrightarrow> svc_at s i = Some x \<Longrightarrow> svc_at s j = Some y \<Longrightarrow> i \<noteq> j \<Longrightarrow>
   sv_key x = sv_key y \<Longrightarrow> sv_key x = TAG_IPC_PRIVATE"
  unfolding kinv_def by blast

lemma kinv_count:
  "kinv s \<Longrightarrow> serviceCount s = of_nat (used s)"
  "kinv s \<Longrightarrow> MAX_SERVICE_NUM s = of_nat min_sys_TAG_Services"
  unfolding kinv_def by blast+

lemma kinvI:
  assumes "tagServices s \<noteq> None" "length (slots s) = min_sys_TAG_Services"
    and "\<And>i a. slot s i = Some a \<Longrightarrow> sv_heap s a \<noteq> None"
    and "\<And>i sv. svc_at s i = Some sv \<Longrightarrow> svc_wf (mem s) i sv"
    and "\<And>i j x y. svc_at s i = Some x \<Longrightarrow> svc_at s j = Some y \<Longrightarrow> i < j \<Longrightarrow>
      rcu_foot (mem s) (levels x) \<inter> rcu_foot (mem s) (levels y) = {}"
    and "\<And>i j x y. svc_at s i = Some x \<Longrightarrow> svc_at s j = Some y \<Longrightarrow> i < j \<Longrightarrow>
      sv_key x = sv_key y \<Longrightarrow> sv_key x = TAG_IPC_PRIVATE"
    and "serviceCount s = of_nat (used s)" "MAX_SERVICE_NUM s = of_nat min_sys_TAG_Services"
  shows "kinv s"
  unfolding kinv_def
proof (intro conjI allI impI)
  fix i j x y
  assume "svc_at s i = Some x" "svc_at s j = Some y" "i \<noteq> j"
  then show "rcu_foot (mem s) (levels x) \<inter> rcu_foot (mem s) (levels y) = {}"
    using assms(5) [of i x j y] assms(5) [of j y i x] by (cases "i < j") auto
next
  fix i j x y
  assume "svc_at s i = Some x" "svc_at s j = Some y" "i \<noteq> j" "sv_key x = sv_key y"
  then show "sv_key x = TAG_IPC_PRIVATE"
    using assms(6) [of i x j y] assms(6) [of j y i x] by (cases "i < j") auto
qed (use assms in auto)

text \<open>What \<open>others_kept\<close> gives for a service other than the one worked on.\<close>

lemma others_kept_svc:
  assumes "others_kept rcu_ok rcu_view rcu_foot m l m' l'" "svc_wf m i x"
    and "rcu_foot m l \<inter> rcu_foot m (levels x) = {}"
  shows "svc_wf m' i x" "rcu_view m' (levels x) = rcu_view m (levels x)"
    "rcu_foot m' (levels x) = rcu_foot m (levels x)"
    "rcu_foot m' l' \<inter> rcu_foot m' (levels x) = {}"
proof -
  have "rcu_ok m (levels x)" using assms(2) by (simp add: svc_wf_def)
  with assms(1,3) have *: "rcu_ok m' (levels x)" "rcu_view m' (levels x) = rcu_view m (levels x)"
    "rcu_foot m' (levels x) = rcu_foot m (levels x)"
    "rcu_foot m' l' \<inter> rcu_foot m' (levels x) = {}"
    unfolding others_kept_def by blast+
  then show "rcu_view m' (levels x) = rcu_view m (levels x)"
    "rcu_foot m' (levels x) = rcu_foot m (levels x)"
    "rcu_foot m' l' \<inter> rcu_foot m' (levels x) = {}" by blast+
  show "svc_wf m' i x" using assms(2) * by (simp add: svc_wf_def)
qed

text \<open>A change inside one service.\<close>

lemma update_levels:
  assumes inv: "kinv s" and sl: "slot s i = Some a" and sv: "sv_heap s a = Some sv"
    and kept: "others_kept rcu_ok rcu_view rcu_foot (mem s) (levels sv) m' l'"
    and wf: "svc_wf m' i (sv\<lparr>levels := l'\<rparr>)"
  shows "kinv (set_levels a sv l' (s\<lparr>mem := m'\<rparr>))"
    and "svc_at (set_levels a sv l' (s\<lparr>mem := m'\<rparr>)) = (svc_at s)(i \<mapsto> sv\<lparr>levels := l'\<rparr>)"
    and "slot (set_levels a sv l' (s\<lparr>mem := m'\<rparr>)) = slot s"
proof -
  let ?s = "set_levels a sv l' (s\<lparr>mem := m'\<rparr>)"
  let ?sv = "sv\<lparr>levels := l'\<rparr>"
  have tbl: "slots ?s = slots s" "used ?s = used s" "tagServices ?s = tagServices s"
      "sv_heap ?s = (sv_heap s)(a \<mapsto> ?sv)" "mem ?s = m'" "serviceCount ?s = serviceCount s"
      "MAX_SERVICE_NUM ?s = MAX_SERVICE_NUM s"
    by (simp_all add: slots_def used_def set_levels_def)
  show slot: "slot ?s = slot s" by (simp add: slot_def tbl fun_eq_iff)
  have other: "j = i" if "slot s j = Some a" for j using slot_inj [OF inv that sl] .
  show at: "svc_at ?s = (svc_at s)(i \<mapsto> ?sv)"
  proof
    fix j show "svc_at ?s j = ((svc_at s)(i \<mapsto> ?sv)) j"
      using other [of j] sl by (cases "slot s j") (auto simp: svc_at_def slot tbl)
  qed
  have sv_at: "svc_at s i = Some sv" using sl sv by (simp add: svc_at_def)
  have old: "svc_wf m' j x" "rcu_foot m' (levels x) = rcu_foot (mem s) (levels x)"
      "rcu_foot m' l' \<inter> rcu_foot m' (levels x) = {}" if "svc_at s j = Some x" "j \<noteq> i" for j x
    using others_kept_svc [OF kept kinv_wf [OF inv that(1)]] kinv_disjoint [OF inv sv_at that(1)] that(2)
    by auto
  show "kinv ?s"
  proof (rule kinvI)
    show "sv_heap ?s b \<noteq> None" if "slot ?s j = Some b" for j b
      using that inv unfolding kinv_def slot tbl by auto
    show "svc_wf (mem ?s) j x" if "svc_at ?s j = Some x" for j x
      using that old wf by (auto simp: at tbl split: if_splits)
    show "rcu_foot (mem ?s) (levels x) \<inter> rcu_foot (mem ?s) (levels y) = {}"
      if "svc_at ?s j = Some x" "svc_at ?s k = Some y" "j < k" for j k x y
    proof (cases "j = i")
      case True
      with that old(3) [of k y] show ?thesis by (auto simp: at tbl)
    next
      case False
      show ?thesis
      proof (cases "k = i")
        case True
        with that False old(3) [of j x] show ?thesis by (auto simp: at tbl)
      next
        case neq: False
        with False that have xy: "svc_at s j = Some x" "svc_at s k = Some y" "j \<noteq> k"
          by (auto simp: at)
        with old(2) [of j x] old(2) [of k y] False neq kinv_disjoint [OF inv xy]
        show ?thesis by (simp add: tbl)
      qed
    qed
    show "sv_key x = TAG_IPC_PRIVATE"
      if "svc_at ?s j = Some x" "svc_at ?s k = Some y" "j < k" "sv_key x = sv_key y" for j k x y
      using that kinv_keys [OF inv, of j x k y] kinv_keys [OF inv sv_at, of k y]
        kinv_keys [OF inv _ sv_at, of j x]
      by (auto simp: at split: if_splits)
  qed (use inv kinv_slots [OF inv] kinv_count [OF inv] tbl in auto)
qed

text \<open>Memory in which a list built from nothing replaces no other.\<close>

lemma init_kept:
  assumes "others_kept rcu_ok rcu_view rcu_foot m rcu_list_init m' l'" "svc_wf m i x"
  shows "svc_wf m' i x" "rcu_view m' (levels x) = rcu_view m (levels x)"
    "rcu_foot m' (levels x) = rcu_foot m (levels x)"
    "rcu_foot m' l' \<inter> rcu_foot m' (levels x) = {}"
  using others_kept_svc [OF assms] by (simp_all add: rcu.init_foot)

lemma used_update:
  assumes "tagServices s = Some ps" "i < length ps" "tagServices s' = Some (ps[i := x])"
  shows "used s' + (if ps ! i \<noteq> None then 1 else 0) = used s + (if x \<noteq> None then 1 else 0)"
  using length_filter_update [OF assms(2), of "\<lambda>x. x \<noteq> None" x] assms(1,3)
  by (simp add: used_def slots_def)

text \<open>A new service in a free entry.\<close>

lemma add_service:
  assumes inv: "kinv s" and free: "slot s i = None" "i < min_sys_TAG_Services"
    and fresh: "sv_heap s a = None"
    and kept: "others_kept rcu_ok rcu_view rcu_foot (mem s) rcu_list_init m' (levels new)"
    and wf: "svc_wf m' i new"
    and key: "sv_key new = TAG_IPC_PRIVATE \<or> (\<forall>j x. svc_at s j = Some x \<longrightarrow> sv_key x \<noteq> sv_key new)"
    and s': "tagServices s' = Some ((slots s)[i := Some a])" "sv_heap s' = (sv_heap s)(a \<mapsto> new)"
      "mem s' = m'" "serviceCount s' = serviceCount s + 1" "MAX_SERVICE_NUM s' = MAX_SERVICE_NUM s"
  shows "kinv s'" and "svc_at s' = (svc_at s)(i \<mapsto> new)" and "used s' = Suc (used s)"
    and "slot s' = (slot s)(i \<mapsto> a)"
proof -
  have len: "length (slots s) = min_sys_TAG_Services" by (rule kinv_slots [OF inv])
  have slots': "slots s' = (slots s)[i := Some a]" by (simp add: slots_def s')
  show slot: "slot s' = (slot s)(i \<mapsto> a)"
    using free(2) len by (auto simp: slot_def slots' fun_eq_iff nth_list_update)
  have noa: "slot s j \<noteq> Some a" for j
    using inv fresh unfolding kinv_def by blast
  show at: "svc_at s' = (svc_at s)(i \<mapsto> new)"
  proof
    fix j show "svc_at s' j = ((svc_at s)(i \<mapsto> new)) j"
      using noa [of j] by (cases "slot s j") (auto simp: svc_at_def slot s'(2))
  qed
  have "slots s ! i = None" using free len by (simp add: slot_def)
  then show used: "used s' = Suc (used s)"
    using used_update [of s "slots s" i s' "Some a"] kinv_slots(1) [OF inv] free(2) len s'(1) by simp
  have none: "svc_at s i = None" using free by (simp add: svc_at_def)
  have old: "svc_wf m' j x" "rcu_foot m' (levels x) = rcu_foot (mem s) (levels x)"
      "rcu_foot m' (levels new) \<inter> rcu_foot m' (levels x) = {}" if "svc_at s j = Some x" for j x
    using init_kept [OF kept kinv_wf [OF inv that]] by auto
  show "kinv s'"
  proof (rule kinvI)
    show "sv_heap s' b \<noteq> None" if "slot s' j = Some b" for j b
      using that inv unfolding kinv_def by (auto simp: slot s'(2) split: if_splits)
    show "svc_wf (mem s') j x" if "svc_at s' j = Some x" for j x
      using that old(1) wf by (auto simp: at s'(3) split: if_splits)
    show "rcu_foot (mem s') (levels x) \<inter> rcu_foot (mem s') (levels y) = {}"
      if "svc_at s' j = Some x" "svc_at s' k = Some y" "j < k" for j k x y
      using that old(2) [of j x] old(2) [of k y] old(3) [of j x] old(3) [of k y]
        kinv_disjoint [OF inv, of j x k y]
      by (auto simp: at s'(3) Int_commute split: if_splits)
    show "sv_key x = TAG_IPC_PRIVATE"
      if "svc_at s' j = Some x" "svc_at s' k = Some y" "j < k" "sv_key x = sv_key y" for j k x y
      using that kinv_keys [OF inv, of j x k y] key by (auto simp: at split: if_splits)
  qed (use s' slots' len kinv_count [OF inv] used in simp_all)
qed

text \<open>A service taken out of its entry.\<close>

lemma remove_service:
  assumes inv: "kinv s" and sl: "slot s i = Some a"
    and fresh: "sv_heap s b = None"
    and kept: "others_kept rcu_ok rcu_view rcu_foot (mem s) rcu_list_init m' l'"
    and s': "tagServices s' = Some ((slots s)[i := None])"
      "sv_heap s' = (sv_heap s)(b \<mapsto> e, a := None)"
      "mem s' = m'" "serviceCount s' = serviceCount s - 1" "MAX_SERVICE_NUM s' = MAX_SERVICE_NUM s"
  shows "kinv s'" and "svc_at s' = (svc_at s)(i := None)" and "Suc (used s') = used s"
    and "slot s' = (slot s)(i := None)"
proof -
  have len: "length (slots s) = min_sys_TAG_Services" by (rule kinv_slots [OF inv])
  have i: "i < length (slots s)" "slots s ! i = Some a" using sl by (auto simp: slot_def split: if_splits)
  have slots': "slots s' = (slots s)[i := None]" by (simp add: slots_def s')
  show slot: "slot s' = (slot s)(i := None)"
    using i by (auto simp: slot_def slots' fun_eq_iff nth_list_update)
  have nob: "slot s j \<noteq> Some b" for j using inv fresh unfolding kinv_def by blast
  have noa: "slot s j \<noteq> Some a" if "j \<noteq> i" for j using slot_inj [OF inv _ sl, of j] that by blast
  show at: "svc_at s' = (svc_at s)(i := None)"
  proof
    fix j show "svc_at s' j = ((svc_at s)(i := None)) j"
      using noa [of j] nob [of j] by (cases "slot s j") (auto simp: svc_at_def slot s'(2))
  qed
  show used: "Suc (used s') = used s"
    using used_update [of s "slots s" i s' None] kinv_slots(1) [OF inv] i s'(1) by simp
  have old: "svc_wf m' j x" "rcu_foot m' (levels x) = rcu_foot (mem s) (levels x)"
    if "svc_at s j = Some x" for j x
    using init_kept [OF kept kinv_wf [OF inv that]] by auto
  show "kinv s'"
  proof (rule kinvI)
    show "sv_heap s' c \<noteq> None" if "slot s' j = Some c" for j c
      using that inv noa [of j] unfolding kinv_def
      by (auto simp: slot s'(2) split: if_splits)
    show "svc_wf (mem s') j x" if "svc_at s' j = Some x" for j x
      using that old(1) by (auto simp: at s'(3) split: if_splits)
    show "rcu_foot (mem s') (levels x) \<inter> rcu_foot (mem s') (levels y) = {}"
      if "svc_at s' j = Some x" "svc_at s' k = Some y" "j < k" for j k x y
      using that old(2) [of j x] old(2) [of k y] kinv_disjoint [OF inv, of j x k y]
      by (auto simp: at s'(3) split: if_splits)
    show "sv_key x = TAG_IPC_PRIVATE"
      if "svc_at s' j = Some x" "svc_at s' k = Some y" "j < k" "sv_key x = sv_key y" for j k x y
      using that kinv_keys [OF inv, of j x k y] by (auto simp: at split: if_splits)
    have "serviceCount s' = of_nat (Suc (used s')) - 1"
      using s'(4) kinv_count(1) [OF inv] used by simp
    then show "serviceCount s' = of_nat (used s')" by simp
  qed (use s' slots' len kinv_count [OF inv] in simp_all)
qed

end
