(* ===== verification/CopyLoop.thy ===== *)
theory CopyLoop
  imports Prelude
begin

text \<open>
  The loop with which \<^verbatim>\<open>tag_receive\<close> and \<^verbatim>\<open>dev_read\<close> hand \<open>n\<close> bytes to user space:
  \<^verbatim>\<open>while (n - offset > 0) { not_send = copy_to_user(...); offset += (n - offset) - not_send; }\<close>.
  \<^verbatim>\<open>copy_to_user\<close> is a parameter: \<open>cto t k\<close> is what its call number \<open>t\<close> answers when asked to
  copy \<open>k\<close> bytes, the number of bytes it did not copy.  \<open>copy_law\<close> is its contract,
  \<open>copy_fair\<close> that the user memory does not stay inaccessible for ever.
\<close>

type_synonym copy_fn = "nat \<Rightarrow> nat \<Rightarrow> nat"

definition copy_law :: "copy_fn \<Rightarrow> bool" where
  "copy_law cto \<longleftrightarrow> (\<forall>t k. cto t k \<le> k)"

definition copy_fair :: "copy_fn \<Rightarrow> bool" where
  "copy_fair cto \<longleftrightarrow> (\<forall>t. \<exists>u \<ge> t. \<forall>k > 0. cto u k < k)"

text \<open>\<open>out\<close> are the bytes written to user memory so far.\<close>

partial_function (option) copy_loop ::
  "copy_fn \<Rightarrow> 'a list \<Rightarrow> nat \<Rightarrow> nat \<Rightarrow> nat \<Rightarrow> 'a list \<Rightarrow> 'a list option" where
  "copy_loop cto src n t offset out =
     (if n - offset > 0 then
        let not_send = cto t (n - offset);
            sent = (n - offset) - not_send
        in copy_loop cto src n (Suc t) (offset + sent) (out @ take sent (drop offset src))
      else Some out)"

text \<open>A single call that copies everything.\<close>

lemma copy_loop_once:
  "cto t n = 0 \<Longrightarrow> copy_loop cto src n t 0 [] = Some (take n src)"
  by (simp add: copy_loop.simps)

lemma copy_loop_done: "n \<le> offset \<Longrightarrow> copy_loop cto src n t offset out = Some out"
  by (simp add: copy_loop.simps)

lemma copy_loop_step:
  "offset < n \<Longrightarrow> copy_loop cto src n t offset out =
     (let sent = (n - offset) - cto t (n - offset)
      in copy_loop cto src n (Suc t) (offset + sent) (out @ take sent (drop offset src)))"
  by (subst copy_loop.simps) (simp add: Let_def)

text \<open>A call that copies nothing is repeated.\<close>

lemma copy_loop_stall:
  "offset < n \<Longrightarrow> cto t (n - offset) = n - offset \<Longrightarrow>
   copy_loop cto src n t offset out = copy_loop cto src n (Suc t) offset out"
  by (simp add: copy_loop_step)

lemma take_chunk:
  "take offset src @ take sent (drop offset src) = take (offset + sent) src"
  by (simp add: take_add)

text \<open>With a fair user memory the loop ends, whatever the sizes of the partial copies.\<close>

lemma copy_loop_ends:
  assumes law: "copy_law cto" and fair: "copy_fair cto"
  shows "offset \<le> n \<Longrightarrow> copy_loop cto src n t offset (take offset src) = Some (take n src)"
proof (induction "n - offset" arbitrary: offset t rule: less_induct)
  case less
  show ?case
  proof (cases "offset = n")
    case True
    then show ?thesis by (simp add: copy_loop_done)
  next
    case False
    with less.prems have lt: "offset < n" by simp
    from fair obtain u where u: "t \<le> u" "cto u (n - offset) < n - offset"
      unfolding copy_fair_def using lt by (meson zero_less_diff)
    from u show ?thesis
    proof (induction rule: inc_induct)
      case base
      let ?s = "(n - offset) - cto u (n - offset)"
      have s: "0 < ?s" "offset + ?s \<le> n" using base lt by auto
      have "copy_loop cto src n (Suc u) (offset + ?s) (take (offset + ?s) src) = Some (take n src)"
        by (rule less.hyps) (use s lt in auto)
      then show ?case using lt by (simp add: copy_loop_step Let_def take_chunk)
    next
      case (step m)
      let ?s = "(n - offset) - cto m (n - offset)"
      show ?case
      proof (cases "?s = 0")
        case True
        then have "cto m (n - offset) = n - offset"
          using law lt by (metis copy_law_def diff_is_0_eq le_antisym)
        with step lt show ?thesis by (simp add: copy_loop_stall)
      next
        case False
        then have s: "0 < ?s" "offset + ?s \<le> n" using lt by auto
        have "copy_loop cto src n (Suc m) (offset + ?s) (take (offset + ?s) src) = Some (take n src)"
          by (rule less.hyps) (use s lt in auto)
        then show ?thesis using lt by (simp add: copy_loop_step Let_def take_chunk)
      qed
    qed
  qed
qed

lemma copy_loop_all:
  "copy_law cto \<Longrightarrow> copy_fair cto \<Longrightarrow> copy_loop cto src n t 0 [] = Some (take n src)"
  using copy_loop_ends [of cto 0 n src t] by simp

text \<open>User memory that is never accessible from an offset on: the loop does not end.\<close>

lemma copy_loop_stuck_aux:
  assumes "copy_loop cto src n t offset out = Some r"
  shows "(\<forall>u. cto u (n - offset) = n - offset) \<longrightarrow> n \<le> offset"
proof (rule copy_loop.raw_induct [where P = "\<lambda>cto src n t offset out r.
      (\<forall>u. cto u (n - offset) = n - offset) \<longrightarrow> n \<le> offset", OF _ assms])
  fix f :: "copy_fn \<Rightarrow> 'a list \<Rightarrow> nat \<Rightarrow> nat \<Rightarrow> nat \<Rightarrow> 'a list \<Rightarrow> 'a list option"
    and cto src n t offset out r
  assume IH: "\<And>cto src n t offset out r. f cto src n t offset out = Some r \<Longrightarrow>
      (\<forall>u. cto u (n - offset) = n - offset) \<longrightarrow> n \<le> offset"
    and eq: "(if n - offset > 0 then
        let not_send = cto t (n - offset); sent = (n - offset) - not_send
        in f cto src n (Suc t) (offset + sent) (out @ take sent (drop offset src))
      else Some out) = Some r"
  show "(\<forall>u. cto u (n - offset) = n - offset) \<longrightarrow> n \<le> offset"
  proof (intro impI, cases "n - offset > 0")
    case True
    assume stuck: "\<forall>u. cto u (n - offset) = n - offset"
    with eq True have "f cto src n (Suc t) offset out = Some r" by (simp add: Let_def)
    with IH stuck show "n \<le> offset" by blast
  qed simp
qed

lemma copy_loop_stuck:
  assumes "\<And>u. cto u (n - offset) = n - offset" "offset < n"
  shows "copy_loop cto src n t offset out = None"
proof (cases "copy_loop cto src n t offset out")
  case (Some r)
  from copy_loop_stuck_aux [OF this] assms show ?thesis by auto
qed

text \<open>A user buffer of which the first \<open>w\<close> bytes can be written: what \<^verbatim>\<open>copy_to_user\<close> answers
  when it is asked for the last \<open>k\<close> of \<open>n\<close> bytes.\<close>

definition writable :: "nat \<Rightarrow> nat \<Rightarrow> copy_fn" where
  "writable n w = (\<lambda>t k. k - min k (w - (n - k)))"

lemma copy_writable:
  "copy_loop (writable n w) src n t 0 [] = (if n \<le> w then Some (take n src) else None)"
proof (cases "n \<le> w")
  case True
  then have "writable n w t n = 0" by (simp add: writable_def)
  with True show ?thesis by (simp add: copy_loop_once)
next
  case False
  then have "copy_loop (writable n w) src n (Suc t) w out = None" for out
    by (intro copy_loop_stuck) (simp_all add: writable_def)
  moreover have "n - writable n w t n = w" "0 < n" using False by (simp_all add: writable_def)
  ultimately show ?thesis using False by (subst copy_loop_step) (simp_all add: Let_def)
qed

text \<open>The answer that copies everything at once meets both conditions.\<close>

lemma copy_all_fn: "copy_law (\<lambda>_ _. 0)" "copy_fair (\<lambda>_ _. 0)"
  by (auto simp: copy_law_def copy_fair_def)

end
