(* ===== verification/TagMessaging.thy ===== *)
theory TagMessaging
  imports Services CopyLoop
begin

text \<open>
  The four system calls of \<^verbatim>\<open>TAG_Messaging.c\<close>.  Each is a function from the module's state
  to the value returned and the new state, with every call into the kernel in the order of
  the source.  The answer of a call is \<open>Inl e\<close> for \<^verbatim>\<open>return -e\<close>.  A call runs alone here;
  what other threads do while \<^verbatim>\<open>tag_receive\<close> sleeps is its argument \<open>wait\<close>.
\<close>

definition put_return :: "rv \<Rightarrow> kstate \<Rightarrow> (rv \<times> kstate) res" where
  "put_return r s = Inr (r, klogs ModulePut s)"

section \<open>tag_get\<close>

text \<open>\<^verbatim>\<open>serviceCount >= MAX_SERVICE_NUM\<close> compares an unsigned with a signed integer, which is
  the unsigned comparison.\<close>

definition tag_get_CREATE :: "kenv \<Rightarrow> kstate \<Rightarrow> c_int \<Rightarrow> c_int \<Rightarrow> (rv \<times> kstate) res" where
  "tag_get_CREATE env s k p =
     (if MAX_SERVICE_NUM s \<le> serviceCount s then put_return (Inl ETOOMANYREFS) s
      else if k = TAG_IPC_PRIVATE then
        rbind (new_TAG_Service env (klogs (WriteLock SearchLock) s) k (cur_tgid env) p)
          (\<lambda>(service, s1). case service of
             None \<Rightarrow> put_return (Inl EBADR) s1
           | Some a \<Rightarrow>
               let s2 = klogs (WriteUnlock SearchLock) s1;
                   s3 = s2\<lparr>serviceCount := serviceCount s2 + 1\<rparr>
               in (case sv_heap s3 a of
                     None \<Rightarrow> Inl Fault
                   | Some sv \<Rightarrow> put_return (Inr (sv_tag sv)) s3))
      else
        let s0 = klogs (WriteLock SearchLock) s
        in rbind (searchTAG_Service_withKey s0 k) (\<lambda>found. case found of
             Some _ \<Rightarrow> put_return (Inl EBADR) (klogs (WriteUnlock SearchLock) s0)
           | None \<Rightarrow>
               rbind (new_TAG_Service env s0 k (cur_tgid env) p)
                 (\<lambda>(service, s1). case service of
                    None \<Rightarrow> put_return (Inl EFAULT) s1
                  | Some a \<Rightarrow>
                      let s2 = s1\<lparr>serviceCount := serviceCount s1 + 1\<rparr>;
                          s3 = klogs (WriteUnlock SearchLock) s2
                      in (case sv_heap s3 a of
                            None \<Rightarrow> Inl Fault
                          | Some sv \<Rightarrow> put_return (Inr (sv_tag sv)) s3))))"

definition tag_get_OPEN :: "kenv \<Rightarrow> kstate \<Rightarrow> c_int \<Rightarrow> (rv \<times> kstate) res" where
  "tag_get_OPEN env s k =
     (if k = TAG_IPC_PRIVATE then Inr (Inl EBADSLT, s)
      else
        let s0 = klogs (ReadLock SearchLock) s
        in rbind (searchTAG_Service_withKey s0 k) (\<lambda>found.
             let s1 = klogs (ReadUnlock SearchLock) s0
             in (case found of
                   None \<Rightarrow> put_return (Inl ENOMSG) s1
                 | Some a \<Rightarrow> (case sv_heap s1 a of
                     None \<Rightarrow> Inl Fault
                   | Some sv \<Rightarrow>
                       if \<not> validServiceOperation env sv then put_return (Inl EBADRQC) s1
                       else Inr (Inr (sv_tag sv), s1)))))"

definition tag_get :: "kenv \<Rightarrow> kstate \<Rightarrow> c_int \<Rightarrow> c_int \<Rightarrow> c_int \<Rightarrow> (rv \<times> kstate) res" where
  "tag_get env s k command p =
     (if \<not> module_live env then Inr (Inl ENOSYS, s)
      else
        let s0 = klogs TryModuleGet s
        in if permAmmisible p \<noteq> 0 then put_return (Inl EBADRQC) s0
           else if keyAmmissible k \<noteq> 0 then put_return (Inl EILSEQ) s0
           else if command = CREATE then tag_get_CREATE env s0 k p
           else if command = OPEN then tag_get_OPEN env s0 k
           else Inr (Inl EILSEQ, s0))"

section \<open>tag_send\<close>

text \<open>From the replacement on: the message is stored, then the sleepers of the level are woken.\<close>

definition send_level ::
  "kenv \<Rightarrow> kstate \<Rightarrow> addr \<Rightarrow> TAG_Service \<Rightarrow> c_int \<Rightarrow> byte list \<Rightarrow> size_t \<Rightarrow> (rv \<times> kstate) res" where
  "send_level env s a sv level buf sz =
     rbind (rcu_list_replace (kmalloc_element env) (ListLock a) (levels sv) level buf sz (mem s))
       (\<lambda>(r, l, m).
          let s1 = set_levels a sv l (s\<lparr>mem := m\<rparr>)
          in if r \<noteq> 1 then put_return (Inl EBADMSG) s1
             else (case level_ix level of
               None \<Rightarrow> Inl Fault
             | Some j \<Rightarrow>
                 if \<not> waitqueue_active l j then put_return (Inr 0) s1
                 else
                   let l1 = wake_up_all j (l\<lparr>ready := (ready l)[j := 1]\<rparr>)
                   in put_return (Inr 0) (klogs (WakeUpAll a j) (set_levels a sv l1 s1))))"

text \<open>\<open>buffer\<close> is the user memory at the pointer passed (\<open>None\<close> for a null pointer), up to the
  first byte that cannot be read; \<^verbatim>\<open>copy_from_user\<close> succeeds when it holds \<open>sz\<close> bytes.\<close>

definition tag_send ::
  "kenv \<Rightarrow> kstate \<Rightarrow> c_int \<Rightarrow> c_int \<Rightarrow> byte list option \<Rightarrow> size_t \<Rightarrow> (rv \<times> kstate) res" where
  "tag_send env s tag level buffer sz =
     (if \<not> module_live env then Inr (Inl ENOSYS, s)
      else
        let s0 = klogs TryModuleGet s
        in case buffer of
          None \<Rightarrow> put_return (Inl EXFULL) s0
        | Some ubuf \<Rightarrow>
          if sz > MAX_MESSAGE_SIZE then put_return (Inl EXFULL) s0
          else if \<not> vzalloc_ok env \<and> sz > 0 then Inl Fault
          else
            let s1 = klogs (Vzalloc sz) s0
            in if length ubuf < unat sz then put_return (Inl ENODATA) s1
               else
                 let buf = take (unat sz) ubuf;
                     s2 = klogs (ReadLock SearchLock) s1
                 in rbind (searchTAG_Service_withTag s2 tag) (\<lambda>found.
                      let s3 = klogs (ReadUnlock SearchLock) s2
                      in (case found of
                            None \<Rightarrow> put_return (Inl ENOMSG) s3
                          | Some a \<Rightarrow> (case sv_heap s3 a of
                              None \<Rightarrow> Inl Fault
                            | Some sv \<Rightarrow>
                                if \<not> validServiceOperation env sv then
                                  put_return (Inl EBADRQC) (klogs (Vfree sz) s3)
                                else if sint level \<ge> int levelDeep then
                                  put_return (Inl EBADSLT) (klogs (Vfree sz) s3)
                                else
                                  send_level env s3 a sv level buf sz))))"

section \<open>tag_receive\<close>

text \<open>\<open>wait a j s\<close>: the thread sleeps on level \<open>j\<close> of the service at \<open>a\<close> in the state \<open>s\<close>;
  the answer is whether a signal arrives, and the state then.  Without a signal the macro
  \<^verbatim>\<open>wait_event_interruptible\<close> tests \<^verbatim>\<open>ready[level] == 1\<close> in that state: when the flag is down the
  thread sleeps on, and as nothing else is to come it never returns (\<open>Spin\<close>).\<close>

type_synonym wait_fn = "addr \<Rightarrow> nat \<Rightarrow> kstate \<Rightarrow> bool \<times> kstate"

definition rcu_list_search :: "wait_fn \<Rightarrow> addr \<Rightarrow> c_int \<Rightarrow> kstate \<Rightarrow> (addr option \<times> kstate) res" where
  "rcu_list_search wait a k s = (case sv_heap s a of
     None \<Rightarrow> Inl Fault
   | Some sv \<Rightarrow>
       rbind (search_enter (levels sv) k) (\<lambda>(my_epoch, l1).
         let (signalled, s1) = wait a (the (level_ix k)) (set_levels a sv l1 s)
         in (case sv_heap s1 a of
               None \<Rightarrow> Inl Fault
             | Some sv1 \<Rightarrow>
                 if \<not> signalled \<and> ready (levels sv1) ! the (level_ix k) \<noteq> 1 then Inl Spin
                 else
                 rbind (search_leave (el_heap (mem s1)) (levels sv1) my_epoch k signalled)
                   (\<lambda>(p, l2). Inr (p, set_levels a sv1 l2 s1)))))"

text \<open>The answer holds the bytes written to the user's buffer too.\<close>

definition tag_receive ::
  "kenv \<Rightarrow> copy_fn \<Rightarrow> wait_fn \<Rightarrow> kstate \<Rightarrow> c_int \<Rightarrow> c_int \<Rightarrow> bool \<Rightarrow> size_t
    \<Rightarrow> (rv \<times> byte list \<times> kstate) res" where
  "tag_receive env cto wait s tag level buffer_null sz =
     (let fail = (\<lambda>e s'. Inr (Inl e, [], klogs ModulePut s'))
      in if \<not> module_live env then Inr (Inl ENOSYS, [], s)
         else
           let s0 = klogs TryModuleGet s
           in if sz > MAX_MESSAGE_SIZE \<or> buffer_null then fail EXFULL s0
              else
                let s1 = klogs (ReadLock SearchLock) s0
                in rbind (searchTAG_Service_withTag s1 tag) (\<lambda>found.
                     let s2 = klogs (ReadUnlock SearchLock) s1
                     in (case found of
                           None \<Rightarrow> fail ENOMSG s2
                         | Some a \<Rightarrow> (case sv_heap s2 a of
                             None \<Rightarrow> Inl Fault
                           | Some sv \<Rightarrow>
                               if \<not> validServiceOperation env sv then fail EBADRQC s2
                               else if sint level \<ge> int levelDeep then fail EBADSLT s2
                               else
                                 rbind (rcu_list_search wait a level s2) (\<lambda>(e, s3). case e of
                                   None \<Rightarrow> fail EUCLEAN s3
                                 | Some p \<Rightarrow> (case el_heap (mem s3) p of
                                     None \<Rightarrow> Inl Fault
                                   | Some el \<Rightarrow>
                                       let bSize = min sz (e_size el)
                                       in if length (e_message el) < unat bSize then Inl Fault
                                          else (case copy_loop cto (e_message el) (unat bSize) 0 0 [] of
                                            None \<Rightarrow> Inl Spin
                                          | Some out \<Rightarrow>
                                              Inr (Inr (ucast bSize), out, klogs ModulePut s3))))))))"

section \<open>tag_ctl\<close>

text \<open>One turn of the loop of \<^verbatim>\<open>AWAKE_ALL\<close>.\<close>

definition awake_level :: "addr \<Rightarrow> nat \<Rightarrow> rcu_list \<times> kmem \<Rightarrow> rcu_list \<times> kmem" where
  "awake_level a i = (\<lambda>(l, m).
     (wake_up_all i (l\<lparr>ready := (ready l)[i := 1]\<rparr>), logk (WakeUpAll a i) m))"

definition tag_ctl_TBDE_AWAKE_ALL :: "kenv \<Rightarrow> kstate \<Rightarrow> c_int \<Rightarrow> (rv \<times> kstate) res" where
  "tag_ctl_TBDE_AWAKE_ALL env s tag =
     (let s0 = klogs (ReadLock SearchLock) s
      in rbind (searchTAG_Service_withTag s0 tag) (\<lambda>found.
           let s1 = klogs (ReadUnlock SearchLock) s0
           in (case found of
                 None \<Rightarrow> put_return (Inl ENOMSG) s1
               | Some a \<Rightarrow> (case sv_heap s1 a of
                   None \<Rightarrow> Inl Fault
                 | Some sv \<Rightarrow>
                     if \<not> validServiceOperation env sv then put_return (Inl EBADRQC) s1
                     else
                       let (l, m) = fold (awake_level a) [0..<levelDeep] (levels sv, mem s1)
                       in put_return (Inr 0)
                            (klogs (WriteUnlock SearchLock) (set_levels a sv l (s1\<lparr>mem := m\<rparr>)))))))"

text \<open>\<^verbatim>\<open>emptyService\<close> is built and then dropped: its pointer is overwritten by that of the
  service removed, which is the one freed.\<close>

definition tag_ctl_TBDE_REMOVE :: "kenv \<Rightarrow> kstate \<Rightarrow> c_int \<Rightarrow> (rv \<times> kstate) res" where
  "tag_ctl_TBDE_REMOVE env s tag =
     (let s0 = klogs (ReadLock SearchLock) s
      in rbind (searchTAG_Service_withTag s0 tag) (\<lambda>found. case found of
           None \<Rightarrow> put_return (Inl ENODATA) (klogs (ReadUnlock SearchLock) s0)
         | Some a \<Rightarrow> (case sv_heap s0 a of
             None \<Rightarrow> Inl Fault
           | Some sv \<Rightarrow>
               if \<not> validServiceOperation env sv then put_return (Inl EBADRQC) s0
               else if list_ex (waitqueue_active (levels sv)) [0..<levelDeep] then
                 Inr (Inl EADDRINUSE, s0)
               else (case kmalloc_service env (sv_heap s0) of
                 None \<Rightarrow> Inl Fault
               | Some b \<Rightarrow>
                   rbind (list_fill (rcu_list_insert (kmalloc_element env) (ListLock b)) [0..<levelDeep]
                            rcu_list_init (mem s0))
                     (\<lambda>(l, m).
                        let emptyService = (fresh_service env)
                              \<lparr>sv_key := 0, sv_tag := - 1, levels := l\<rparr>;
                            hp = (sv_heap s0)(b \<mapsto> emptyService);
                            ps = the (tagServices s0);
                            i = unat (sv_tag sv)
                        in if length ps \<le> i then Inl Fault
                           else
                             let hp' = (case ps ! i of None \<Rightarrow> hp | Some tmp \<Rightarrow> hp(tmp := None));
                                 s1 = s0\<lparr>mem := m, sv_heap := hp',
                                         tagServices := Some (ps[i := None]),
                                         serviceCount := serviceCount s0 - 1\<rparr>
                             in put_return (Inr 0) (klogs (ReadUnlock SearchLock) s1))))))"

definition tag_ctl :: "kenv \<Rightarrow> kstate \<Rightarrow> c_int \<Rightarrow> c_int \<Rightarrow> (rv \<times> kstate) res" where
  "tag_ctl env s tag command =
     (if \<not> module_live env then put_return (Inl ENOSYS) s
      else
        let s0 = klogs TryModuleGet s
        in if sint tag < 0 then put_return (Inl ENOSR) s0
           else if command = AWAKE_ALL then tag_ctl_TBDE_AWAKE_ALL env s0 tag
           else if command = REMOVE then tag_ctl_TBDE_REMOVE env s0 tag
           else Inr (Inl EILSEQ, s0))"

end
