(* ===== verification/TableOps.thy ===== *)
theory TableOps
  imports ServiceTable TagMessaging
begin

text \<open>What the creation of a service does under the invariant of the table, and the count of
  the used entries.\<close>

section \<open>Used and free entries\<close>

lemma used_le: "kinv s \<Longrightarrow> used s \<le> min_sys_TAG_Services"
  using kinv_slots(2) [of s] length_filter_le [of "\<lambda>x. x \<noteq> None" "slots s"] by (simp add: used_def)

lemma used_full_iff:
  assumes "kinv s"
  shows "used s = min_sys_TAG_Services \<longleftrightarrow> (\<forall>i < min_sys_TAG_Services. slot s i \<noteq> None)"
proof -
  have len: "length (slots s) = min_sys_TAG_Services" by (rule kinv_slots(2) [OF assms])
  have "used s = length (slots s) \<longleftrightarrow> (\<forall>x \<in> set (slots s). x \<noteq> None)"
    unfolding used_def by (rule length_filter_all)
  then show ?thesis using len by (auto simp: all_set_conv_all_nth slot_def)
qed

lemma count_full:
  assumes "kinv s"
  shows "MAX_SERVICE_NUM s \<le> serviceCount s \<longleftrightarrow> used s = min_sys_TAG_Services"
proof -
  have "MAX_SERVICE_NUM s \<le> serviceCount s \<longleftrightarrow> min_sys_TAG_Services \<le> used s"
    using used_le [OF assms] kinv_count [OF assms]
      of_nat_c_uint_le_iff [of min_sys_TAG_Services "used s"]
    by (simp add: min_sys_TAG_Services_def)
  with used_le [OF assms] show ?thesis by auto
qed

text \<open>The first free entry, which the creation takes.\<close>

definition free_slot :: "kstate \<Rightarrow> nat option" where
  "free_slot s = first_index (\<lambda>x. x = None) (slots s)"

lemma free_slot_None: "kinv s \<Longrightarrow> free_slot s = None \<longleftrightarrow> used s = min_sys_TAG_Services"
  using used_full_iff [of s] kinv_slots(2) [of s]
  by (auto simp: free_slot_def first_index_None all_set_conv_all_nth slot_def)

lemma free_slot_Some:
  "kinv s \<Longrightarrow> free_slot s = Some i \<Longrightarrow>
   i < min_sys_TAG_Services \<and> slot s i = None \<and> (\<forall>j < i. slot s j \<noteq> None)"
  using first_index_Some [of "\<lambda>x. x = None" "slots s" i] kinv_slots(2) [of s]
  by (auto simp: free_slot_def slot_def)

section \<open>Creation\<close>

definition env_sound :: "kenv \<Rightarrow> bool" where
  "env_sound env \<longleftrightarrow> alloc_sound (kmalloc_element env) \<and> alloc_sound (kmalloc_service env)"

lemma fresh_levels_dom: "fresh_levels [0..<levelDeep] k = Some v \<Longrightarrow> level_ix k \<noteq> None \<and> v = ([0], 0)"
  by (auto simp: fresh_levels_def level_ix_of_nat split: if_splits)

lemma new_TAG_Service_spec:
  assumes snd: "env_sound env" and inv: "kinv s" and free: "free_slot s = Some i"
    and al: "kmalloc_service env (sv_heap s) = Some a"
    and k: "k \<noteq> 0" "p = OPEN_ROOM \<or> p = PRIVATE_ROOM"
  obtains new m' n where
    "new_TAG_Service env s k uid p = Inr (Some a,
       s\<lparr>mem := m', sv_heap := (sv_heap s)(a \<mapsto> new), tagServices := Some ((slots s)[i := Some a])\<rparr>)"
    "sv_key new = k" "sv_tag new = of_nat i" "uid_Creator new = uid" "sv_perm new = p"
    "svc_wf m' i new"
    "others_kept rcu_ok rcu_view rcu_foot (mem s) rcu_list_init m' (levels new)"
    "klog m' = klog (mem s) @ write_sections (ListLock a) n"
    "\<And>r. alloc_room (kmalloc_element env) (el_heap (mem s)) (levelDeep + r) \<Longrightarrow>
       rcu_view m' (levels new) = fresh_levels [0..<levelDeep] \<and>
       alloc_room (kmalloc_element env) (el_heap m') r"
    "same_queues rcu_list_init (levels new)"
proof -
  from snd have "alloc_sound (kmalloc_element env)" by (simp add: env_sound_def)
  from rcu.init_fill [OF this, of "ListLock a" "[0..<levelDeep]" "mem s"] obtain l m' n where
    f: "list_fill (rcu_list_insert (kmalloc_element env) (ListLock a)) [0..<levelDeep]
          rcu_list_init (mem s) = Inr (l, m')" "rcu_ok m' l"
       "others_kept rcu_ok rcu_view rcu_foot (mem s) rcu_list_init m' l"
       "\<And>key v. rcu_view m' l key = Some v \<Longrightarrow> fresh_levels [0..<levelDeep] key = Some v"
       "klog m' = klog (mem s) @ write_sections (ListLock a) n"
       "\<And>r. alloc_room (kmalloc_element env) (el_heap (mem s)) (length [0..<levelDeep] + r) \<Longrightarrow>
          alloc_room (kmalloc_element env) (el_heap m') r \<and> rcu_view m' l = fresh_levels [0..<levelDeep]"
    by metis
  let ?new = "(fresh_service env)\<lparr>sv_key := k, sv_tag := of_nat i, uid_Creator := uid,
      sv_perm := p, levels := l\<rparr>"
  have run: "new_TAG_Service env s k uid p = Inr (Some a,
      s\<lparr>mem := m', sv_heap := (sv_heap s)(a \<mapsto> ?new), tagServices := Some ((slots s)[i := Some a])\<rparr>)"
    using kinv_slots(1) [OF inv] free al f(1) by (simp add: new_TAG_Service_def free_slot_def)
  have wf: "svc_wf m' i ?new"
    using k f(2) f(4) fresh_levels_dom by (fastforce simp: svc_wf_def)
  show thesis
    by (rule that [OF run]) (use f wf fill_queues [OF f(1)] in \<open>auto dest: f(6) [simplified]\<close>)
qed

lemma new_TAG_Service_full:
  "kinv s \<Longrightarrow> used s = min_sys_TAG_Services \<Longrightarrow> new_TAG_Service env s k uid p = Inr (None, s)"
  using free_slot_None [of s] kinv_slots(1) [of s] by (simp add: new_TAG_Service_def free_slot_def)

end
