(* ===== verification/Rooms.thy ===== *)
theory Rooms
  imports TableOps
begin

text \<open>
  What the system calls promise, without arrays, pointers, locks and epochs: a map from tags
  to rooms.  A room has its key, its creator, its permission, the message last stored for
  each level and the levels on which somebody sleeps.  \<open>rooms_of\<close> reads the map off a state of
  the module.
\<close>

record room =
  r_key :: c_int
  r_creator :: c_int
  r_perm :: c_int
  r_msg :: "c_int \<Rightarrow> (byte list \<times> size_t) option"
  r_sleep :: "nat list"

type_synonym rooms = "nat \<Rightarrow> room option"

definition sleepers :: "rcu_list \<Rightarrow> nat list" where
  "sleepers l = filter (waitqueue_active l) [0..<levelDeep]"

definition room_of :: "kmem \<Rightarrow> TAG_Service \<Rightarrow> room" where
  "room_of m sv = \<lparr>r_key = sv_key sv, r_creator = uid_Creator sv, r_perm = sv_perm sv,
     r_msg = rcu_view m (levels sv), r_sleep = sleepers (levels sv)\<rparr>"

lemma room_of_simps [simp]:
  "r_key (room_of m sv) = sv_key sv" "r_creator (room_of m sv) = uid_Creator sv"
  "r_perm (room_of m sv) = sv_perm sv" "r_msg (room_of m sv) = rcu_view m (levels sv)"
  "r_sleep (room_of m sv) = sleepers (levels sv)"
  by (simp_all add: room_of_def)

definition rooms_of :: "kstate \<Rightarrow> rooms" where
  "rooms_of s i = map_option (room_of (mem s)) (svc_at s i)"

lemma room_of_logk [simp]: "room_of (logk c m) = room_of m"
  unfolding room_of_def rcu_logk by (rule refl)

lemma rooms_of_klogs [simp]: "rooms_of (klogs c s) = rooms_of s"
  by (simp add: rooms_of_def fun_eq_iff)

section \<open>The promises\<close>

definition r_allowed :: "kenv \<Rightarrow> room \<Rightarrow> bool" where
  "r_allowed env r \<longleftrightarrow> cur_uid env = 0 \<or> r_perm r = OPEN_ROOM \<or>
     r_perm r = PRIVATE_ROOM \<and> r_creator r = cur_tgid env"

definition tags :: "nat list" where "tags = [0..<min_sys_TAG_Services]"

definition r_free :: "rooms \<Rightarrow> nat option" where
  "r_free R = first_index (\<lambda>i. R i = None) tags"

definition has_key :: "rooms \<Rightarrow> c_int \<Rightarrow> nat \<Rightarrow> bool" where
  "has_key R k i = (case R i of None \<Rightarrow> False | Some r \<Rightarrow> r_key r = k)"

definition r_find :: "rooms \<Rightarrow> c_int \<Rightarrow> nat option" where
  "r_find R k = find (has_key R k) tags"

definition new_room :: "kenv \<Rightarrow> c_int \<Rightarrow> c_int \<Rightarrow> room" where
  "new_room env k p = \<lparr>r_key = k, r_creator = cur_tgid env, r_perm = p,
     r_msg = fresh_levels [0..<levelDeep], r_sleep = []\<rparr>"

definition a_create :: "kenv \<Rightarrow> rooms \<Rightarrow> c_int \<Rightarrow> c_int \<Rightarrow> rv \<times> rooms" where
  "a_create env R k p = (case r_free R of
     None \<Rightarrow> (Inl ETOOMANYREFS, R)
   | Some i \<Rightarrow>
       if k \<noteq> TAG_IPC_PRIVATE \<and> r_find R k \<noteq> None then (Inl EBADR, R)
       else (Inr (of_nat i), R(i \<mapsto> new_room env k p)))"

definition a_open :: "kenv \<Rightarrow> rooms \<Rightarrow> c_int \<Rightarrow> rv" where
  "a_open env R k =
     (if k = TAG_IPC_PRIVATE then Inl EBADSLT
      else case r_find R k of
        None \<Rightarrow> Inl ENOMSG
      | Some i \<Rightarrow> if r_allowed env (the (R i)) then Inr (of_nat i) else Inl EBADRQC)"

definition a_get :: "kenv \<Rightarrow> rooms \<Rightarrow> c_int \<Rightarrow> c_int \<Rightarrow> c_int \<Rightarrow> rv \<times> rooms" where
  "a_get env R k command p =
     (if \<not> module_live env then (Inl ENOSYS, R)
      else if p \<noteq> OPEN_ROOM \<and> p \<noteq> PRIVATE_ROOM then (Inl EBADRQC, R)
      else if k = 0 then (Inl EILSEQ, R)
      else if command = CREATE then a_create env R k p
      else if command = OPEN then (a_open env R k, R)
      else (Inl EILSEQ, R))"

definition a_send ::
  "kenv \<Rightarrow> rooms \<Rightarrow> c_int \<Rightarrow> c_int \<Rightarrow> byte list option \<Rightarrow> size_t \<Rightarrow> rv \<times> rooms" where
  "a_send env R tag level buffer sz =
     (if \<not> module_live env then (Inl ENOSYS, R)
      else case buffer of
        None \<Rightarrow> (Inl EXFULL, R)
      | Some ubuf \<Rightarrow>
        if sz > MAX_MESSAGE_SIZE then (Inl EXFULL, R)
        else if length ubuf < unat sz then (Inl ENODATA, R)
        else case R (unat tag) of
          None \<Rightarrow> (Inl ENOMSG, R)
        | Some r \<Rightarrow>
          if \<not> r_allowed env r then (Inl EBADRQC, R)
          else if sint level \<ge> int levelDeep then (Inl EBADSLT, R)
          else case level_ix level of
            None \<Rightarrow> (Inl EBADMSG, R)
          | Some j \<Rightarrow>
              (Inr 0, R(unat tag \<mapsto> r\<lparr>r_msg := (r_msg r)(level \<mapsto> (take (unat sz) ubuf, sz)),
                 r_sleep := filter (\<lambda>i. i \<noteq> j) (r_sleep r)\<rparr>)))"

definition a_ctl :: "kenv \<Rightarrow> rooms \<Rightarrow> c_int \<Rightarrow> c_int \<Rightarrow> rv \<times> rooms" where
  "a_ctl env R tag command =
     (if \<not> module_live env then (Inl ENOSYS, R)
      else if sint tag < 0 then (Inl ENOSR, R)
      else if command = AWAKE_ALL then
        (case R (unat tag) of
           None \<Rightarrow> (Inl ENOMSG, R)
         | Some r \<Rightarrow> if \<not> r_allowed env r then (Inl EBADRQC, R)
                    else (Inr 0, R(unat tag \<mapsto> r\<lparr>r_sleep := []\<rparr>)))
      else if command = REMOVE then
        (case R (unat tag) of
           None \<Rightarrow> (Inl ENODATA, R)
         | Some r \<Rightarrow> if \<not> r_allowed env r then (Inl EBADRQC, R)
                    else if r_sleep r \<noteq> [] then (Inl EADDRINUSE, R)
                    else (Inr 0, R(unat tag := None)))
      else (Inl EILSEQ, R))"

section \<open>Reading the map off a state\<close>

lemma rooms_of_None: "kinv s \<Longrightarrow> rooms_of s i = None \<longleftrightarrow> slot s i = None"
  using kinv_slot [of s i] by (cases "slot s i") (auto simp: rooms_of_def svc_at_def)

lemma first_index_cong:
  "length xs = length ys \<Longrightarrow> (\<And>i. i < length xs \<Longrightarrow> P (xs ! i) = Q (ys ! i)) \<Longrightarrow>
   first_index P xs = first_index Q ys"
proof (induction xs ys rule: list_induct2)
  case Nil
  then show ?case by simp
next
  case (Cons x xs y ys)
  have "P x = Q y" using Cons.prems [of 0] by simp
  moreover have "first_index P xs = first_index Q ys"
    by (rule Cons.IH) (use Cons.prems [of "Suc _"] in simp)
  ultimately show ?case by simp
qed

lemma r_free_rooms: "kinv s \<Longrightarrow> r_free (rooms_of s) = free_slot s"
  unfolding r_free_def free_slot_def tags_def
  by (rule first_index_cong) (auto simp: kinv_slots(2) rooms_of_None slot_def)

lemma r_allowed_iff:
  "svc_wf m i sv \<Longrightarrow> r_allowed env (room_of m' sv) \<longleftrightarrow> validServiceOperation env sv"
  by (auto simp: r_allowed_def validServiceOperation_def svc_wf_def tag_macros)

lemma has_key_rooms: "has_key (rooms_of s) k i \<longleftrightarrow> (\<exists>sv. svc_at s i = Some sv \<and> sv_key sv = k)"
  by (auto simp: has_key_def rooms_of_def split: option.splits)

lemma svc_at_bound: "kinv s \<Longrightarrow> svc_at s i = Some sv \<Longrightarrow> i < min_sys_TAG_Services"
  using slot_bound svc_at_slot by blast

lemma find_upt_first:
  "i < n \<Longrightarrow> P i \<Longrightarrow> (\<And>j. j < i \<Longrightarrow> \<not> P j) \<Longrightarrow> find P [0..<n] = Some i"
  by (auto simp: find_Some_iff)

lemma r_find_rooms:
  assumes "kinv s"
  shows "(case r_find (rooms_of s) k of None \<Rightarrow> searchTAG_Service_withKey s k = Inr None
          | Some i \<Rightarrow> \<exists>sv. searchTAG_Service_withKey s k = Inr (slot s i) \<and> svc_at s i = Some sv \<and> sv_key sv = k)"
proof (rule search_key [OF assms, of k])
  fix i sv
  assume *: "searchTAG_Service_withKey s k = Inr (slot s i)" "svc_at s i = Some sv" "sv_key sv = k"
    "\<And>j x. svc_at s j = Some x \<Longrightarrow> j < i \<Longrightarrow> sv_key x \<noteq> k"
  then have "r_find (rooms_of s) k = Some i"
    unfolding r_find_def tags_def
    by (intro find_upt_first) (auto simp: has_key_rooms svc_at_bound [OF assms])
  with * show ?thesis by simp
next
  assume *: "searchTAG_Service_withKey s k = Inr None" "\<And>j x. svc_at s j = Some x \<Longrightarrow> sv_key x \<noteq> k"
  then have "r_find (rooms_of s) k = None"
    by (auto simp: r_find_def find_None_iff has_key_rooms)
  with * show ?thesis by simp
qed

end
