(* ===== verification/GetCorrect.thy ===== *)
theory GetCorrect
  imports Rooms
begin

text \<open>\<^verbatim>\<open>tag_get\<close>: every outcome of the two commands, with the calls recorded, and that they
  implement \<open>a_get\<close>.\<close>

section \<open>Completeness of the levels\<close>

text \<open>Every service has a node for each of the 32 levels: what creation gives when memory does
  not run out.\<close>

definition complete :: "kstate \<Rightarrow> bool" where
  "complete s \<longleftrightarrow> (\<forall>i sv. svc_at s i = Some sv \<longrightarrow> (\<forall>j < levelDeep. msgs s sv (of_nat j) \<noteq> None))"

lemma complete_rooms:
  "complete s \<longleftrightarrow> (\<forall>i r. rooms_of s i = Some r \<longrightarrow> (\<forall>j < levelDeep. r_msg r (of_nat j) \<noteq> None))"
  unfolding complete_def rooms_of_def msgs_def by fastforce

lemma complete_klogs [simp]: "complete (klogs c s) = complete s"
  by (simp add: complete_def)

lemma fresh_levels_full: "j < levelDeep \<Longrightarrow> fresh_levels [0..<levelDeep] (of_nat j) = Some ([0], 0)"
  by (simp add: fresh_levels_def)

text \<open>The allocators have memory for \<open>n\<close> more nodes and \<open>m\<close> more services.\<close>

definition budget :: "kenv \<Rightarrow> kstate \<Rightarrow> nat \<Rightarrow> nat \<Rightarrow> bool" where
  "budget env s n m \<longleftrightarrow> alloc_room (kmalloc_element env) (el_heap (mem s)) n \<and>
     alloc_room (kmalloc_service env) (sv_heap s) m"

lemma budget_klogs [simp]:
  "budget env (klogs c s) n m = budget env s n m" "budget env (klog_all cs s) n m = budget env s n m"
  by (simp_all add: budget_def)

lemma budget_le: "budget env s n m \<Longrightarrow> n' \<le> n \<Longrightarrow> m' \<le> m \<Longrightarrow> budget env s n' m'"
  unfolding budget_def by (elim conjE, intro conjI) (rule alloc_room_le, assumption, assumption)+

lemma budget_less: "budget env s (levelDeep + n) (Suc m) \<Longrightarrow> budget env s n m"
  by (erule budget_le) simp_all

lemma budget_service: "budget env s n (Suc m) \<Longrightarrow> \<exists>a. kmalloc_service env (sv_heap s) = Some a"
  unfolding budget_def by (elim conjE) (rule alloc_room_Some)

lemma budget_node: "budget env s (levelDeep + n) m \<Longrightarrow> \<exists>a. kmalloc_element env (el_heap (mem s)) = Some a"
  using alloc_room_Some [of "kmalloc_element env" "el_heap (mem s)" "31 + n"]
  by (simp add: budget_def levelDeep_def)

lemma budget_new_service:
  "budget env s n (Suc m) \<Longrightarrow> kmalloc_service env (sv_heap s) = Some a \<Longrightarrow> env_sound env \<Longrightarrow>
   alloc_room (kmalloc_service env) ((sv_heap s)(a \<mapsto> x)) m"
  unfolding budget_def
  by (auto intro!: alloc_room_upd [of _ "sv_heap s"] simp: env_sound_def alloc_sound_def)

section \<open>Creation\<close>

text \<open>The state after a creation that succeeds, before the counter and the logs.\<close>

lemma created:
  assumes snd: "env_sound env" and inv: "kinv s" and free: "free_slot s = Some i"
    and al: "kmalloc_service env (sv_heap s) = Some a"
    and k: "k \<noteq> 0" "p = OPEN_ROOM \<or> p = PRIVATE_ROOM"
    and key: "k = TAG_IPC_PRIVATE \<or> r_find (rooms_of s) k = None"
  obtains new s1 n where
    "new_TAG_Service env s k (cur_tgid env) p = Inr (Some a, s1)"
    "sv_heap s1 a = Some new" "sv_tag new = of_nat i" "sv_key new = k" "sv_perm new = p"
    "uid_Creator new = cur_tgid env"
    "serviceCount s1 = serviceCount s"
    "kinv (s1\<lparr>serviceCount := serviceCount s + 1\<rparr>)"
    "svc_at (s1\<lparr>serviceCount := serviceCount s + 1\<rparr>) = (svc_at s)(i \<mapsto> new)"
    "\<And>j x. svc_at s j = Some x \<Longrightarrow> rcu_view (mem s1) (levels x) = rcu_view (mem s) (levels x)"
    "klog (mem s1) = klog (mem s) @ write_sections (ListLock a) n"
    "\<And>r. alloc_room (kmalloc_element env) (el_heap (mem s)) (levelDeep + r) \<Longrightarrow>
       rcu_view (mem s1) (levels new) = fresh_levels [0..<levelDeep] \<and>
       alloc_room (kmalloc_element env) (el_heap (mem s1)) r"
    "sleepers (levels new) = []" "sv_heap s1 = (sv_heap s)(a \<mapsto> new)"
proof -
  obtain new m' n where N:
    "new_TAG_Service env s k (cur_tgid env) p = Inr (Some a,
       s\<lparr>mem := m', sv_heap := (sv_heap s)(a \<mapsto> new), tagServices := Some ((slots s)[i := Some a])\<rparr>)"
    "sv_key new = k" "sv_tag new = of_nat i" "uid_Creator new = cur_tgid env" "sv_perm new = p"
    "svc_wf m' i new"
    "others_kept rcu_ok rcu_view rcu_foot (mem s) rcu_list_init m' (levels new)"
    "klog m' = klog (mem s) @ write_sections (ListLock a) n"
    "\<And>r. alloc_room (kmalloc_element env) (el_heap (mem s)) (levelDeep + r) \<Longrightarrow>
       rcu_view m' (levels new) = fresh_levels [0..<levelDeep] \<and>
       alloc_room (kmalloc_element env) (el_heap m') r"
    "same_queues rcu_list_init (levels new)"
    by (rule new_TAG_Service_spec [OF snd inv free al k]) (rule that)
  let ?s1 = "s\<lparr>mem := m', sv_heap := (sv_heap s)(a \<mapsto> new), tagServices := Some ((slots s)[i := Some a])\<rparr>"
  let ?s2 = "?s1\<lparr>serviceCount := serviceCount s + 1\<rparr>"
  have fr: "sv_heap s a = None" using snd al by (auto simp: env_sound_def alloc_sound_def)
  have uniq: "sv_key new = TAG_IPC_PRIVATE \<or> (\<forall>j x. svc_at s j = Some x \<longrightarrow> sv_key x \<noteq> sv_key new)"
  proof (rule disjCI)
    assume "\<not> (\<forall>j x. svc_at s j = Some x \<longrightarrow> sv_key x \<noteq> sv_key new)"
    then obtain j x where "svc_at s j = Some x" "sv_key x = k" using N(2) by auto
    then have "r_find (rooms_of s) k \<noteq> None"
      using svc_at_bound [OF inv] by (auto simp: r_find_def find_None_iff has_key_rooms tags_def)
    with key N(2) show "sv_key new = TAG_IPC_PRIVATE" by simp
  qed
  from free_slot_Some [OF inv free] have fs: "slot s i = None" "i < min_sys_TAG_Services" by auto
  note A = add_service [OF inv fs fr N(7,6) uniq, of ?s2, simplified]
  have "sleepers (levels new) = []"
    using N(10) by (simp add: sleepers_def waitqueue_active_def same_queues_def rcu_list_init_def)
  then show thesis
    by (intro that [OF N(1), of new n])
      (use A N fr init_kept [OF N(7) kinv_wf [OF inv]] in simp_all)
qed

lemma CREATE_full:
  assumes "kinv s" "r_free (rooms_of s) = None"
  shows "tag_get_CREATE env s k p = Inr (Inl ETOOMANYREFS, klogs ModulePut s)"
  using assms count_full [of s] free_slot_None [of s]
  by (simp add: tag_get_CREATE_def put_return_def r_free_rooms)

lemma not_full:
  "kinv s \<Longrightarrow> r_free (rooms_of s) = Some i \<Longrightarrow> \<not> MAX_SERVICE_NUM s \<le> serviceCount s"
  using count_full [of s] free_slot_None [of s] by (auto simp: r_free_rooms)

lemma CREATE_used_key:
  assumes "kinv s" "r_free (rooms_of s) = Some i" "k \<noteq> TAG_IPC_PRIVATE" "r_find (rooms_of s) k \<noteq> None"
  shows "tag_get_CREATE env s k p = Inr (Inl EBADR,
    klogs ModulePut (klogs (WriteUnlock SearchLock) (klogs (WriteLock SearchLock) s)))"
proof -
  from assms(4) obtain j where j: "r_find (rooms_of s) k = Some j" by auto
  have inv: "kinv (klogs (WriteLock SearchLock) s)" using assms(1) by simp
  from r_find_rooms [OF inv, of k] j obtain sv where
    "searchTAG_Service_withKey (klogs (WriteLock SearchLock) s) k = Inr (slot s j)" "svc_at s j = Some sv"
    by auto
  with svc_at_slot [of s j sv] show ?thesis
    using assms(3) not_full [OF assms(1,2)]
    by (auto simp: tag_get_CREATE_def put_return_def Let_def)
qed

lemma CREATE_ok:
  assumes snd: "env_sound env" and inv: "kinv s" and free: "r_free (rooms_of s) = Some i"
    and al: "kmalloc_service env (sv_heap s) = Some a"
    and k: "k \<noteq> 0" "p = OPEN_ROOM \<or> p = PRIVATE_ROOM"
    and key: "k = TAG_IPC_PRIVATE \<or> r_find (rooms_of s) k = None"
  obtains new s' n where
    "tag_get_CREATE env s k p = Inr (Inr (of_nat i), s')" "kinv s'"
    "svc_at s' = (svc_at s)(i \<mapsto> new)" "sv_key new = k" "sv_perm new = p"
    "uid_Creator new = cur_tgid env" "sleepers (levels new) = []"
    "\<And>j x. svc_at s j = Some x \<Longrightarrow> rcu_view (mem s') (levels x) = rcu_view (mem s) (levels x)"
    "klog (mem s') = klog (mem s) @ [WriteLock SearchLock] @ write_sections (ListLock a) n @
       [WriteUnlock SearchLock, ModulePut]"
    "\<And>r. alloc_room (kmalloc_element env) (el_heap (mem s)) (levelDeep + r) \<Longrightarrow>
       rcu_view (mem s') (levels new) = fresh_levels [0..<levelDeep] \<and>
       alloc_room (kmalloc_element env) (el_heap (mem s')) r"
    "sv_heap s' = (sv_heap s)(a \<mapsto> new)"
proof -
  let ?s = "klogs (WriteLock SearchLock) s"
  have inv': "kinv ?s" using inv by simp
  have free': "free_slot ?s = Some i" using r_free_rooms [OF inv'] free by simp
  obtain new s1 n where C:
    "new_TAG_Service env ?s k (cur_tgid env) p = Inr (Some a, s1)"
    "sv_heap s1 a = Some new" "sv_tag new = of_nat i" "sv_key new = k" "sv_perm new = p"
    "uid_Creator new = cur_tgid env" "serviceCount s1 = serviceCount ?s"
    "kinv (s1\<lparr>serviceCount := serviceCount ?s + 1\<rparr>)"
    "svc_at (s1\<lparr>serviceCount := serviceCount ?s + 1\<rparr>) = (svc_at ?s)(i \<mapsto> new)"
    "\<And>j x. svc_at ?s j = Some x \<Longrightarrow> rcu_view (mem s1) (levels x) = rcu_view (mem ?s) (levels x)"
    "klog (mem s1) = klog (mem ?s) @ write_sections (ListLock a) n"
    "\<And>r. alloc_room (kmalloc_element env) (el_heap (mem ?s)) (levelDeep + r) \<Longrightarrow>
       rcu_view (mem s1) (levels new) = fresh_levels [0..<levelDeep] \<and>
       alloc_room (kmalloc_element env) (el_heap (mem s1)) r"
    "sleepers (levels new) = []" "sv_heap s1 = (sv_heap ?s)(a \<mapsto> new)"
    by (rule created [OF snd inv' free' _ k, of a]) (use al key in simp_all)
  let ?t = "klogs ModulePut (klogs (WriteUnlock SearchLock) (s1\<lparr>serviceCount := serviceCount s + 1\<rparr>))"
  have swap: "(klogs c s1)\<lparr>serviceCount := x\<rparr> = klogs c (s1\<lparr>serviceCount := x\<rparr>)" for c x
    by (simp add: klogs_def)
  have run: "tag_get_CREATE env s k p = Inr (Inr (of_nat i), ?t)"
  proof (cases "k = TAG_IPC_PRIVATE")
    case True
    then show ?thesis
      using not_full [OF inv free] C(1-3,7)
      by (simp add: tag_get_CREATE_def put_return_def Let_def swap)
  next
    case False
    with key have "r_find (rooms_of ?s) k = None" by simp
    with r_find_rooms [OF inv', of k] have "searchTAG_Service_withKey ?s k = Inr None" by simp
    with False show ?thesis
      using not_full [OF inv free] C(1-3,7)
      by (simp add: tag_get_CREATE_def put_return_def Let_def)
  qed
  show thesis
    by (rule that [OF run, of new n]) (use C in simp_all)
qed

text \<open>The creation implements its promise.\<close>

lemma rooms_update:
  assumes "svc_at s' = (svc_at s)(i := x)"
    and "\<And>j y. svc_at s j = Some y \<Longrightarrow> j \<noteq> i \<Longrightarrow> rcu_view (mem s') (levels y) = rcu_view (mem s) (levels y)"
  shows "rooms_of s' = (rooms_of s)(i := map_option (room_of (mem s')) x)"
proof
  fix j show "rooms_of s' j = ((rooms_of s)(i := map_option (room_of (mem s')) x)) j"
    using assms(2) [of j] by (cases "svc_at s j") (auto simp: rooms_of_def assms(1) room_of_def)
qed

lemma CREATE_refines:
  assumes snd: "env_sound env" and inv: "kinv s" and rm: "budget env s (levelDeep + n) (Suc m)"
    and k: "k \<noteq> 0" "p = OPEN_ROOM \<or> p = PRIVATE_ROOM"
  shows "\<exists>r s'. tag_get_CREATE env s k p = Inr (r, s') \<and> kinv s' \<and> (complete s \<longrightarrow> complete s') \<and>
    budget env s' n m \<and>
    (r, rooms_of s') = a_create env (rooms_of s) k p"
proof (cases "r_free (rooms_of s)")
  case None
  with inv budget_less [OF rm] show ?thesis by (simp add: CREATE_full a_create_def)
next
  case (Some i)
  show ?thesis
  proof (cases "k \<noteq> TAG_IPC_PRIVATE \<and> r_find (rooms_of s) k \<noteq> None")
    case True
    then show ?thesis
      using inv Some CREATE_used_key [OF inv Some] budget_less [OF rm] by (simp add: a_create_def)
  next
    case False
    from budget_service [OF rm] obtain a where al: "kmalloc_service env (sv_heap s) = Some a" by auto
    from rm have room: "alloc_room (kmalloc_element env) (el_heap (mem s)) (levelDeep + n)"
      by (simp add: budget_def)
    from False have key: "k = TAG_IPC_PRIVATE \<or> r_find (rooms_of s) k = None" by simp
    obtain new s' i' where C:
      "tag_get_CREATE env s k p = Inr (Inr (of_nat i), s')" "kinv s'"
      "svc_at s' = (svc_at s)(i \<mapsto> new)" "sv_key new = k" "sv_perm new = p"
      "uid_Creator new = cur_tgid env" "sleepers (levels new) = []"
      "\<And>j x. svc_at s j = Some x \<Longrightarrow> rcu_view (mem s') (levels x) = rcu_view (mem s) (levels x)"
      "rcu_view (mem s') (levels new) = fresh_levels [0..<levelDeep]"
      "alloc_room (kmalloc_element env) (el_heap (mem s')) n" "sv_heap s' = (sv_heap s)(a \<mapsto> new)"
      using room by (auto intro: CREATE_ok [OF snd inv Some al k key])
    have left: "budget env s' n m"
      using C(10,11) budget_new_service [OF rm al snd] by (simp add: budget_def)
    have "rooms_of s' = (rooms_of s)(i := map_option (room_of (mem s')) (Some new))"
      by (rule rooms_update [OF C(3)]) (rule C(8))
    then have rooms: "rooms_of s' = (rooms_of s)(i \<mapsto> new_room env k p)"
      using C(4-7,9) by (simp add: new_room_def room_of_def)
    have "complete s \<longrightarrow> complete s'"
      unfolding complete_rooms rooms by (auto simp: new_room_def fresh_levels_full)
    with C(1,2) rooms Some False left show ?thesis by (auto simp: a_create_def)
  qed
qed

section \<open>Opening\<close>

text \<open>The state after an open: only the calls recorded differ.\<close>

definition open_log :: "rv \<Rightarrow> klog" where
  "open_log r = (case r of
     Inl EBADSLT \<Rightarrow> []
   | Inl e \<Rightarrow> [ReadLock SearchLock, ReadUnlock SearchLock, ModulePut]
   | Inr _ \<Rightarrow> [ReadLock SearchLock, ReadUnlock SearchLock])"

lemma klog_all_rooms [simp]:
  "rooms_of (klog_all cs s) = rooms_of s" "complete (klog_all cs s) = complete s"
  unfolding klog_all_fold by (induction cs arbitrary: s) simp_all

lemma OPEN_eq:
  assumes inv: "kinv s"
  shows "tag_get_OPEN env s k =
    (let r = a_open env (rooms_of s) k in Inr (r, klog_all (open_log r) s))"
proof (cases "k = TAG_IPC_PRIVATE")
  case True
  then show ?thesis by (simp add: tag_get_OPEN_def a_open_def open_log_def)
next
  case False
  let ?s = "klogs (ReadLock SearchLock) s"
  have inv': "kinv ?s" using inv by simp
  show ?thesis
  proof (cases "r_find (rooms_of s) k")
    case None
    with r_find_rooms [OF inv', of k] False show ?thesis
      by (simp add: tag_get_OPEN_def a_open_def open_log_def put_return_def klogs_klog_all)
  next
    case (Some i)
    with r_find_rooms [OF inv', of k] obtain sv where
      sv: "searchTAG_Service_withKey ?s k = Inr (slot s i)" "svc_at s i = Some sv" by auto
    then obtain a where a: "slot s i = Some a" "sv_heap s a = Some sv"
      using svc_at_slot by blast
    have wf: "svc_wf (mem s) i sv" by (rule kinv_wf [OF inv sv(2)])
    have "rooms_of s i = Some (room_of (mem s) sv)" using sv(2) by (simp add: rooms_of_def)
    with False Some sv(1) a wf r_allowed_iff [OF wf, of env "mem s"] show ?thesis
      by (simp add: tag_get_OPEN_def a_open_def open_log_def put_return_def klogs_klog_all svc_wf_def Let_def)
  qed
qed

section \<open>The whole call\<close>

lemma tag_get_refines_aux:
  assumes snd: "env_sound env" and inv: "kinv s" and rm: "budget env s (levelDeep + n) (Suc m)"
  shows "\<exists>r s'. tag_get env s k command p = Inr (r, s') \<and> kinv s' \<and> (complete s \<longrightarrow> complete s') \<and>
    budget env s' n m \<and>
    (r, rooms_of s') = a_get env (rooms_of s) k command p"
proof -
  let ?s = "klogs TryModuleGet s"
  have inv': "kinv ?s" and rm': "budget env ?s (levelDeep + n) (Suc m)" using inv rm by simp_all
  note left = budget_less [OF rm]
  consider "\<not> module_live env"
    | "module_live env" "permAmmisible p \<noteq> 0 \<or> keyAmmissible k \<noteq> 0 \<or> command \<noteq> CREATE \<and> command \<noteq> OPEN"
    | "module_live env" "permAmmisible p = 0" "keyAmmissible k = 0" "command = CREATE"
    | "module_live env" "permAmmisible p = 0" "keyAmmissible k = 0" "command = OPEN"
    by blast
  then show ?thesis
  proof cases
    case 1
    with inv left show ?thesis by (simp add: tag_get_def a_get_def)
  next
    case 2
    with inv left show ?thesis
      by (auto simp: tag_get_def a_get_def put_return_def Let_def permAmmisible_def keyAmmissible_def
          split: if_splits)
  next
    case 3
    then have "k \<noteq> 0" "p = OPEN_ROOM \<or> p = PRIVATE_ROOM"
      by (auto simp: permAmmisible_def keyAmmissible_def split: if_splits)
    with CREATE_refines [OF snd inv' rm', of k p] 3 show ?thesis
      by (auto simp: tag_get_def a_get_def Let_def)
  next
    case 4
    then have "k \<noteq> 0" "p = OPEN_ROOM \<or> p = PRIVATE_ROOM" "command \<noteq> CREATE"
      by (auto simp: permAmmisible_def keyAmmissible_def tag_macros split: if_splits)
    with 4 inv' left show ?thesis
      by (auto simp: tag_get_def a_get_def OPEN_eq [OF inv'] Let_def)
  qed
qed

end
