(* ===== verification/SendCorrect.thy ===== *)
theory SendCorrect
  imports GetCorrect
begin

text \<open>\<^verbatim>\<open>tag_send\<close>: every outcome, and that it implements \<open>a_send\<close> while memory lasts.\<close>

section \<open>Writing a service back\<close>

lemma set_levels_mem [simp]: "mem (set_levels a sv l s) = mem s"
  by (simp add: set_levels_def)

lemma set_levels_twice [simp]:
  "set_levels a sv l (set_levels a sv k s) = set_levels a sv l s"
  by (simp add: set_levels_def)

lemma dom_set_levels: "sv_heap s a = Some sv \<Longrightarrow> dom (sv_heap (set_levels a sv l (s\<lparr>mem := m\<rparr>))) = dom (sv_heap s)"
  by (auto simp: set_levels_def)

lemma klogs_set_levels: "klogs c (set_levels a sv l s) = set_levels a sv l (klogs c s)"
  by (simp add: set_levels_def klogs_def)

text \<open>The state after a send that stored its message.\<close>

definition woken :: "nat \<Rightarrow> rcu_list \<Rightarrow> rcu_list" where
  "woken j l = (if waitqueue_active l j then wake_up_all j (l\<lparr>ready := (ready l)[j := 1]\<rparr>) else l)"

definition wake_log :: "addr \<Rightarrow> nat \<Rightarrow> rcu_list \<Rightarrow> klog" where
  "wake_log a j l = (if waitqueue_active l j then [WakeUpAll a j] else [])"

lemma woken_head [simp]: "head (woken j l) = head l"
  by (simp add: woken_def wake_up_all_def)

lemma quiet_woken [simp]: "quiet l \<Longrightarrow> quiet (woken j l)"
  by (simp add: woken_def wake_up_all_def quiet_def)

lemma sleepers_woken:
  assumes "quiet l"
  shows "sleepers (woken j l) = filter (\<lambda>i. i \<noteq> j) (sleepers l)"
proof -
  have "waitqueue_active (woken j l) i \<longleftrightarrow> waitqueue_active l i \<and> i \<noteq> j" if "i < levelDeep" for i
    using assms that by (cases "i = j") (auto simp: woken_def wake_up_all_def waitqueue_active_def quiet_def)
  then show ?thesis by (auto simp: sleepers_def intro!: filter_cong)
qed

lemma sleepers_same_queues: "same_queues l l' \<Longrightarrow> sleepers l' = sleepers l"
  unfolding same_queues_def sleepers_def waitqueue_active_def by simp

section \<open>Storing at a level\<close>

text \<open>The replacement of a level that is there, as the call sees it.\<close>

lemma replace_stored:
  assumes snd: "env_sound env" and ok: "rcu_ok (mem s) (levels sv)" and lv: "msgs s sv level \<noteq> None"
    and al: "kmalloc_element env (el_heap (mem s)) \<noteq> None"
  obtains l m where
    "rcu_list_replace (kmalloc_element env) (ListLock a) (levels sv) level buf sz (mem s) = Inr (1, l, m)"
    "rcu_ok m l" "others_kept rcu_ok rcu_view rcu_foot (mem s) (levels sv) m l"
    "rcu_view m l = (rcu_view (mem s) (levels sv))(level \<mapsto> (buf, sz))"
    "klog m = klog (mem s) @ [WriteLock (ListLock a), WriteUnlock (ListLock a)]"
    "\<And>j. alloc_room (kmalloc_element env) (el_heap (mem s)) (Suc j) \<Longrightarrow>
       alloc_room (kmalloc_element env) (el_heap m) (Suc j)"
    "same_queues (levels sv) l"
proof -
  from snd have snd': "alloc_sound (kmalloc_element env)" by (simp add: env_sound_def)
  obtain c l m where R: "rcu_list_replace (kmalloc_element env) (ListLock a) (levels sv) level buf sz (mem s)
      = Inr (c, l, m)" "writer_ok (kmalloc_element env) (ListLock a) (levels sv) level buf sz (mem s) c l m"
     "kmalloc_element env (el_heap (mem s)) \<noteq> None \<longrightarrow> c = 1"
     "\<And>j. alloc_room (kmalloc_element env) (el_heap (mem s)) (Suc j) \<Longrightarrow>
        alloc_room (kmalloc_element env) (el_heap m) (Suc j)"
    using rcu_replace_ok [OF snd' ok, of level "ListLock a" buf sz] lv unfolding msgs_def by blast
  from R(3) al have c: "c = 1" by simp
  show thesis
    by (rule that [OF R(1) [unfolded c] _ _ _ _ R(4) replace_queues [OF R(1)]])
      (use R(2) c in \<open>auto simp: writer_ok_def\<close>)
qed

text \<open>The service after its level \<open>j\<close> was given a message and its sleepers were woken.\<close>

lemma woken_service:
  assumes wf: "svc_wf (mem s) i sv" and j: "level_ix level = Some j"
    and sz: "unat sz \<le> length buf" "sz \<le> MAX_MESSAGE_SIZE"
    and W: "rcu_ok m l" "others_kept rcu_ok rcu_view rcu_foot (mem s) (levels sv) m l"
      "rcu_view m l = (rcu_view (mem s) (levels sv))(level \<mapsto> (buf, sz))"
      "same_queues (levels sv) l"
    and m': "el_heap m' = el_heap m"
  defines "new \<equiv> sv\<lparr>levels := woken j l\<rparr>"
  shows "svc_wf m' i new" "others_kept rcu_ok rcu_view rcu_foot (mem s) (levels sv) m' (woken j l)"
    "room_of m' new = (room_of (mem s) sv)
       \<lparr>r_msg := (rcu_view (mem s) (levels sv))(level \<mapsto> (buf, sz)),
         r_sleep := filter (\<lambda>i. i \<noteq> j) (sleepers (levels sv))\<rparr>"
    "waitqueue_active (levels sv) j \<longrightarrow> ready (levels new) ! j = 1"
proof -
  have jlt: "j < levelDeep" using level_ix_Some [OF j] by simp
  have logs: "rcu_view m' = rcu_view m" "rcu_ok m' = rcu_ok m" "rcu_foot m' = rcu_foot m"
    by (rule rcu_same_heap, simp add: m')+
  have ql: "quiet l" using W(1) by (simp add: rcu_ok_def)
  note H = rcu_same_head [of "woken j l" l, OF woken_head]
  have view: "rcu_view m' (woken j l) = (rcu_view (mem s) (levels sv))(level \<mapsto> (buf, sz))"
    unfolding logs H(1) W(3) ..
  show "svc_wf m' i new"
    unfolding new_def svc_wf_def logs using wf sz j H(3) [of m] ql W(1) view [unfolded logs]
    by (auto simp: svc_wf_def)
  show "others_kept rcu_ok rcu_view rcu_foot (mem s) (levels sv) m' (woken j l)"
    using others_kept_trans [OF W(2) H(4)] unfolding logs others_kept_def by blast
  show "room_of m' new = (room_of (mem s) sv)
       \<lparr>r_msg := (rcu_view (mem s) (levels sv))(level \<mapsto> (buf, sz)),
         r_sleep := filter (\<lambda>i. i \<noteq> j) (sleepers (levels sv))\<rparr>"
    using view sleepers_woken [OF ql] sleepers_same_queues [OF W(4)] by (simp add: new_def room_of_def)
  show "waitqueue_active (levels sv) j \<longrightarrow> ready (levels new) ! j = 1"
    using W(4) ql jlt
    by (auto simp: new_def woken_def wake_up_all_def same_queues_def waitqueue_active_def quiet_def)
qed

lemma send_level_stored:
  assumes snd: "env_sound env" and inv: "kinv s" and sl: "slot s i = Some a" and sv: "sv_heap s a = Some sv"
    and lv: "msgs s sv level \<noteq> None" and j: "level_ix level = Some j"
    and sz: "unat sz \<le> length buf" "sz \<le> MAX_MESSAGE_SIZE"
  shows "(\<exists>s'. send_level env s a sv level buf sz = Inr (Inr 0, s') \<and> kinv s' \<and>
      (\<exists>new. svc_at s' = (svc_at s)(i \<mapsto> new) \<and>
         room_of (mem s') new = (room_of (mem s) sv)
           \<lparr>r_msg := (rcu_view (mem s) (levels sv))(level \<mapsto> (buf, sz)),
             r_sleep := filter (\<lambda>i. i \<noteq> j) (sleepers (levels sv))\<rparr> \<and>
         (waitqueue_active (levels sv) j \<longrightarrow> ready (levels new) ! j = 1)) \<and>
      (\<forall>k x. svc_at s k = Some x \<longrightarrow> k \<noteq> i \<longrightarrow> rcu_view (mem s') (levels x) = rcu_view (mem s) (levels x)) \<and>
      klog (mem s') = klog (mem s) @ [WriteLock (ListLock a), WriteUnlock (ListLock a)] @
        wake_log a j (levels sv) @ [ModulePut] \<and>
      (\<forall>n m. budget env s (Suc n) m \<longrightarrow> budget env s' (Suc n) m)) \<or>
    kmalloc_element env (el_heap (mem s)) = None \<and>
      send_level env s a sv level buf sz = Inr (Inl EBADMSG, klogs ModulePut s)"
proof -
  have at: "svc_at s i = Some sv" using sl sv by (simp add: svc_at_def)
  have wf: "svc_wf (mem s) i sv" by (rule kinv_wf [OF inv at])
  have ok: "rcu_ok (mem s) (levels sv)" using wf by (simp add: svc_wf_def)
  have same: "set_levels a sv (levels sv) s = s" using sv by (simp add: set_levels_def fun_upd_idem)
  show ?thesis
  proof (cases "kmalloc_element env (el_heap (mem s)) = None")
    case True
    then show ?thesis using same by (simp add: send_level_def rcu_list_replace_def put_return_def)
  next
    case False
    obtain l m where R:
      "rcu_list_replace (kmalloc_element env) (ListLock a) (levels sv) level buf sz (mem s) = Inr (1, l, m)"
      and W: "rcu_ok m l" "others_kept rcu_ok rcu_view rcu_foot (mem s) (levels sv) m l"
        "rcu_view m l = (rcu_view (mem s) (levels sv))(level \<mapsto> (buf, sz))" "same_queues (levels sv) l"
      and log: "klog m = klog (mem s) @ [WriteLock (ListLock a), WriteUnlock (ListLock a)]"
      and left: "\<And>j. alloc_room (kmalloc_element env) (el_heap (mem s)) (Suc j) \<Longrightarrow>
        alloc_room (kmalloc_element env) (el_heap m) (Suc j)"
      by (rule replace_stored [where a = a and buf = buf and sz = sz, OF snd ok lv False]) blast
    let ?l = "woken j l" and ?m = "m\<lparr>klog := klog m @ wake_log a j (levels sv) @ [ModulePut]\<rparr>"
    let ?s = "set_levels a sv ?l (s\<lparr>mem := ?m\<rparr>)"
    have em: "el_heap ?m = el_heap m" and ms: "mem ?s = ?m" by simp_all
    note N = woken_service [where m' = ?m, OF wf j sz W em]
    note U = update_levels [OF inv sl sv N(2,1)]
    have run: "send_level env s a sv level buf sz = Inr (Inr 0, ?s)"
      using R j W(4)
      by (simp add: send_level_def put_return_def Let_def woken_def wake_log_def klogs_set_levels
          same_queues_def waitqueue_active_def) (simp add: set_levels_def klogs_def logk_def)
    have "rcu_view (mem ?s) (levels x) = rcu_view (mem s) (levels x)"
      if "svc_at s k = Some x" "k \<noteq> i" for k x
      using others_kept_svc(2) [OF N(2) kinv_wf [OF inv that(1)]] kinv_disjoint [OF inv at that(1)] that(2)
      by simp
    moreover have "klog (mem ?s) = klog (mem s) @ [WriteLock (ListLock a), WriteUnlock (ListLock a)] @
        wake_log a j (levels sv) @ [ModulePut]" using log by simp
    moreover have "budget env ?s (Suc n) m'" if "budget env s (Suc n) m'" for n m'
      using that left [of n] dom_set_levels [OF sv] by (simp add: budget_def alloc_room_def)
    moreover have "room_of (mem ?s) (sv\<lparr>levels := ?l\<rparr>) = (room_of (mem s) sv)
        \<lparr>r_msg := (rcu_view (mem s) (levels sv))(level \<mapsto> (buf, sz)),
          r_sleep := filter (\<lambda>i. i \<noteq> j) (sleepers (levels sv))\<rparr>"
      unfolding ms by (rule N(3))
    ultimately show ?thesis using run U(1,2) N(4) by blast
  qed
qed

text \<open>No node for the level: the message is not stored, and when \<^verbatim>\<open>kmalloc\<close> answered memory the
  write lock of the list is left held.\<close>

lemma send_level_missing:
  assumes snd: "env_sound env" and inv: "kinv s" and sl: "slot s i = Some a" and sv: "sv_heap s a = Some sv"
    and lv: "msgs s sv level = None"
  shows "\<exists>s'. send_level env s a sv level buf sz = Inr (Inl EBADMSG, s') \<and> kinv s' \<and>
    svc_at s' = svc_at s \<and> rooms_of s' = rooms_of s \<and>
    klog (mem s') = klog (mem s) @
      (if kmalloc_element env (el_heap (mem s)) = None then [] else [WriteLock (ListLock a)]) @ [ModulePut] \<and>
    (\<forall>n m. budget env s (Suc n) m \<longrightarrow> budget env s' n m)"
proof -
  from snd have snd': "alloc_sound (kmalloc_element env)" by (simp add: env_sound_def)
  have at: "svc_at s i = Some sv" using sl sv by (simp add: svc_at_def)
  have wf: "svc_wf (mem s) i sv" by (rule kinv_wf [OF inv at])
  have ok: "rcu_ok (mem s) (levels sv)" using wf by (simp add: svc_wf_def)
  obtain m where R: "rcu_list_replace (kmalloc_element env) (ListLock a) (levels sv) level buf sz (mem s)
        = Inr (0, levels sv, m)" "rcu_ok m (levels sv)" "rcu_view m (levels sv) = rcu_view (mem s) (levels sv)"
      "others_kept rcu_ok rcu_view rcu_foot (mem s) (levels sv) m (levels sv)"
      "if kmalloc_element env (el_heap (mem s)) = None then m = mem s
       else klog m = klog (mem s) @ [WriteLock (ListLock a)]"
      "\<And>j. alloc_room (kmalloc_element env) (el_heap (mem s)) (Suc j) \<Longrightarrow>
         alloc_room (kmalloc_element env) (el_heap m) j"
    using rcu_replace_missing [OF snd' ok] lv unfolding msgs_def by metis
  let ?s = "set_levels a sv (levels sv) (s\<lparr>mem := m\<rparr>)"
  have wf': "svc_wf m i (sv\<lparr>levels := levels sv\<rparr>)" using wf R(2,3) by (simp add: svc_wf_def)
  note U = update_levels [OF inv sl sv R(4) wf']
  have at': "svc_at ?s = svc_at s" using U(2) at by (simp add: fun_upd_idem)
  have "rcu_view m (levels x) = rcu_view (mem s) (levels x)" if "svc_at s k = Some x" for k x
  proof (cases "k = i")
    case True
    with that at R(3) show ?thesis by simp
  next
    case False
    then show ?thesis
      using others_kept_svc(2) [OF R(4) kinv_wf [OF inv that]] kinv_disjoint [OF inv at that] by simp
  qed
  then have "rooms_of ?s = rooms_of s"
    unfolding rooms_of_def at' by (auto simp: fun_eq_iff room_of_def map_option_case split: option.split)
  moreover have "send_level env s a sv level buf sz = Inr (Inl EBADMSG, klogs ModulePut ?s)"
    using R(1) by (simp add: send_level_def put_return_def)
  moreover have "budget env ?s n m'" if "budget env s (Suc n) m'" for n m'
    using that R(6) [of n] dom_set_levels [OF sv] by (simp add: budget_def alloc_room_def)
  ultimately show ?thesis using U(1) at' R(5) by (auto split: if_splits)
qed

section \<open>The whole call\<close>

definition send_prefix :: "size_t \<Rightarrow> klog" where
  "send_prefix sz = [TryModuleGet, Vzalloc sz, ReadLock SearchLock, ReadUnlock SearchLock]"

lemma tag_send_eq:
  assumes inv: "kinv s" and env: "module_live env" "vzalloc_ok env \<or> sz = 0" and sz: "sz \<le> MAX_MESSAGE_SIZE"
  shows "tag_send env s tag level (Some ubuf) sz =
    (if length ubuf < unat sz then Inr (Inl ENODATA, klog_all [TryModuleGet, Vzalloc sz, ModulePut] s)
     else case slot s (unat tag) of
       None \<Rightarrow> Inr (Inl ENOMSG, klog_all (send_prefix sz @ [ModulePut]) s)
     | Some a \<Rightarrow>
         let sv = the (sv_heap s a)
         in if \<not> validServiceOperation env sv then Inr (Inl EBADRQC, klog_all (send_prefix sz @ [Vfree sz, ModulePut]) s)
            else if sint level \<ge> int levelDeep then Inr (Inl EBADSLT, klog_all (send_prefix sz @ [Vfree sz, ModulePut]) s)
            else send_level env (klog_all (send_prefix sz) s) a sv level (take (unat sz) ubuf) sz)"
proof -
  have inv': "kinv (klog_all [TryModuleGet, Vzalloc sz, ReadLock SearchLock] s)" using inv by simp
  have guard: "\<not> MAX_MESSAGE_SIZE < sz" using sz by simp
  have vz: "(if \<not> vzalloc_ok env \<and> sz > 0 then x else y) = y" for x y :: "(rv \<times> kstate) res"
    using env(2) by auto
  show ?thesis
  proof (cases "slot s (unat tag)")
    case None
    then show ?thesis
      using env(1) guard search_tag [OF inv', of tag]
      by (simp only: tag_send_def vz) (simp add: put_return_def klogs_klog_all send_prefix_def)
  next
    case (Some a)
    with kinv_slot [OF inv Some] obtain sv where sv: "sv_heap s a = Some sv" by auto
    with Some show ?thesis
      using env(1) guard search_tag [OF inv', of tag]
      by (simp only: tag_send_def vz) (simp add: put_return_def klogs_klog_all send_prefix_def Let_def)
  qed
qed

lemma tag_send_early:
  "\<not> module_live env \<Longrightarrow> tag_send env s tag level buffer sz = Inr (Inl ENOSYS, s)"
  "module_live env \<Longrightarrow> buffer = None \<or> MAX_MESSAGE_SIZE < sz \<Longrightarrow>
     tag_send env s tag level buffer sz = Inr (Inl EXFULL, klog_all [TryModuleGet, ModulePut] s)"
  by (cases buffer; auto simp: tag_send_def put_return_def klogs_klog_all Let_def)+

lemma rooms_at: "svc_at s i = Some sv \<Longrightarrow> rooms_of s i = Some (room_of (mem s) sv)"
  by (simp add: rooms_of_def)

lemma level_ix_negative: "level_ix level = None \<Longrightarrow> svc_wf m i sv \<Longrightarrow> rcu_view m (levels sv) level = None"
  unfolding svc_wf_def by blast

lemma budget_Suc: "budget env s (Suc n) m \<Longrightarrow> budget env s n m"
  by (erule budget_le) simp_all

text \<open>A send that passes every check, from the replacement in the list on.\<close>

lemma send_level_refines:
  assumes snd: "env_sound env" and inv: "kinv s" and cmp: "complete s"
    and rm: "budget env s (Suc n) m"
    and Some: "slot s (unat tag) = Some a" and sv: "sv_heap s a = Some sv"
    and at: "svc_at s (unat tag) = Some sv" and al: "kmalloc_element env (el_heap (mem s)) \<noteq> None"
    and ok: "module_live env" "buffer = Some ubuf" "sz \<le> MAX_MESSAGE_SIZE"
    and len: "\<not> length ubuf < unat sz"
    and go: "\<not> (\<not> validServiceOperation env sv \<or> sint level \<ge> int levelDeep)"
  shows "\<exists>r s'. send_level env (klog_all (send_prefix sz) s) a sv level (take (unat sz) ubuf) sz = Inr (r, s') \<and>
    kinv s' \<and> complete s' \<and> budget env s' n m \<and>
    (r, rooms_of s') = a_send env (rooms_of s) tag level buffer sz"
proof -
  let ?s = "klog_all (send_prefix sz) s"
  let ?buf = "take (unat sz) ubuf"
  note wf = kinv_wf [OF inv at]
  note room = rooms_at [OF at]
  have st: "kinv ?s" "slot ?s (unat tag) = Some a" "sv_heap ?s a = Some sv" "complete ?s"
      "kmalloc_element env (el_heap (mem ?s)) \<noteq> None" "svc_at ?s = svc_at s" "rooms_of ?s = rooms_of s"
      "rcu_view (mem ?s) = rcu_view (mem s)" "room_of (mem ?s) = room_of (mem s)"
    using inv Some sv cmp al
    by (simp_all add: rcu_same_heap [of "mem ?s" "mem s"] room_of_def fun_eq_iff)
  show ?thesis
  proof (cases "level_ix level")
    case None
    have "msgs ?s sv level = None"
      using level_ix_negative [OF None wf] st(8) by (simp add: msgs_def)
    from send_level_missing [OF snd st(1-3) this, of ?buf sz]
    obtain s' where "send_level env ?s a sv level ?buf sz = Inr (Inl EBADMSG, s')" "kinv s'"
      "rooms_of s' = rooms_of s" "budget env s' n m" using st(7) rm by auto
    with None go len ok room cmp r_allowed_iff [OF wf, of env "mem s"] show ?thesis
      by (auto simp: a_send_def complete_rooms)
  next
    case lv: (Some j)
    have "msgs ?s sv level \<noteq> None"
      using st(4,6) at level_ix_Some [OF lv] by (auto simp: complete_def)
    from send_level_stored [OF snd st(1-3) this lv, where buf = ?buf and sz = sz] len ok(3) st(5)
    obtain s' new where S: "send_level env ?s a sv level ?buf sz = Inr (Inr 0, s')" "kinv s'"
      "svc_at s' = (svc_at s)(unat tag \<mapsto> new)"
      "room_of (mem s') new = (room_of (mem s) sv)
         \<lparr>r_msg := (rcu_view (mem s) (levels sv))(level \<mapsto> (?buf, sz)),
           r_sleep := filter (\<lambda>i. i \<noteq> j) (sleepers (levels sv))\<rparr>"
      "\<And>k x. svc_at s k = Some x \<Longrightarrow> k \<noteq> unat tag \<Longrightarrow>
         rcu_view (mem s') (levels x) = rcu_view (mem s) (levels x)"
      "budget env s' n m"
      using st(6,8,9) rm budget_Suc [of env _ n m] by auto
    have R: "rooms_of s' = (rooms_of s)(unat tag := map_option (room_of (mem s')) (Some new))"
      by (rule rooms_update [OF S(3)]) (rule S(5))
    have lvs: "\<forall>j < levelDeep. rcu_view (mem s) (levels sv) (of_nat j) \<noteq> None"
      using cmp at unfolding complete_def msgs_def by blast
    have "complete s'"
      using cmp lvs unfolding complete_rooms R
      by (auto simp: S(4) simp del: not_None_eq split: if_splits)
    moreover have "(Inr 0, rooms_of s') = a_send env (rooms_of s) tag level buffer sz"
      using ok len room go lv r_allowed_iff [OF wf, of env "mem s"] R S(4)
      by (simp add: a_send_def)
    ultimately show ?thesis using S(1,2,6) by auto
  qed
qed

lemma tag_send_refines_aux:
  assumes snd: "env_sound env" and inv: "kinv s" and cmp: "complete s"
    and rm: "budget env s (Suc n) m" and vz: "vzalloc_ok env \<or> sz = 0"
  shows "\<exists>r s'. tag_send env s tag level buffer sz = Inr (r, s') \<and> kinv s' \<and> complete s' \<and>
    budget env s' n m \<and>
    (r, rooms_of s') = a_send env (rooms_of s) tag level buffer sz"
proof (cases "\<not> module_live env \<or> buffer = None \<or> MAX_MESSAGE_SIZE < sz")
  case True
  then show ?thesis
    using inv cmp tag_send_early budget_Suc [OF rm]
    by (cases "module_live env") (auto simp: a_send_def split: option.splits)
next
  case False
  then obtain ubuf where ok: "module_live env" "buffer = Some ubuf" "sz \<le> MAX_MESSAGE_SIZE" by auto
  from rm have al: "kmalloc_element env (el_heap (mem s)) \<noteq> None"
    using alloc_room_Some [of "kmalloc_element env" "el_heap (mem s)" n] by (auto simp: budget_def)
  note E = tag_send_eq [OF inv ok(1) vz ok(3), of tag level ubuf]
  show ?thesis
  proof (cases "length ubuf < unat sz")
    case True
    with E inv cmp ok budget_Suc [OF rm] show ?thesis by (simp add: a_send_def)
  next
    case len: False
    show ?thesis
    proof (cases "slot s (unat tag)")
      case None
      then have "rooms_of s (unat tag) = None" using rooms_of_None [OF inv] by simp
      with None E len inv cmp ok budget_Suc [OF rm] show ?thesis by (simp add: a_send_def)
    next
      case (Some a)
      with kinv_slot [OF inv Some] obtain sv where
        sv: "sv_heap s a = Some sv" and at: "svc_at s (unat tag) = Some sv" by auto
      note wf = kinv_wf [OF inv at]
      note room = rooms_at [OF at]
      show ?thesis
      proof (cases "\<not> validServiceOperation env sv \<or> sint level \<ge> int levelDeep")
        case True
        with Some sv room E len inv cmp ok r_allowed_iff [OF wf, of env "mem s"] budget_Suc [OF rm]
        show ?thesis
          by (auto simp: a_send_def Let_def)
      next
        case go: False
        let ?s = "klog_all (send_prefix sz) s"
        let ?buf = "take (unat sz) ubuf"
        have run: "tag_send env s tag level buffer sz = send_level env ?s a sv level ?buf sz"
          using go E len Some sv ok by (simp add: Let_def)
        show ?thesis unfolding run by (rule send_level_refines [OF snd inv cmp rm Some sv at al ok len go])
      qed
    qed
  qed
qed

end
