(* ===== verification/CtlCorrect.thy ===== *)
theory CtlCorrect
  imports SendCorrect
begin

text \<open>\<^verbatim>\<open>tag_ctl\<close>: the outcomes of \<^verbatim>\<open>AWAKE_ALL\<close> and \<^verbatim>\<open>REMOVE\<close> with the calls recorded, and that
  both implement \<open>a_ctl\<close>.\<close>

section \<open>AWAKE_ALL\<close>

lemma fill_step:
  "n < length xs \<Longrightarrow> (replicate n x @ drop n xs)[n := x] = replicate (Suc n) x @ drop (Suc n) xs"
  by (simp add: list_update_append Cons_nth_drop_Suc [symmetric] replicate_append_same [symmetric])

text \<open>After the loop no level has a sleeper and every wake flag is set.\<close>

definition all_awake :: "rcu_list \<Rightarrow> rcu_list" where
  "all_awake l = l\<lparr>readerQueue := replicate levelDeep [], ready := replicate levelDeep 1\<rparr>"

lemma awake_fold:
  assumes "quiet l" "n \<le> levelDeep"
  shows "fold (awake_level a) [0..<n] (l, m) =
    (l\<lparr>readerQueue := replicate n [] @ drop n (readerQueue l),
       ready := replicate n 1 @ drop n (ready l)\<rparr>,
     m\<lparr>klog := klog m @ map (WakeUpAll a) [0..<n]\<rparr>)"
  using assms(2)
proof (induction n)
  case 0
  then show ?case by simp
next
  case (Suc n)
  then have "n < length (readerQueue l)" "n < length (ready l)"
    using assms(1) by (simp_all add: quiet_def)
  with Suc show ?case
    by (simp add: awake_level_def wake_up_all_def logk_def fill_step del: replicate_Suc)
qed

lemma awake_all:
  "quiet l \<Longrightarrow> fold (awake_level a) [0..<levelDeep] (l, m) =
     (all_awake l, m\<lparr>klog := klog m @ map (WakeUpAll a) [0..<levelDeep]\<rparr>)"
  using awake_fold [of l levelDeep a m] by (simp add: all_awake_def quiet_def)

lemma all_awake_simps [simp]:
  "head (all_awake l) = head l" "quiet l \<Longrightarrow> quiet (all_awake l)" "sleepers (all_awake l) = []"
  "ready (all_awake l) = replicate levelDeep 1"
  by (simp_all add: all_awake_def quiet_def sleepers_def waitqueue_active_def)

definition awake_log :: "addr \<Rightarrow> klog" where
  "awake_log a = [ReadLock SearchLock, ReadUnlock SearchLock] @ map (WakeUpAll a) [0..<levelDeep] @
     [WriteUnlock SearchLock, ModulePut]"

lemma search_tag_klogs:
  "kinv s \<Longrightarrow> searchTAG_Service_withTag (klogs c s) t = Inr (slot s (unat t))"
  "kinv s \<Longrightarrow> searchTAG_Service_withTag (klog_all cs s) t = Inr (slot s (unat t))"
  by (simp_all add: search_tag)

lemma AWAKE_ALL_refused:
  assumes "kinv s"
  shows "slot s (unat tag) = None \<Longrightarrow> tag_ctl_TBDE_AWAKE_ALL env s tag =
      Inr (Inl ENOMSG, klog_all [ReadLock SearchLock, ReadUnlock SearchLock, ModulePut] s)"
    and "svc_at s (unat tag) = Some sv \<Longrightarrow> \<not> validServiceOperation env sv \<Longrightarrow>
      tag_ctl_TBDE_AWAKE_ALL env s tag =
      Inr (Inl EBADRQC, klog_all [ReadLock SearchLock, ReadUnlock SearchLock, ModulePut] s)"
  using svc_at_slot [of s "unat tag" sv]
  by (auto simp: tag_ctl_TBDE_AWAKE_ALL_def search_tag_klogs [OF assms] put_return_def klogs_klog_all
      Let_def)

lemma AWAKE_ALL_ok:
  assumes inv: "kinv s" and sl: "slot s (unat tag) = Some a" and sv: "sv_heap s a = Some sv"
    and val: "validServiceOperation env sv"
  shows "\<exists>s'. tag_ctl_TBDE_AWAKE_ALL env s tag = Inr (Inr 0, s') \<and> kinv s' \<and>
    svc_at s' = (svc_at s)(unat tag \<mapsto> sv\<lparr>levels := all_awake (levels sv)\<rparr>) \<and>
    rcu_view (mem s') = rcu_view (mem s) \<and> klog (mem s') = klog (mem s) @ awake_log a \<and>
    budget env s' = budget env s"
proof -
  have at: "svc_at s (unat tag) = Some sv" using sl sv by (simp add: svc_at_def)
  have wf: "svc_wf (mem s) (unat tag) sv" by (rule kinv_wf [OF inv at])
  have q: "quiet (levels sv)" "rcu_ok (mem s) (levels sv)" using wf by (auto simp: svc_wf_def rcu_ok_def)
  let ?l = "all_awake (levels sv)"
  let ?m = "(mem s)\<lparr>klog := klog (mem s) @ awake_log a\<rparr>"
  have logs: "rcu_view ?m = rcu_view (mem s)" "rcu_ok ?m = rcu_ok (mem s)" "rcu_foot ?m = rcu_foot (mem s)"
    by (rule rcu_same_heap, simp)+
  note H = rcu_same_head [of ?l "levels sv", OF all_awake_simps(1)]
  have wf': "svc_wf ?m (unat tag) (sv\<lparr>levels := ?l\<rparr>)"
    using wf H(1,3) [of "mem s"] q unfolding svc_wf_def logs by simp
  have kept: "others_kept rcu_ok rcu_view rcu_foot (mem s) (levels sv) ?m ?l"
    using H(4) [of "mem s"] unfolding others_kept_def logs by blast
  note U = update_levels [OF inv sl sv kept wf']
  have run: "tag_ctl_TBDE_AWAKE_ALL env s tag = Inr (Inr 0, set_levels a sv ?l (s\<lparr>mem := ?m\<rparr>))"
    using sl sv val awake_all [OF q(1)]
    by (simp add: tag_ctl_TBDE_AWAKE_ALL_def search_tag_klogs [OF inv] put_return_def Let_def)
      (simp add: set_levels_def klogs_def logk_def awake_log_def)
  show ?thesis
    by (intro exI [of _ "set_levels a sv ?l (s\<lparr>mem := ?m\<rparr>)"])
      (use run U logs dom_set_levels [OF sv] in
        \<open>simp add: set_levels_mem budget_def alloc_room_def fun_eq_iff\<close>)
qed

section \<open>REMOVE\<close>

lemma sleepers_empty: "list_ex (waitqueue_active l) [0..<levelDeep] \<longleftrightarrow> sleepers l \<noteq> []"
  by (auto simp: sleepers_def list_ex_iff filter_empty_conv)

text \<open>Both refusals after the permission check return with the search lock held for reading,
  the second with the reference to the module too.\<close>

lemma REMOVE_refused:
  assumes "kinv s"
  shows "slot s (unat tag) = None \<Longrightarrow> tag_ctl_TBDE_REMOVE env s tag =
      Inr (Inl ENODATA, klog_all [ReadLock SearchLock, ReadUnlock SearchLock, ModulePut] s)"
    and "svc_at s (unat tag) = Some sv \<Longrightarrow> \<not> validServiceOperation env sv \<Longrightarrow>
      tag_ctl_TBDE_REMOVE env s tag = Inr (Inl EBADRQC, klog_all [ReadLock SearchLock, ModulePut] s)"
    and "svc_at s (unat tag) = Some sv \<Longrightarrow> validServiceOperation env sv \<Longrightarrow> sleepers (levels sv) \<noteq> [] \<Longrightarrow>
      tag_ctl_TBDE_REMOVE env s tag = Inr (Inl EADDRINUSE, klog_all [ReadLock SearchLock] s)"
  using svc_at_slot [of s "unat tag" sv]
  by (auto simp: tag_ctl_TBDE_REMOVE_def search_tag_klogs [OF assms] put_return_def klogs_klog_all
      Let_def sleepers_empty)

lemma REMOVE_ok:
  assumes snd: "env_sound env" and inv: "kinv s" and sl: "slot s (unat tag) = Some a"
    and sv: "sv_heap s a = Some sv" and val: "validServiceOperation env sv"
    and idle: "sleepers (levels sv) = []" and al: "kmalloc_service env (sv_heap s) = Some b"
  shows "\<exists>s' n. tag_ctl_TBDE_REMOVE env s tag = Inr (Inr 0, s') \<and> kinv s' \<and>
    svc_at s' = (svc_at s)(unat tag := None) \<and> sv_heap s' a = None \<and> Suc (used s') = used s \<and>
    (\<forall>k x. svc_at s k = Some x \<longrightarrow> rcu_view (mem s') (levels x) = rcu_view (mem s) (levels x)) \<and>
    klog (mem s') = klog (mem s) @ [ReadLock SearchLock] @ write_sections (ListLock b) n @
      [ReadUnlock SearchLock, ModulePut] \<and>
    (\<forall>n m. budget env s (levelDeep + n) (Suc m) \<longrightarrow> budget env s' n m)"
proof -
  let ?s = "klogs (ReadLock SearchLock) s"
  have inv': "kinv ?s" using inv by simp
  have at: "svc_at s (unat tag) = Some sv" using sl sv by (simp add: svc_at_def)
  have tag: "unat (sv_tag sv) = unat tag"
    using kinv_wf [OF inv at] by (simp add: svc_wf_def)
  have i: "unat tag < length (slots s)" "slots s ! unat tag = Some a"
    using sl by (auto simp: slot_def split: if_splits)
  have fr: "sv_heap s b = None" using snd al by (auto simp: env_sound_def alloc_sound_def)
  have ab: "a \<noteq> b" using fr sv by auto
  from snd have "alloc_sound (kmalloc_element env)" by (simp add: env_sound_def)
  from rcu.init_fill [OF this, of "ListLock b" "[0..<levelDeep]" "mem ?s"] obtain l m' n where
    f: "list_fill (rcu_list_insert (kmalloc_element env) (ListLock b)) [0..<levelDeep]
          rcu_list_init (mem ?s) = Inr (l, m')"
       "others_kept rcu_ok rcu_view rcu_foot (mem ?s) rcu_list_init m' l"
       "klog m' = klog (mem ?s) @ write_sections (ListLock b) n"
       "\<And>r. alloc_room (kmalloc_element env) (el_heap (mem ?s)) (length [0..<levelDeep] + r) \<Longrightarrow>
          alloc_room (kmalloc_element env) (el_heap m') r"
    by metis
  let ?empty = "(fresh_service env)\<lparr>sv_key := 0, sv_tag := - 1, levels := l\<rparr>"
  let ?t = "?s\<lparr>mem := m', sv_heap := (sv_heap ?s)(b \<mapsto> ?empty, a := None),
      tagServices := Some ((slots ?s)[unat tag := None]), serviceCount := serviceCount ?s - 1\<rparr>"
  have run: "tag_ctl_TBDE_REMOVE env s tag =
      Inr (Inr 0, klogs ModulePut (klogs (ReadUnlock SearchLock) ?t))"
    using sl sv val idle al f(1) i kinv_slots(1) [OF inv] tag
    by (simp add: tag_ctl_TBDE_REMOVE_def search_tag_klogs [OF inv] put_return_def Let_def sleepers_empty)
  have sl': "slot ?s (unat tag) = Some a" and fr': "sv_heap ?s b = None" using sl fr by simp_all
  note R = remove_service [OF inv' sl' fr' f(2), of ?t ?empty, simplified]
  have keep: "rcu_view m' (levels x) = rcu_view (mem s) (levels x)" if "svc_at s k = Some x" for k x
    using init_kept(2) [OF f(2) kinv_wf [OF inv', of k x]] that by simp
  have left: "budget env ?t n m" if b: "budget env s (levelDeep + n) (Suc m)" for n m
  proof -
    have "alloc_room (kmalloc_service env) ((sv_heap s)(b \<mapsto> ?empty)) m"
      by (rule budget_new_service [OF b al snd])
    then have "alloc_room (kmalloc_service env) ((sv_heap s)(b \<mapsto> ?empty, a := None)) m"
      by (rule alloc_room_less) auto
    with b f(4) [of n] show ?thesis by (simp add: budget_def)
  qed
  show ?thesis
    by (intro exI [of _ "klogs ModulePut (klogs (ReadUnlock SearchLock) ?t)"] exI [of _ n])
      (use run R keep f(3) left in simp)
qed

text \<open>No memory for the service built and dropped: an access through a null pointer.\<close>

lemma REMOVE_no_memory:
  assumes "kinv s" "svc_at s (unat tag) = Some sv" "validServiceOperation env sv"
    "sleepers (levels sv) = []" "kmalloc_service env (sv_heap s) = None"
  shows "tag_ctl_TBDE_REMOVE env s tag = Inl Fault"
  using assms svc_at_slot [of s "unat tag" sv]
  by (auto simp: tag_ctl_TBDE_REMOVE_def search_tag_klogs Let_def sleepers_empty)

section \<open>The whole call\<close>

lemma awake_all_refines:
  assumes snd: "env_sound env" and inv: "kinv s" and cmp: "complete s"
    and rm: "budget env s (levelDeep + n) (Suc m)"
    and go: "module_live env" "\<not> sint tag < 0"
  shows "\<exists>r s'. tag_ctl env s tag AWAKE_ALL = Inr (r, s') \<and> kinv s' \<and> complete s' \<and>
    budget env s' n m \<and>
    (r, rooms_of s') = a_ctl env (rooms_of s) tag AWAKE_ALL"
proof -
  let ?s = "klogs TryModuleGet s"
  have inv': "kinv ?s" using inv by simp
  note left = budget_less [OF rm]
  show ?thesis
  proof (cases "svc_at s (unat tag)")
    case None
    then have none: "rooms_of s (unat tag) = None" by (simp add: rooms_of_def)
    then have "slot s (unat tag) = None" using rooms_of_None [OF inv] by simp
    with go none inv cmp left AWAKE_ALL_refused(1) [OF inv', of tag env] show ?thesis
      by (simp add: tag_ctl_def a_ctl_def Let_def)
  next
    case (Some sv)
    then obtain a where a: "slot s (unat tag) = Some a" "sv_heap s a = Some sv" using svc_at_slot by blast
    note wf = kinv_wf [OF inv Some]
    note room = rooms_at [OF Some]
    show ?thesis
    proof (cases "validServiceOperation env sv")
      case False
      with go inv cmp left Some room AWAKE_ALL_refused(2) [OF inv', of tag sv env]
        r_allowed_iff [OF wf, of env "mem s"]
      show ?thesis by (simp add: tag_ctl_def a_ctl_def Let_def)
    next
      case True
      from AWAKE_ALL_ok [OF inv' _ _ True, of tag a] a obtain s' where S:
        "tag_ctl_TBDE_AWAKE_ALL env ?s tag = Inr (Inr 0, s')" "kinv s'"
        "svc_at s' = (svc_at s)(unat tag \<mapsto> sv\<lparr>levels := all_awake (levels sv)\<rparr>)"
        "rcu_view (mem s') = rcu_view (mem s)" "budget env s' = budget env s"
        by (auto simp: fun_eq_iff budget_klogs)
      have rcu: "rcu_view (mem s) (all_awake (levels sv)) = rcu_view (mem s) (levels sv)"
        by (rule rcu_same_head) simp
      have R: "rooms_of s' = (rooms_of s)(unat tag := map_option (room_of (mem s'))
          (Some (sv\<lparr>levels := all_awake (levels sv)\<rparr>)))"
        by (rule rooms_update [OF S(3)]) (simp add: S(4))
      have lvs: "\<forall>j < levelDeep. rcu_view (mem s) (levels sv) (of_nat j) \<noteq> None"
        using cmp Some unfolding complete_def msgs_def by blast
      have "complete s'"
        using cmp lvs unfolding complete_rooms R
        by (auto simp: S(4) rcu simp del: not_None_eq split: if_splits)
      with go S R left room r_allowed_iff [OF wf, of env "mem s"] True show ?thesis
        by (auto simp: tag_ctl_def a_ctl_def Let_def room_of_def rcu)
    qed
  qed
qed

lemma remove_refines:
  assumes snd: "env_sound env" and inv: "kinv s" and cmp: "complete s"
    and rm: "budget env s (levelDeep + n) (Suc m)"
    and go: "module_live env" "\<not> sint tag < 0"
  shows "\<exists>r s'. tag_ctl env s tag REMOVE = Inr (r, s') \<and> kinv s' \<and> complete s' \<and>
    budget env s' n m \<and>
    (r, rooms_of s') = a_ctl env (rooms_of s) tag REMOVE"
proof -
  let ?s = "klogs TryModuleGet s"
  have inv': "kinv ?s" using inv by simp
  note left = budget_less [OF rm]
  have cmd: "REMOVE \<noteq> AWAKE_ALL" by (simp add: tag_macros)
  show ?thesis
  proof (cases "svc_at s (unat tag)")
    case None
    then have none: "rooms_of s (unat tag) = None" by (simp add: rooms_of_def)
    then have "slot s (unat tag) = None" using rooms_of_None [OF inv] by simp
    with go cmd none inv cmp left REMOVE_refused(1) [OF inv', of tag env] show ?thesis
      by (simp add: tag_ctl_def a_ctl_def Let_def)
  next
    case (Some sv)
    then obtain a where a: "slot s (unat tag) = Some a" "sv_heap s a = Some sv" using svc_at_slot by blast
    note allowed = r_allowed_iff [OF kinv_wf [OF inv Some], of env "mem s"]
    note room = rooms_at [OF Some]
    show ?thesis
    proof (cases "\<not> validServiceOperation env sv \<or> sleepers (levels sv) \<noteq> []")
      case True
      with go cmd inv cmp left Some room REMOVE_refused(2,3) [OF inv', of tag sv env] allowed
      show ?thesis by (cases "validServiceOperation env sv") (simp_all add: tag_ctl_def a_ctl_def Let_def)
    next
      case False
      then have val: "validServiceOperation env sv" and idle: "sleepers (levels sv) = []" by auto
      from budget_service [OF rm] obtain b where b: "kmalloc_service env (sv_heap s) = Some b" by auto
      from REMOVE_ok [OF snd inv' _ _ val idle, of tag a b] a b obtain s' where S:
        "tag_ctl_TBDE_REMOVE env ?s tag = Inr (Inr 0, s')" "kinv s'"
        "svc_at s' = (svc_at s)(unat tag := None)"
        "\<And>k x. svc_at s k = Some x \<Longrightarrow> rcu_view (mem s') (levels x) = rcu_view (mem s) (levels x)"
        "budget env s' n m" using rm by auto
      have R: "rooms_of s' = (rooms_of s)(unat tag := map_option (room_of (mem s')) None)"
        by (rule rooms_update [OF S(3)]) (rule S(4))
      have "complete s'"
        using cmp unfolding complete_rooms R by (auto split: if_splits)
      with go cmd S R room allowed val idle show ?thesis
        by (auto simp: tag_ctl_def a_ctl_def Let_def)
    qed
  qed
qed

lemma tag_ctl_refines_aux:
  assumes snd: "env_sound env" and inv: "kinv s" and cmp: "complete s"
    and rm: "budget env s (levelDeep + n) (Suc m)"
  shows "\<exists>r s'. tag_ctl env s tag command = Inr (r, s') \<and> kinv s' \<and> complete s' \<and>
    budget env s' n m \<and>
    (r, rooms_of s') = a_ctl env (rooms_of s) tag command"
proof -
  consider "\<not> module_live env \<or> sint tag < 0 \<or> command \<noteq> AWAKE_ALL \<and> command \<noteq> REMOVE"
    | "module_live env" "\<not> sint tag < 0" "command = AWAKE_ALL"
    | "module_live env" "\<not> sint tag < 0" "command = REMOVE" by blast
  then show ?thesis
  proof cases
    case 1
    with inv cmp budget_less [OF rm] show ?thesis
      by (auto simp: tag_ctl_def a_ctl_def put_return_def Let_def)
  next
    case 2
    with awake_all_refines [OF snd inv cmp rm] show ?thesis by simp
  next
    case 3
    with remove_refines [OF snd inv cmp rm] show ?thesis by simp
  qed
qed

end
