(* ===== verification/ReceiveCorrect.thy ===== *)
theory ReceiveCorrect
  imports CtlCorrect
begin

text \<open>
  \<^verbatim>\<open>tag_receive\<close>: its refusals, the state in which it sleeps, and what it returns once
  woken.  What the other threads do during the sleep is the parameter \<open>wait\<close>; \<open>wait_keeps\<close> is
  what the code relies on: the other calls keep the invariant, they leave a service with a
  sleeper in its entry (\<^verbatim>\<open>REMOVE\<close> answers \<^verbatim>\<open>EADDRINUSE\<close> for it), and the sleep ends, by a signal
  or with the flag of the level raised.
\<close>

section \<open>Refusals\<close>

definition a_receive_check :: "kenv \<Rightarrow> rooms \<Rightarrow> c_int \<Rightarrow> c_int \<Rightarrow> bool \<Rightarrow> size_t \<Rightarrow> errno option" where
  "a_receive_check env R tag level buffer_null sz =
     (if \<not> module_live env then Some ENOSYS
      else if sz > MAX_MESSAGE_SIZE \<or> buffer_null then Some EXFULL
      else case R (unat tag) of
        None \<Rightarrow> Some ENOMSG
      | Some r \<Rightarrow>
          if \<not> r_allowed env r then Some EBADRQC
          else if sint level \<ge> int levelDeep then Some EBADSLT
          else None)"

definition receive_refusal_log :: "errno \<Rightarrow> klog" where
  "receive_refusal_log e =
     (if e = ENOSYS then []
      else if e = EXFULL then [TryModuleGet, ModulePut]
      else [TryModuleGet, ReadLock SearchLock, ReadUnlock SearchLock, ModulePut])"

definition receive_prefix :: klog where
  "receive_prefix = [TryModuleGet, ReadLock SearchLock, ReadUnlock SearchLock]"

lemma receive_refused:
  assumes inv: "kinv s" and chk: "a_receive_check env (rooms_of s) tag level buffer_null sz = Some e"
  shows "tag_receive env cto wait s tag level buffer_null sz =
    Inr (Inl e, [], klog_all (receive_refusal_log e) s)"
proof -
  have inv': "kinv (klogs TryModuleGet s)" using inv by simp
  consider "\<not> module_live env" | "module_live env" "sz > MAX_MESSAGE_SIZE \<or> buffer_null"
    | "module_live env" "\<not> (sz > MAX_MESSAGE_SIZE \<or> buffer_null)" by blast
  then show ?thesis
  proof cases
    case 3
    show ?thesis
    proof (cases "svc_at s (unat tag)")
      case None
      then have none: "rooms_of s (unat tag) = None" by (simp add: rooms_of_def)
      then have "slot s (unat tag) = None" using rooms_of_None [OF inv] by simp
      with none 3 chk show ?thesis
        by (auto simp: tag_receive_def a_receive_check_def search_tag_klogs [OF inv]
            search_tag_klogs [OF inv'] klogs_klog_all receive_refusal_log_def)
    next
      case (Some sv)
      then obtain a where a: "slot s (unat tag) = Some a" "sv_heap s a = Some sv" using svc_at_slot by blast
      have "r_allowed env (room_of (mem s) sv) \<longleftrightarrow> validServiceOperation env sv"
        by (rule r_allowed_iff [OF kinv_wf [OF inv Some]])
      with a 3 chk rooms_at [OF Some] show ?thesis
        by (auto simp: tag_receive_def a_receive_check_def search_tag_klogs [OF inv]
            search_tag_klogs [OF inv'] klogs_klog_all receive_refusal_log_def Let_def split: if_splits)
    qed
  qed (use chk in \<open>auto simp: tag_receive_def a_receive_check_def receive_refusal_log_def klogs_klog_all Let_def\<close>)
qed

section \<open>The sleep\<close>

text \<open>The state in which the thread sleeps: it is counted as a waiter of the level, whose wake
  flag is down.\<close>

definition listening :: "nat \<Rightarrow> rcu_list \<Rightarrow> rcu_list" where
  "listening j l = l\<lparr>ready := (ready l)[j := 0], waiters := (waiters l)[j := waiters l ! j + 1]\<rparr>"

definition receive_sleep :: "addr \<Rightarrow> nat \<Rightarrow> kstate \<Rightarrow> kstate" where
  "receive_sleep a j s = (case sv_heap s a of
     None \<Rightarrow> s
   | Some sv \<Rightarrow> set_levels a sv (listening j (levels sv)) (klog_all receive_prefix s))"

lemma sleepers_cong: "readerQueue l' = readerQueue l \<Longrightarrow> sleepers l' = sleepers l"
  unfolding sleepers_def waitqueue_active_def by simp

lemma listening_simps [simp]:
  "head (listening j l) = head l" "quiet l \<Longrightarrow> quiet (listening j l)"
  "sleepers (listening j l) = sleepers l"
proof -
  show "sleepers (listening j l) = sleepers l" by (rule sleepers_cong) (simp add: listening_def)
qed (simp_all add: listening_def quiet_def)

text \<open>A change of flags and counters only.\<close>

lemma same_nodes_update:
  assumes inv: "kinv s" and sl: "slot s i = Some a" and sv: "sv_heap s a = Some sv"
    and l: "head l = head (levels sv)" "quiet l"
  shows "kinv (set_levels a sv l s)"
    and "svc_at (set_levels a sv l s) = (svc_at s)(i \<mapsto> sv\<lparr>levels := l\<rparr>)"
    and "slot (set_levels a sv l s) = slot s"
    and "sleepers l = sleepers (levels sv) \<Longrightarrow> rooms_of (set_levels a sv l s) = rooms_of s"
proof -
  have at: "svc_at s i = Some sv" using sl sv by (simp add: svc_at_def)
  have wf: "svc_wf (mem s) i sv" by (rule kinv_wf [OF inv at])
  note H = rcu_same_head [OF l(1)]
  have "svc_wf (mem s) i (sv\<lparr>levels := l\<rparr>)"
    using wf H(1,3) [of "mem s"] l(2) by (simp add: svc_wf_def)
  from update_levels [OF inv sl sv H(4) this]
  show "kinv (set_levels a sv l s)" "slot (set_levels a sv l s) = slot s"
    and svc: "svc_at (set_levels a sv l s) = (svc_at s)(i \<mapsto> sv\<lparr>levels := l\<rparr>)" by simp_all
  have R: "rooms_of (set_levels a sv l s) =
      (rooms_of s)(i := map_option (room_of (mem s)) (Some (sv\<lparr>levels := l\<rparr>)))"
    using rooms_update [of "set_levels a sv l s" s i "Some (sv\<lparr>levels := l\<rparr>)", OF svc] by simp
  assume "sleepers l = sleepers (levels sv)"
  then have "room_of (mem s) (sv\<lparr>levels := l\<rparr>) = room_of (mem s) sv"
    using H(1) [of "mem s"] by (simp add: room_of_def)
  with R rooms_at [OF at] show "rooms_of (set_levels a sv l s) = rooms_of s"
    by (simp add: fun_upd_idem)
qed

lemma receive_sleep_ok:
  assumes inv: "kinv s" and sl: "slot s i = Some a"
  shows "kinv (receive_sleep a j s)" "slot (receive_sleep a j s) = slot s"
    "rooms_of (receive_sleep a j s) = rooms_of s" "mem (receive_sleep a j s) = mem (klog_all receive_prefix s)"
    "complete (receive_sleep a j s) = complete s"
proof -
  from kinv_slot [OF inv sl] obtain sv where sv: "sv_heap s a = Some sv" "svc_at s i = Some sv" by auto
  have q: "quiet (levels sv)" using kinv_rcu_ok [OF inv sv(2)] by (simp add: rcu_ok_def)
  have eq: "receive_sleep a j s = set_levels a sv (listening j (levels sv)) (klog_all receive_prefix s)"
    using sv by (simp add: receive_sleep_def)
  note U = same_nodes_update [of "klog_all receive_prefix s" i a sv "listening j (levels sv)"]
  show "kinv (receive_sleep a j s)" "slot (receive_sleep a j s) = slot s"
      "mem (receive_sleep a j s) = mem (klog_all receive_prefix s)"
    using U inv sl sv q unfolding eq by simp_all
  show "rooms_of (receive_sleep a j s) = rooms_of s"
    using U(4) inv sl sv q unfolding eq by simp
  then show "complete (receive_sleep a j s) = complete s" by (simp add: complete_rooms)
qed

section \<open>The wake-up\<close>

definition wakes_up :: "bool \<Rightarrow> addr \<Rightarrow> nat \<Rightarrow> kstate \<Rightarrow> bool" where
  "wakes_up g a j s \<longleftrightarrow> g \<or> (\<exists>sv. sv_heap s a = Some sv \<and> ready (levels sv) ! j = 1)"

definition wait_keeps :: "wait_fn \<Rightarrow> bool" where
  "wait_keeps wait \<longleftrightarrow> (\<forall>a j i s g s'. kinv s \<longrightarrow> complete s \<longrightarrow> j < levelDeep \<longrightarrow> slot s i = Some a \<longrightarrow>
     wait a j s = (g, s') \<longrightarrow> kinv s' \<and> complete s' \<and> slot s' i = Some a \<and> wakes_up g a j s')"

text \<open>What the waiting thread leaves behind in its service: \<open>ep\<close> is the epoch read before the
  sleep.  A signal takes one reader off its epoch that was never counted.\<close>

definition left :: "nat \<Rightarrow> nat \<Rightarrow> bool \<Rightarrow> rcu_list \<Rightarrow> rcu_list" where
  "left ep j signalled l =
     (let l' = (if signalled then add_standing ep (- 1) l else l)
      in l'\<lparr>waiters := (waiters l)[j := waiters l ! j - 1]\<rparr>)"

lemma left_simps [simp]:
  "head (left ep j g l) = head l" "sleepers (left ep j g l) = sleepers l"
  "waiters (left ep j g l) = (waiters l)[j := waiters l ! j - 1]"
  "standing (left ep j g l) = (if g then (standing l)[ep := standing l ! ep - 1] else standing l)"
proof -
  show "sleepers (left ep j g l) = sleepers l"
    by (rule sleepers_cong) (simp add: left_def Let_def add_standing_def)
qed (simp_all add: left_def Let_def add_standing_def)

lemma quiet_left [simp]: "ep < 2 \<Longrightarrow> quiet l \<Longrightarrow> quiet (left ep j g l)"
  by (auto simp: left_def Let_def add_standing_def quiet_def nth_list_update)

text \<open>The whole call once the checks have passed.\<close>

definition receive_answer :: "bool \<Rightarrow> (byte list \<times> size_t) option \<Rightarrow> size_t \<Rightarrow> rv \<times> byte list" where
  "receive_answer signalled stored sz = (case (signalled, stored) of
     (False, Some (msg, msz)) \<Rightarrow> (Inr (ucast (min sz msz)), take (unat (min sz msz)) msg)
   | _ \<Rightarrow> (Inl EUCLEAN, []))"

abbreviation receive_locked :: "kstate \<Rightarrow> kstate" where
  "receive_locked s \<equiv> klogs (ReadUnlock SearchLock) (klogs (ReadLock SearchLock) (klogs TryModuleGet s))"

text \<open>A call that passes every check reaches the search.\<close>

lemma receive_to_search:
  assumes inv: "kinv s" and chk: "a_receive_check env (rooms_of s) tag level buffer_null sz = None"
    and sl: "slot s (unat tag) = Some a" and sv: "sv_heap s a = Some sv"
  shows "tag_receive env cto wait s tag level buffer_null sz =
      rbind (rcu_list_search wait a level (receive_locked s)) (\<lambda>(e, s3). case e of
         None \<Rightarrow> Inr (Inl EUCLEAN, [], klogs ModulePut s3)
       | Some p \<Rightarrow> (case el_heap (mem s3) p of
           None \<Rightarrow> Inl Fault
         | Some el \<Rightarrow>
             let bSize = min sz (e_size el)
             in if length (e_message el) < unat bSize then Inl Fault
                else (case copy_loop cto (e_message el) (unat bSize) 0 0 [] of
                  None \<Rightarrow> Inl Spin
                | Some out \<Rightarrow> Inr (Inr (ucast bSize), out, klogs ModulePut s3))))"
proof -
  have at: "svc_at s (unat tag) = Some sv" using sl sv by (simp add: svc_at_def)
  have inv': "kinv (klogs TryModuleGet s)" using inv by simp
  have "module_live env" "\<not> sz > MAX_MESSAGE_SIZE" "\<not> buffer_null"
      "validServiceOperation env sv" "\<not> sint level \<ge> int levelDeep"
    using chk rooms_at [OF at] r_allowed_iff [OF kinv_wf [OF inv at], of env "mem s"]
    by (auto simp: a_receive_check_def split: if_splits)
  then show ?thesis using sl sv by (simp add: tag_receive_def search_tag_klogs [OF inv'] Let_def)
qed

text \<open>The search with the sleep in the middle.\<close>

lemma search_around_sleep:
  assumes j: "level_ix level = Some j" and sv: "sv_heap s a = Some sv"
    and w: "wait a j (receive_sleep a j s) = (g, s2)" "wakes_up g a j s2" and sv2: "sv_heap s2 a = Some sv2"
  shows "rcu_list_search wait a level (receive_locked s) =
      rbind (search_leave (el_heap (mem s2)) (levels sv2) (epoch (levels sv)) level g)
        (\<lambda>(p, l). Inr (p, set_levels a sv2 l s2))"
proof -
  have sleep: "set_levels a sv (listening j (levels sv)) (receive_locked s) = receive_sleep a j s"
    using sv by (simp add: receive_sleep_def receive_prefix_def klogs_klog_all)
  show ?thesis
    using sv sv2 w j sleep
    by (auto simp add: rcu_list_search_def search_enter_eq [OF j] listening_def [symmetric] wakes_up_def)
qed

lemma receive_woken:
  assumes inv: "kinv s" and chk: "a_receive_check env (rooms_of s) tag level buffer_null sz = None"
    and j: "level_ix level = Some j" and sl: "slot s (unat tag) = Some a" and sv: "sv_heap s a = Some sv"
    and w: "wait a j (receive_sleep a j s) = (False, s2)" "kinv s2" "slot s2 (unat tag) = Some a"
      "wakes_up False a j s2"
    and sv2: "sv_heap s2 a = Some sv2"
  shows "tag_receive env cto wait s tag level buffer_null sz =
    (let t = klogs ModulePut (set_levels a sv2 (left (epoch (levels sv)) j False (levels sv2)) s2)
     in case rcu_view (mem s2) (levels sv2) level of
          None \<Rightarrow> Inr (Inl EUCLEAN, [], t)
        | Some (msg, msz) \<Rightarrow> (case copy_loop cto msg (unat (min sz msz)) 0 0 [] of
            None \<Rightarrow> Inl Spin
          | Some out \<Rightarrow> Inr (Inr (ucast (min sz msz)), out, t)))"
proof -
  have at: "svc_at s (unat tag) = Some sv" "svc_at s2 (unat tag) = Some sv2"
    using sl sv w(3) sv2 by (simp_all add: svc_at_def)
  have wf: "svc_wf (mem s2) (unat tag) sv2" by (rule kinv_wf [OF w(2) at(2)])
  have ep: "epoch (levels sv) < 2" using kinv_rcu_ok [OF inv at(1)] by (simp add: rcu_ok_def quiet_def)
  let ?l = "left (epoch (levels sv)) j False (levels sv2)"
  note run = receive_to_search [OF inv chk sl sv, of cto wait]
  note search = search_around_sleep [where wait = wait, OF j sv w(1,4) sv2]
  from search_leave_woken [OF kinv_rcu_ok [OF w(2) at(2)] j ep] obtain p where p:
    "search_leave (el_heap (mem s2)) (levels sv2) (epoch (levels sv)) level False = Inr (p, ?l)"
    "rcu_view (mem s2) (levels sv2) level =
       map_option (\<lambda>a. (e_message (the (el_heap (mem s2) a)), e_size (the (el_heap (mem s2) a)))) p"
    "\<And>a. p = Some a \<Longrightarrow> el_heap (mem s2) a \<noteq> None"
    by (auto simp: left_def)
  show ?thesis
  proof (cases p)
    case None
    with p(2) show ?thesis unfolding run search using p(1) by simp
  next
    case (Some q)
    with p(3) obtain el where el: "el_heap (mem s2) q = Some el" by auto
    have v: "rcu_view (mem s2) (levels sv2) level = Some (e_message el, e_size el)"
      using p(2) Some el by simp
    then have "unat (e_size el) \<le> length (e_message el)" using wf by (auto simp: svc_wf_def)
    then have "unat (min sz (e_size el)) \<le> length (e_message el)"
      by (auto simp: min_def word_le_nat_alt)
    with v p(1) Some el show ?thesis unfolding run search by (simp add: Let_def)
  qed
qed

lemma receive_run:
  assumes inv: "kinv s" and chk: "a_receive_check env (rooms_of s) tag level buffer_null sz = None"
    and j: "level_ix level = Some j" and cto: "copy_law cto" "copy_fair cto"
    and sl: "slot s (unat tag) = Some a" and sv: "sv_heap s a = Some sv"
    and w: "wait a j (receive_sleep a j s) = (g, s2)" "kinv s2" "slot s2 (unat tag) = Some a" "wakes_up g a j s2"
    and sv2: "sv_heap s2 a = Some sv2"
  shows "tag_receive env cto wait s tag level buffer_null sz =
    (let (r, out) = receive_answer g (rcu_view (mem s2) (levels sv2) level) sz
     in Inr (r, out, klogs ModulePut (set_levels a sv2 (left (epoch (levels sv)) j g (levels sv2)) s2)))"
proof (cases g)
  case True
  note run = receive_to_search [OF inv chk sl sv, of cto wait]
  note search = search_around_sleep [where wait = wait, OF j sv w(1,4) sv2]
  show ?thesis using True
    unfolding run search by (simp add: search_leave_signalled [OF j] receive_answer_def left_def add_standing_def)
next
  case False
  with w have w': "wait a j (receive_sleep a j s) = (False, s2)" "wakes_up False a j s2" by simp_all
  show ?thesis
    using receive_woken [where wait = wait and cto = cto, OF inv chk j sl sv w'(1) w(2,3) w'(2) sv2] False
    by (auto simp: receive_answer_def Let_def copy_loop_all [OF cto] split: option.splits)
qed

text \<open>A negative level is not refused: it is an index outside the arrays of the list.\<close>

lemma receive_outside:
  assumes inv: "kinv s" and chk: "a_receive_check env (rooms_of s) tag level buffer_null sz = None"
    and neg: "level_ix level = None"
  shows "tag_receive env cto wait s tag level buffer_null sz = Inl Fault"
proof -
  from chk obtain r where r: "rooms_of s (unat tag) = Some r"
    by (auto simp: a_receive_check_def split: if_splits option.splits)
  then obtain sv where at: "svc_at s (unat tag) = Some sv" by (auto simp: rooms_of_def)
  then obtain a where a: "slot s (unat tag) = Some a" "sv_heap s a = Some sv" using svc_at_slot by blast
  have inv': "kinv (klogs TryModuleGet s)" using inv by simp
  have "validServiceOperation env sv \<and> module_live env \<and> \<not> sz > MAX_MESSAGE_SIZE \<and> \<not> buffer_null \<and>
      \<not> sint level \<ge> int levelDeep"
    using chk rooms_at [OF at] r_allowed_iff [OF kinv_wf [OF inv at], of env "mem s"]
    by (auto simp: a_receive_check_def split: if_splits)
  with a show ?thesis
    by (simp add: tag_receive_def search_tag_klogs [OF inv'] Let_def rcu_list_search_def
        search_enter_outside [OF neg])
qed

section \<open>The whole call\<close>

lemma tag_receive_aux:
  assumes inv: "kinv s" and cmp: "complete s" and cto: "copy_law cto" "copy_fair cto"
    and wk: "wait_keeps wait" and chk: "a_receive_check env (rooms_of s) tag level buffer_null sz = None"
    and j: "level_ix level = Some j" and sl: "slot s (unat tag) = Some a"
  shows "\<exists>g s2 s' msg msz. wait a j (receive_sleep a j s) = (g, s2) \<and>
    r_msg (the (rooms_of s2 (unat tag))) level = Some (msg, msz) \<and>
    tag_receive env cto wait s tag level buffer_null sz =
      Inr (if g then Inl EUCLEAN else Inr (ucast (min sz msz)),
           if g then [] else take (unat (min sz msz)) msg, s') \<and>
    kinv s' \<and> complete s' \<and> rooms_of s' = rooms_of s2 \<and> klog (mem s') = klog (mem s2) @ [ModulePut]"
proof -
  from kinv_slot [OF inv sl] obtain sv where sv: "sv_heap s a = Some sv" "svc_at s (unat tag) = Some sv" by auto
  obtain g s2 where w: "wait a j (receive_sleep a j s) = (g, s2)" by fastforce
  have s2: "kinv s2" "complete s2" "slot s2 (unat tag) = Some a" "wakes_up g a j s2"
    using wk [unfolded wait_keeps_def, rule_format, of "receive_sleep a j s" j "unat tag" a g s2]
      receive_sleep_ok [OF inv sl, of j] sl cmp w level_ix_Some [OF j] by simp_all
  from kinv_slot [OF s2(1,3)] obtain sv2 where
    sv2: "sv_heap s2 a = Some sv2" "svc_at s2 (unat tag) = Some sv2" by auto
  from level_ix_Some [OF j] s2(2) sv2(2) obtain msg msz where
    v: "rcu_view (mem s2) (levels sv2) level = Some (msg, msz)"
    unfolding complete_def msgs_def by fastforce
  have q: "epoch (levels sv) < 2" "quiet (levels sv2)"
    using kinv_rcu_ok [OF inv sv(2)] kinv_rcu_ok [OF s2(1) sv2(2)] by (simp_all add: rcu_ok_def quiet_def)
  let ?t = "set_levels a sv2 (left (epoch (levels sv)) j g (levels sv2)) s2"
  have t: "kinv ?t" "rooms_of ?t = rooms_of s2"
    using same_nodes_update [OF s2(1,3) sv2(1), of "left (epoch (levels sv)) j g (levels sv2)"] q by simp_all
  have "complete ?t" using s2(2) t(2) by (simp add: complete_rooms)
  moreover have "r_msg (the (rooms_of s2 (unat tag))) level = Some (msg, msz)"
    using rooms_at [OF sv2(2)] v by simp
  moreover note receive_run [where wait = wait, OF inv chk j cto sl sv(1) w s2(1,3,4) sv2(1)]
  ultimately show ?thesis
    using w t v by (intro exI [of _ g] exI [of _ s2] exI [of _ "klogs ModulePut ?t"] exI [of _ msg] exI [of _ msz])
      (auto simp: receive_answer_def)
qed

section \<open>A reader in the queue\<close>

text \<open>\<^verbatim>\<open>wait_event_interruptible\<close> puts the thread at the head of the queue of the level.\<close>

definition enqueue :: "nat \<Rightarrow> nat \<Rightarrow> rcu_list \<Rightarrow> rcu_list" where
  "enqueue pid j l = l\<lparr>readerQueue := (readerQueue l)[j := pid # readerQueue l ! j]\<rparr>"

definition queue_reader :: "nat \<Rightarrow> addr \<Rightarrow> nat \<Rightarrow> kstate \<Rightarrow> kstate" where
  "queue_reader pid a j s = (case sv_heap s a of
     None \<Rightarrow> s
   | Some sv \<Rightarrow> set_levels a sv (enqueue pid j (levels sv)) s)"

lemma enqueue_simps [simp]:
  "head (enqueue pid j l) = head l" "quiet l \<Longrightarrow> quiet (enqueue pid j l)"
  by (simp_all add: enqueue_def quiet_def)

lemma waitqueue_enqueue:
  "quiet l \<Longrightarrow> j < levelDeep \<Longrightarrow> waitqueue_active (enqueue pid j l) i \<longleftrightarrow> i = j \<or> waitqueue_active l i"
  by (auto simp: waitqueue_active_def enqueue_def quiet_def nth_list_update)

lemma complete_views:
  "complete s \<longleftrightarrow> (\<forall>i v. map_option (\<lambda>x. rcu_view (mem s) (levels x)) (svc_at s i) = Some v \<longrightarrow>
     (\<forall>j < levelDeep. v (of_nat j) \<noteq> None))"
  unfolding complete_def msgs_def by fastforce

lemma queue_reader_ok:
  assumes inv: "kinv s" and sl: "slot s i = Some a" and sv: "sv_heap s a = Some sv"
  shows "kinv (queue_reader pid a j s)" "slot (queue_reader pid a j s) = slot s"
    "svc_at (queue_reader pid a j s) = (svc_at s)(i \<mapsto> sv\<lparr>levels := enqueue pid j (levels sv)\<rparr>)"
    "mem (queue_reader pid a j s) = mem s" "complete (queue_reader pid a j s) = complete s"
    "budget env (queue_reader pid a j s) n m = budget env s n m"
proof -
  have at: "svc_at s i = Some sv" using sl sv by (simp add: svc_at_def)
  have q: "quiet (levels sv)" using kinv_rcu_ok [OF inv at] by (simp add: rcu_ok_def)
  have eq: "queue_reader pid a j s = set_levels a sv (enqueue pid j (levels sv)) s"
    using sv by (simp add: queue_reader_def)
  note U = same_nodes_update [OF inv sl sv enqueue_simps(1) enqueue_simps(2) [OF q], of pid j]
  show "kinv (queue_reader pid a j s)" "slot (queue_reader pid a j s) = slot s"
    and new: "svc_at (queue_reader pid a j s) = (svc_at s)(i \<mapsto> sv\<lparr>levels := enqueue pid j (levels sv)\<rparr>)"
    using U(1-3) unfolding eq by simp_all
  show m: "mem (queue_reader pid a j s) = mem s" by (simp add: eq)
  have "rcu_view (mem s) (enqueue pid j (levels sv)) = rcu_view (mem s) (levels sv)"
    by (rule rcu_same_head) simp
  with new at m have views: "map_option (\<lambda>x. rcu_view (mem (queue_reader pid a j s)) (levels x))
      (svc_at (queue_reader pid a j s) k) = map_option (\<lambda>x. rcu_view (mem s) (levels x)) (svc_at s k)" for k
    by simp
  show "complete (queue_reader pid a j s) = complete s"
    unfolding complete_views views ..
  show "budget env (queue_reader pid a j s) n m = budget env s n m"
    using dom_set_levels [OF sv, of "enqueue pid j (levels sv)" "mem s"]
    by (simp add: budget_def eq alloc_room_def)
qed

section \<open>The flag of a level\<close>

definition raise_flag :: "addr \<Rightarrow> nat \<Rightarrow> kstate \<Rightarrow> kstate" where
  "raise_flag a j s = (case sv_heap s a of
     None \<Rightarrow> s
   | Some sv \<Rightarrow> set_levels a sv ((levels sv)\<lparr>ready := (ready (levels sv))[j := 1]\<rparr>) s)"

lemma raise_flag_ok:
  assumes inv: "kinv s" and sl: "slot s i = Some a" and j: "j < levelDeep"
  shows "kinv (raise_flag a j s)" "rooms_of (raise_flag a j s) = rooms_of s" "slot (raise_flag a j s) = slot s"
    "wakes_up False a j (raise_flag a j s)"
proof -
  from kinv_slot [OF inv sl] obtain sv where sv: "sv_heap s a = Some sv" "svc_at s i = Some sv" by auto
  let ?l = "(levels sv)\<lparr>ready := (ready (levels sv))[j := 1]\<rparr>"
  have q: "quiet (levels sv)" using kinv_rcu_ok [OF inv sv(2)] by (simp add: rcu_ok_def)
  have l: "quiet ?l" "head ?l = head (levels sv)" using q by (simp_all add: quiet_def)
  have sle: "sleepers ?l = sleepers (levels sv)" by (rule sleepers_cong) simp
  have eq: "raise_flag a j s = set_levels a sv ?l s" using sv(1) by (simp add: raise_flag_def)
  note U = same_nodes_update [OF inv sl sv(1) l(2,1)]
  show "kinv (raise_flag a j s)" "rooms_of (raise_flag a j s) = rooms_of s" "slot (raise_flag a j s) = slot s"
    unfolding eq using U(1,3) U(4) [OF sle] by blast+
  have "sv_heap (raise_flag a j s) a = Some (sv\<lparr>levels := ?l\<rparr>)" by (simp add: eq set_levels_def)
  moreover have "ready ?l ! j = 1" using q j by (simp add: quiet_def)
  ultimately show "wakes_up False a j (raise_flag a j s)" by (simp add: wakes_up_def)
qed

text \<open>A sleep that ends as soon as it has begun, with the flag raised or by a signal.\<close>

lemma wait_raised: "wait_keeps (\<lambda>a j s. (False, raise_flag a j s))" "wait_keeps (\<lambda>a j s. (True, s))"
  unfolding wait_keeps_def using raise_flag_ok complete_rooms by (auto simp: wakes_up_def)

end
