(* ===== verification/Boot.thy ===== *)
theory Boot
  imports ReceiveCorrect
begin

text \<open>
  The state \<^verbatim>\<open>initService\<close> sets up, first-fit allocators of a bounded arena, and a first
  service created through \<^verbatim>\<open>tag_get\<close>: the inputs at which the properties are applied.
\<close>

section \<open>The table after initService\<close>

definition kmem_empty :: kmem where
  "kmem_empty = \<lparr>el_heap = Map.empty, klog = []\<rparr>"

definition unloaded :: kstate where
  "unloaded = \<lparr>mem = kmem_empty, sv_heap = Map.empty, tagServices = None, serviceCount = 0,
     MAX_SERVICE_NUM = 0\<rparr>"

text \<open>\<^verbatim>\<open>kmalloc\<close> does not clear its memory: the table is empty when the array it answers happens
  to hold null pointers only.\<close>

definition zeroed :: "addr option list" where
  "zeroed = replicate min_sys_TAG_Services None"

definition booted :: "kstate \<Rightarrow> kstate" where
  "booted s = snd (initService (Some zeroed) s)"

lemma booted_slots [simp]: "slots (booted s) = zeroed" "slot (booted s) i = None"
  by (auto simp: booted_def initService_def slots_def slot_def zeroed_def)

lemma svc_at_booted [simp]: "svc_at (booted s) i = None"
  by (simp add: svc_at_def)

lemma booted_heap [simp]: "sv_heap (booted s) = sv_heap s" "mem (booted s) = mem s"
  by (simp_all add: booted_def initService_def)

lemma kinv_booted [simp]: "kinv (booted s)"
proof (rule kinvI)
  show "serviceCount (booted s) = of_nat (used (booted s))"
    by (simp add: used_def zeroed_def) (simp add: booted_def initService_def)
qed (simp_all add: zeroed_def, simp_all add: booted_def initService_def)

lemma rooms_booted [simp]: "rooms_of (booted s) = Map.empty"
  by (simp add: rooms_of_def fun_eq_iff)

lemma complete_booted [simp]: "complete (booted s)"
  by (simp add: complete_def)

section \<open>First-fit allocation\<close>

definition arena :: "nat \<Rightarrow> (addr \<Rightarrow> 'a option) \<Rightarrow> addr option" where
  "arena n h = find (\<lambda>a. h a = None) [0..<n]"

lemma arena_sound: "alloc_sound (arena n)"
  by (auto simp: alloc_sound_def arena_def find_Some_iff)

lemma arena_full:
  assumes "arena n h = None" "finite (dom h)"
  shows "n \<le> card (dom h)"
proof -
  have "{0..<n} \<subseteq> dom h" using assms(1) by (auto simp: arena_def find_None_iff)
  from card_mono [OF assms(2) this] show ?thesis by simp
qed

lemma arena_room: "finite (dom h) \<Longrightarrow> card (dom h) + j \<le> n \<Longrightarrow> alloc_room (arena n) h j"
  unfolding alloc_room_def using arena_full by fastforce

lemma arena_Some: "finite (dom h) \<Longrightarrow> card (dom h) < n \<Longrightarrow> arena n h \<noteq> None"
  using arena_full by fastforce

section \<open>A first service\<close>

text \<open>An environment in which everything succeeds, for the process \<open>pid\<close> of the user \<open>u\<close>.\<close>

definition plenty :: "c_uint \<Rightarrow> c_int \<Rightarrow> kenv" where
  "plenty u pid = \<lparr>kmalloc_element = arena 1000, kmalloc_service = arena 300,
     fresh_service = \<lparr>sv_key = 0, sv_tag = 0, uid_Creator = 0, sv_perm = 0, levels = rcu_list_init\<rparr>,
     module_live = True, vzalloc_ok = True, cur_uid = u, cur_tgid = pid\<rparr>"

lemma plenty_simps [simp]:
  "kmalloc_element (plenty u pid) = arena 1000" "kmalloc_service (plenty u pid) = arena 300"
  "module_live (plenty u pid)" "vzalloc_ok (plenty u pid)"
  "cur_uid (plenty u pid) = u" "cur_tgid (plenty u pid) = pid"
  by (simp_all add: plenty_def)

lemma plenty_sound [simp]: "env_sound (plenty u pid)"
  by (simp add: env_sound_def arena_sound)

abbreviation empty_table :: kstate where "empty_table \<equiv> booted unloaded"

lemma unloaded_heaps [simp]: "el_heap (mem unloaded) = Map.empty" "sv_heap unloaded = Map.empty"
  by (simp_all add: unloaded_def kmem_empty_def)

lemma plenty_room [simp]: "budget (plenty u pid) empty_table 1000 300"
  by (auto simp: budget_def intro!: arena_room)

text \<open>The state after process \<open>pid\<close> of user 1 has created a service with key \<open>k\<close>.\<close>

definition one_service :: "c_int \<Rightarrow> c_int \<Rightarrow> c_int \<Rightarrow> kstate" where
  "one_service pid k p = (case tag_get (plenty 1 pid) empty_table k CREATE p of
     Inr (_, s) \<Rightarrow> s | Inl _ \<Rightarrow> empty_table)"

lemma r_free_empty: "r_free Map.empty = Some 0"
  by (simp add: r_free_def tags_def min_sys_TAG_Services_def upt_rec)

lemma r_find_empty: "r_find Map.empty k = None"
  by (auto simp: r_find_def has_key_def find_None_iff)

lemma one_service:
  assumes "k \<noteq> 0" "p = OPEN_ROOM \<or> p = PRIVATE_ROOM"
  shows "tag_get (plenty 1 pid) empty_table k CREATE p = Inr (Inr 0, one_service pid k p)"
    "kinv (one_service pid k p)" "complete (one_service pid k p)"
    "rooms_of (one_service pid k p) = [0 \<mapsto> new_room (plenty 1 pid) k p]"
    "budget (plenty u pid') (one_service pid k p) 968 299"
proof -
  have b: "budget (plenty 1 pid) empty_table (levelDeep + 968) (Suc 299)"
    using plenty_room by (simp add: levelDeep_def)
  from tag_get_refines_aux [OF plenty_sound kinv_booted b, of k CREATE p]
  obtain r s' where G: "tag_get (plenty 1 pid) empty_table k CREATE p = Inr (r, s')" "kinv s'" "complete s'"
    "budget (plenty 1 pid) s' 968 299" "(r, rooms_of s') = a_get (plenty 1 pid) Map.empty k CREATE p"
    by auto
  moreover from G(5) assms have "r = Inr 0" "rooms_of s' = [0 \<mapsto> new_room (plenty 1 pid) k p]"
    by (auto simp: a_get_def a_create_def r_free_empty r_find_empty)
  ultimately show "tag_get (plenty 1 pid) empty_table k CREATE p = Inr (Inr 0, one_service pid k p)"
    "kinv (one_service pid k p)" "complete (one_service pid k p)"
    "rooms_of (one_service pid k p) = [0 \<mapsto> new_room (plenty 1 pid) k p]"
    "budget (plenty u pid') (one_service pid k p) 968 299"
    by (simp_all add: one_service_def budget_def)
qed

section \<open>A table of any size\<close>

definition crowd_service :: "nat \<Rightarrow> TAG_Service" where
  "crowd_service i = \<lparr>sv_key = TAG_IPC_PRIVATE, sv_tag = of_nat i, uid_Creator = 10, sv_perm = OPEN_ROOM,
     levels = rcu_list_init\<rparr>"

definition crowd :: "nat \<Rightarrow> kstate" where
  "crowd n = \<lparr>mem = kmem_empty, sv_heap = (\<lambda>a. if a < n then Some (crowd_service a) else None),
     tagServices = Some (map (\<lambda>i. if i < n then Some i else None) [0..<min_sys_TAG_Services]),
     serviceCount = of_nat n, MAX_SERVICE_NUM = of_nat min_sys_TAG_Services\<rparr>"

lemma filter_below: "n \<le> m \<Longrightarrow> filter (\<lambda>i. i < n) [0..<m] = [0..<n]"
  by (induction m) (auto simp: le_Suc_eq)

lemma crowd:
  assumes "n \<le> min_sys_TAG_Services"
  shows "kinv (crowd n)" "used (crowd n) = n" "svc_at (crowd n) i = (if i < n then Some (crowd_service i) else None)"
proof -
  have slots: "slots (crowd n) = map (\<lambda>i. if i < n then Some i else None) [0..<min_sys_TAG_Services]"
    by (simp add: slots_def crowd_def)
  have slot: "slot (crowd n) i = (if i < n then Some i else None)" for i
    using assms by (auto simp: slot_def slots)
  have heap: "sv_heap (crowd n) a = (if a < n then Some (crowd_service a) else None)" for a
    by (simp add: crowd_def)
  show at: "svc_at (crowd n) i = (if i < n then Some (crowd_service i) else None)" for i
    by (simp add: svc_at_def slot heap)
  have "filter (\<lambda>x. x \<noteq> None) (slots (crowd n)) =
      map (\<lambda>i. if i < n then Some i else None) (filter (\<lambda>i. i < n) [0..<min_sys_TAG_Services])"
    unfolding slots by (simp add: filter_map o_def)
  then show used: "used (crowd n) = n" using assms by (simp add: used_def filter_below)
  show "kinv (crowd n)"
  proof (rule kinvI)
    show "sv_heap (crowd n) a \<noteq> None" if "slot (crowd n) i = Some a" for i a
      using that by (auto simp: slot heap split: if_splits)
    show "svc_wf (mem (crowd n)) i sv" if "svc_at (crowd n) i = Some sv" for i sv
      using that by (auto simp: at crowd_service_def svc_wf_def rcu.init_ok rcu.init_view tag_macros split: if_splits)
    show "rcu_foot (mem (crowd n)) (levels x) \<inter> rcu_foot (mem (crowd n)) (levels y) = {}"
      if "svc_at (crowd n) i = Some x" for i x y
      using that by (auto simp: at crowd_service_def rcu.init_foot split: if_splits)
    show "sv_key x = TAG_IPC_PRIVATE" if "svc_at (crowd n) i = Some x" for i x
      using that by (auto simp: at crowd_service_def split: if_splits)
  qed (simp_all add: slots used, simp_all add: crowd_def)
qed

end
