(* ===== verification/Calls.thy ===== *)
theory Calls
  imports Boot
begin

text \<open>
  Runs of the calls that do not sleep: each call keeps the invariant of the table whatever
  the allocators answer, the only way one fails to return is an unchecked null pointer from
  \<^verbatim>\<open>kmalloc\<close> or \<^verbatim>\<open>vzalloc\<close>, and a run for which there is memory implements the run of the
  promises.
\<close>

section \<open>One call\<close>

datatype call =
    Get c_int c_int c_int
  | Send c_int c_int "byte list option" size_t
  | Ctl c_int c_int

fun run_call :: "kenv \<Rightarrow> kstate \<Rightarrow> call \<Rightarrow> (rv \<times> kstate) res" where
  "run_call env s (Get k command p) = tag_get env s k command p"
| "run_call env s (Send tag level buffer sz) = tag_send env s tag level buffer sz"
| "run_call env s (Ctl tag command) = tag_ctl env s tag command"

fun a_call :: "kenv \<Rightarrow> rooms \<Rightarrow> call \<Rightarrow> rv \<times> rooms" where
  "a_call env R (Get k command p) = a_get env R k command p"
| "a_call env R (Send tag level buffer sz) = a_send env R tag level buffer sz"
| "a_call env R (Ctl tag command) = a_ctl env R tag command"

lemma call_refines:
  assumes snd: "env_sound env" "vzalloc_ok env" and inv: "kinv s" "complete s"
    and rm: "budget env s (levelDeep + n) (Suc m)"
  shows "\<exists>r s'. run_call env s c = Inr (r, s') \<and> kinv s' \<and> complete s' \<and> budget env s' n m \<and>
    (r, rooms_of s') = a_call env (rooms_of s) c"
proof (cases c)
  case (Get k command p)
  with tag_get_refines_aux [OF snd(1) inv(1) rm, of k command p] inv(2) show ?thesis by auto
next
  case (Send tag level buffer sz)
  have "budget env s (Suc n) m" by (rule budget_le [OF rm]) (simp_all add: levelDeep_def)
  with Send tag_send_refines_aux [OF snd(1) inv, of n m sz tag level buffer] snd(2) show ?thesis by auto
next
  case (Ctl tag command)
  with tag_ctl_refines_aux [OF snd(1) inv rm, of tag command] show ?thesis by auto
qed

section \<open>Safety without a budget\<close>

text \<open>What a call may answer when memory can run out: it returns and keeps the invariant, or it
  has used a null pointer.\<close>

definition safe_result :: "kenv \<Rightarrow> kstate \<Rightarrow> (rv \<times> kstate) res \<Rightarrow> bool" where
  "safe_result env s x \<longleftrightarrow> (case x of
     Inr (r, s') \<Rightarrow> kinv s'
   | Inl e \<Rightarrow> e = Fault \<and> (kmalloc_service env (sv_heap s) = None \<or> \<not> vzalloc_ok env))"

lemma safe_result_Inr [simp]: "safe_result env s (Inr (r, s')) = kinv s'"
  by (simp add: safe_result_def)

lemma safe_result_klogs [simp]: "safe_result env (klogs c s) x = safe_result env s x"
  unfolding safe_result_def klogs_simps by (rule refl)

text \<open>A creation that passes its checks while \<^verbatim>\<open>kmalloc\<close> answers no memory for the service.\<close>

lemma CREATE_no_memory:
  assumes inv: "kinv s" and free: "r_free (rooms_of s) = Some i"
    and key: "k = TAG_IPC_PRIVATE \<or> r_find (rooms_of s) k = None"
    and none: "kmalloc_service env (sv_heap s) = None"
  shows "tag_get_CREATE env s k p = Inl Fault"
proof -
  let ?s = "klogs (WriteLock SearchLock) s"
  have inv': "kinv ?s" using inv by simp
  have "free_slot ?s = Some i" using r_free_rooms [OF inv'] free by simp
  then have "new_TAG_Service env ?s k (cur_tgid env) p = Inl Fault"
    using none kinv_slots(1) [OF inv'] by (simp add: new_TAG_Service_def free_slot_def)
  moreover have "searchTAG_Service_withKey ?s k = Inr None" if "k \<noteq> TAG_IPC_PRIVATE"
    using r_find_rooms [OF inv', of k] key that by simp
  ultimately show ?thesis
    using not_full [OF inv free] by (cases "k = TAG_IPC_PRIVATE") (simp_all add: tag_get_CREATE_def Let_def)
qed

lemma CREATE_safe:
  assumes snd: "env_sound env" and inv: "kinv s" and k: "k \<noteq> 0" "p = OPEN_ROOM \<or> p = PRIVATE_ROOM"
  shows "safe_result env s (tag_get_CREATE env s k p)"
proof (cases "r_free (rooms_of s)")
  case None
  with inv show ?thesis by (simp add: CREATE_full)
next
  case (Some i)
  show ?thesis
  proof (cases "k \<noteq> TAG_IPC_PRIVATE \<and> r_find (rooms_of s) k \<noteq> None")
    case True
    with inv show ?thesis by (simp add: CREATE_used_key [OF inv Some])
  next
    case False
    then have key: "k = TAG_IPC_PRIVATE \<or> r_find (rooms_of s) k = None" by simp
    show ?thesis
    proof (cases "kmalloc_service env (sv_heap s)")
      case (Some a)
      show ?thesis
        by (rule CREATE_ok [OF snd inv \<open>r_free (rooms_of s) = Some i\<close> Some k key]) simp
    next
      case None
      with CREATE_no_memory [OF inv Some key None] show ?thesis by (simp add: safe_result_def)
    qed
  qed
qed

lemma tag_get_safe:
  assumes snd: "env_sound env" and inv: "kinv s"
  shows "safe_result env s (tag_get env s k command p)"
proof (cases "module_live env \<and> permAmmisible p = 0 \<and> keyAmmissible k = 0 \<and> command = CREATE")
  case True
  then have "k \<noteq> 0" "p = OPEN_ROOM \<or> p = PRIVATE_ROOM"
    by (auto simp: permAmmisible_def keyAmmissible_def split: if_splits)
  with CREATE_safe [OF snd, of "klogs TryModuleGet s" k p] inv True show ?thesis
    by (simp add: tag_get_def)
next
  case False
  with inv show ?thesis
    by (auto simp: tag_get_def put_return_def OPEN_eq Let_def)
qed

lemma tag_send_safe:
  assumes snd: "env_sound env" and inv: "kinv s"
  shows "safe_result env s (tag_send env s tag level buffer sz)"
proof (cases "\<not> module_live env \<or> buffer = None \<or> MAX_MESSAGE_SIZE < sz")
  case True
  with inv tag_send_early show ?thesis by (cases "module_live env") auto
next
  case False
  then obtain ubuf where ok: "module_live env" "buffer = Some ubuf" "sz \<le> MAX_MESSAGE_SIZE" by auto
  show ?thesis
  proof (cases "vzalloc_ok env \<or> sz = 0")
    case no: False
    with ok have "tag_send env s tag level buffer sz = Inl Fault"
      by (auto simp: tag_send_def word_neq_0_conv Let_def)
    with no show ?thesis by (simp add: safe_result_def)
  next
    case vz: True
    note E = tag_send_eq [OF inv ok(1) vz ok(3), of tag level ubuf]
    show ?thesis
    proof (cases "slot s (unat tag)")
      case None
      with E ok inv show ?thesis by simp
    next
      case (Some a)
      with kinv_slot [OF inv Some] obtain sv where sv: "sv_heap s a = Some sv" by auto
      have st: "kinv (klog_all (send_prefix sz) s)" "slot (klog_all (send_prefix sz) s) (unat tag) = Some a"
        "sv_heap (klog_all (send_prefix sz) s) a = Some sv" using inv Some sv by simp_all
      let ?run = "send_level env (klog_all (send_prefix sz) s) a sv level (take (unat sz) ubuf) sz"
      have "safe_result env s ?run" if "unat sz \<le> length ubuf"
      proof (cases "msgs (klog_all (send_prefix sz) s) sv level")
        case None
        with send_level_missing [OF snd st None, of "take (unat sz) ubuf" sz] show ?thesis by auto
      next
        case (Some v)
        have "level_ix level \<noteq> None"
          using level_ix_negative [of level "mem (klog_all (send_prefix sz) s)" "unat tag" sv]
            kinv_wf [OF st(1), of "unat tag" sv] st Some
          by (auto simp: msgs_def svc_at_def)
        then obtain j where j: "level_ix level = Some j" by auto
        have "msgs (klog_all (send_prefix sz) s) sv level \<noteq> None" using Some by simp
        from send_level_stored [OF snd st this j, where buf = "take (unat sz) ubuf" and sz = sz] that ok(3) st(1)
        show ?thesis by auto
      qed
      with E ok inv Some sv show ?thesis by (auto simp: Let_def)
    qed
  qed
qed

lemma tag_ctl_safe:
  assumes snd: "env_sound env" and inv: "kinv s"
  shows "safe_result env s (tag_ctl env s tag command)"
proof -
  let ?s = "klogs TryModuleGet s"
  have inv': "kinv ?s" using inv by simp
  have awake: "safe_result env s (tag_ctl_TBDE_AWAKE_ALL env ?s tag)"
  proof (cases "svc_at s (unat tag)")
    case None
    then have "slot s (unat tag) = None" using rooms_of_None [OF inv] by (simp add: rooms_of_def)
    with inv AWAKE_ALL_refused(1) [OF inv'] show ?thesis by simp
  next
    case (Some sv)
    then obtain a where a: "slot s (unat tag) = Some a" "sv_heap s a = Some sv" using svc_at_slot by blast
    show ?thesis
    proof (cases "validServiceOperation env sv")
      case True
      with AWAKE_ALL_ok [OF inv' _ _ True, of tag a] a show ?thesis by auto
    next
      case False
      with inv AWAKE_ALL_refused(2) [OF inv'] Some show ?thesis by simp
    qed
  qed
  have remove: "safe_result env s (tag_ctl_TBDE_REMOVE env ?s tag)"
  proof (cases "svc_at s (unat tag)")
    case None
    then have "slot s (unat tag) = None" using rooms_of_None [OF inv] by (simp add: rooms_of_def)
    with inv REMOVE_refused(1) [OF inv'] show ?thesis by simp
  next
    case (Some sv)
    then obtain a where a: "slot s (unat tag) = Some a" "sv_heap s a = Some sv" using svc_at_slot by blast
    consider "\<not> validServiceOperation env sv" | "validServiceOperation env sv" "sleepers (levels sv) \<noteq> []"
      | "validServiceOperation env sv" "sleepers (levels sv) = []" by blast
    then show ?thesis
    proof cases
      case 3
      show ?thesis
      proof (cases "kmalloc_service env (sv_heap s)")
        case None
        with REMOVE_no_memory [OF inv', of tag sv env] 3 \<open>svc_at s (unat tag) = Some sv\<close> show ?thesis
          by (simp add: safe_result_def)
      next
        case (Some b)
        with REMOVE_ok [OF snd inv' _ _ 3, of tag a b] a show ?thesis by auto
      qed
    qed (use inv REMOVE_refused(2,3) [OF inv'] Some in simp_all)
  qed
  show ?thesis using awake remove inv by (simp add: tag_ctl_def put_return_def Let_def)
qed

lemma run_call_safe: "env_sound env \<Longrightarrow> kinv s \<Longrightarrow> safe_result env s (run_call env s c)"
  by (cases c) (simp_all add: tag_get_safe tag_send_safe tag_ctl_safe)

section \<open>What a send leaves in the table\<close>

lemma send_level_frame [frame_simps]:
  "send_level env s a sv level buf sz = Inr (r, s') \<Longrightarrow> slots s' = slots s"
  by (auto simp: send_level_def put_return_def set_levels_def slots_def Let_def
      split: option.splits if_splits)

lemma tag_send_frame:
  assumes inv: "kinv s" and run: "tag_send env s tag level buffer sz = Inr (r, s')"
  shows "slots s' = slots s"
proof (cases "\<not> module_live env \<or> buffer = None \<or> MAX_MESSAGE_SIZE < sz")
  case True
  then show ?thesis using run tag_send_early by (cases "module_live env") auto
next
  case False
  then obtain ubuf where ok: "module_live env" "buffer = Some ubuf" "sz \<le> MAX_MESSAGE_SIZE" by auto
  have vz: "vzalloc_ok env \<or> sz = 0"
  proof (rule ccontr)
    assume "\<not> ?thesis"
    then have "\<not> vzalloc_ok env" "0 < sz" "\<not> MAX_MESSAGE_SIZE < sz" using ok(3) by (auto simp: word_neq_0_conv)
    with ok run show False by (simp add: tag_send_def Let_def)
  qed
  show ?thesis
    using run ok unfolding ok(2) tag_send_eq [OF inv ok(1) vz ok(3)]
    by (auto simp: Let_def dest!: send_level_frame split: option.splits if_splits)
qed

section \<open>A run\<close>

fun run_calls :: "(kenv \<times> call) list \<Rightarrow> kstate \<Rightarrow> (rv list \<times> kstate) res" where
  "run_calls [] s = Inr ([], s)"
| "run_calls ((env, c) # cs) s =
     rbind (run_call env s c) (\<lambda>(r, s1). rbind (run_calls cs s1) (\<lambda>(rs, s2). Inr (r # rs, s2)))"

fun a_calls :: "(kenv \<times> call) list \<Rightarrow> rooms \<Rightarrow> rv list \<times> rooms" where
  "a_calls [] R = ([], R)"
| "a_calls ((env, c) # cs) R =
     (let (r, R1) = a_call env R c; (rs, R2) = a_calls cs R1 in (r # rs, R2))"

text \<open>All callers share the allocators.\<close>

definition same_memory :: "kenv \<Rightarrow> kenv \<Rightarrow> bool" where
  "same_memory e0 env \<longleftrightarrow> kmalloc_element env = kmalloc_element e0 \<and>
     kmalloc_service env = kmalloc_service e0 \<and> vzalloc_ok env"

lemma run_calls_refine_aux:
  assumes snd: "env_sound e0"
  shows "\<forall>(env, c) \<in> set cs. same_memory e0 env \<Longrightarrow> kinv s \<Longrightarrow> complete s \<Longrightarrow>
    budget e0 s (levelDeep * length cs + n) (length cs + m) \<Longrightarrow>
    \<exists>rs s'. run_calls cs s = Inr (rs, s') \<and> kinv s' \<and> complete s' \<and> budget e0 s' n m \<and>
      (rs, rooms_of s') = a_calls cs (rooms_of s)"
proof (induction cs arbitrary: s)
  case Nil
  then show ?case by simp
next
  case (Cons x cs)
  obtain env c where x: "x = (env, c)" by fastforce
  with Cons.prems(1) have same: "same_memory e0 env" by simp
  then have bud: "budget env s' a b = budget e0 s' a b" for s' a b
    by (simp add: same_memory_def budget_def)
  have "budget env s (levelDeep + (levelDeep * length cs + n)) (Suc (length cs + m))"
    using Cons.prems(4) by (simp add: bud algebra_simps)
  moreover have "env_sound env" "vzalloc_ok env" using snd same by (simp_all add: env_sound_def same_memory_def)
  ultimately obtain r s1 where 1: "run_call env s c = Inr (r, s1)" "kinv s1" "complete s1"
    "budget e0 s1 (levelDeep * length cs + n) (length cs + m)" "(r, rooms_of s1) = a_call env (rooms_of s) c"
    using call_refines [of env s "levelDeep * length cs + n" "length cs + m" c] Cons.prems(2,3) bud by auto
  from Cons.IH [OF _ 1(2-4)] Cons.prems(1) obtain rs s2 where
    "run_calls cs s1 = Inr (rs, s2)" "kinv s2" "complete s2" "budget e0 s2 n m"
    "(rs, rooms_of s2) = a_calls cs (rooms_of s1)" by auto
  with 1(1) 1(5) [symmetric] show ?case by (auto simp: x Let_def split: prod.splits)
qed

end
