(* ===== verification/CallProps.thy ===== *)
theory CallProps
  imports Calls
begin

text \<open>
  The properties of the system calls, each applied at the table with one service that
  \<^verbatim>\<open>tag_get\<close> creates in an empty one.
\<close>

section \<open>Inputs for the witnesses\<close>

lemma level_3: "level_ix 3 = Some 3" "sint (3 :: c_int) = 3"
  by (simp_all add: level_ix_def levelDeep_def)

definition demo :: kstate where "demo = one_service 10 7 OPEN_ROOM"

lemma macros_distinct [simp]: "OPEN \<noteq> CREATE" "REMOVE \<noteq> AWAKE_ALL" "PRIVATE_ROOM \<noteq> OPEN_ROOM"
  "CREATE \<noteq> OPEN" "AWAKE_ALL \<noteq> REMOVE" "OPEN_ROOM \<noteq> PRIVATE_ROOM" "TAG_IPC_PRIVATE \<noteq> 0"
  by (simp_all add: tag_macros)

lemma demo: "kinv demo" "complete demo" "rooms_of demo = [0 \<mapsto> new_room (plenty 1 10) 7 OPEN_ROOM]"
  "budget (plenty u pid) demo 968 299"
  using one_service(2-4) [of 7 OPEN_ROOM 10] one_service(5) [of 7 OPEN_ROOM u pid 10] by (simp_all add: demo_def)

lemma demo_budget: "budget (plenty u pid) demo (levelDeep + 900) (Suc 200)"
  by (rule budget_le [OF demo(4)]) (simp_all add: levelDeep_def)

section \<open>Refinement of the promises\<close>

text \<open>A run of calls to \<^verbatim>\<open>tag_get\<close>, \<^verbatim>\<open>tag_send\<close> and \<^verbatim>\<open>tag_ctl\<close>, by any callers and in any order,
  on a kernel that records the uses of the locks and lets nobody wait for them, answers value by
  value what the map of rooms promises and ends in a state that represents the promised map, as
  long as memory lasts: 32 nodes and one service a call.  (\<open>runs_refine\<close> is about locks that block.)\<close>

theorem run_calls_refine:
  assumes "env_sound e0" "\<forall>(env, c) \<in> set cs. same_memory e0 env" "kinv s" "complete s"
    and "budget e0 s (levelDeep * length cs) (length cs)"
  shows "\<exists>rs s'. run_calls cs s = Inr (rs, s') \<and> kinv s' \<and> complete s' \<and>
    (rs, rooms_of s') = a_calls cs (rooms_of s)"
  using run_calls_refine_aux [OF assms(1-4), of 0 0] assms(5) by auto

lemma run_calls_refine_witness:
  "\<exists>s'. run_calls [(plenty 1 10, Get 7 CREATE PRIVATE_ROOM), (plenty 2 20, Get 7 OPEN PRIVATE_ROOM),
      (plenty 1 10, Send 0 3 (Some [65, 66]) 2), (plenty 1 10, Ctl 0 REMOVE)] empty_table =
    Inr ([Inr 0, Inl EBADRQC, Inr 0, Inr 0], s') \<and> rooms_of s' = Map.empty"
proof -
  let ?cs = "[(plenty 1 10, Get 7 CREATE PRIVATE_ROOM), (plenty 2 20, Get 7 OPEN PRIVATE_ROOM),
      (plenty 1 10, Send 0 3 (Some [65, 66]) 2), (plenty 1 10, Ctl 0 REMOVE)]"
  have sm: "\<forall>(env, c) \<in> set ?cs. same_memory (plenty 1 10) env" by (simp add: same_memory_def)
  have b: "budget (plenty 1 10) empty_table (levelDeep * length ?cs) (length ?cs)"
    by (rule budget_le [OF plenty_room]) (simp_all add: levelDeep_def)
  have find: "r_find [0 \<mapsto> r] (r_key r) = Some 0" for r
    by (simp add: r_find_def tags_def has_key_def min_sys_TAG_Services_def upt_rec)
  have find7: "r_find [0 \<mapsto> r] 7 = Some 0" if "r_key r = 7" for r using find [of r] that by simp
  have "a_calls ?cs Map.empty = ([Inr 0, Inl EBADRQC, Inr 0, Inr 0], Map.empty)"
    using level_3 by (simp add: a_get_def a_create_def r_free_empty r_find_empty a_open_def find7 new_room_def
        r_allowed_def a_send_def a_ctl_def TAG_IPC_PRIVATE_def MAX_MESSAGE_SIZE_def levelDeep_def)
  with run_calls_refine [OF plenty_sound sm kinv_booted complete_booted b] show ?thesis by auto
qed

text \<open>\<^verbatim>\<open>tag_get\<close> returns what the map of rooms promises for \<^verbatim>\<open>CREATE\<close> and \<^verbatim>\<open>OPEN\<close> and for
  every refusal, and makes the promised change of the map and no other.\<close>

theorem tag_get_refines:
  assumes "env_sound env" "kinv s" "budget env s levelDeep 1"
  shows "\<exists>r s'. tag_get env s k command p = Inr (r, s') \<and> kinv s' \<and>
    (r, rooms_of s') = a_get env (rooms_of s) k command p"
  using tag_get_refines_aux [OF assms(1,2), of 0 0 k command p] assms(3) by auto

lemma tag_get_refines_witness:
  "\<exists>s'. tag_get (plenty 2 20) demo TAG_IPC_PRIVATE CREATE PRIVATE_ROOM = Inr (Inr 1, s') \<and>
    rooms_of s' = [0 \<mapsto> new_room (plenty 1 10) 7 OPEN_ROOM,
      1 \<mapsto> new_room (plenty 2 20) TAG_IPC_PRIVATE PRIVATE_ROOM]"
proof -
  have b: "budget (plenty 2 20) demo levelDeep 1" by (rule budget_le [OF demo_budget]) simp_all
  have free: "r_free [0 \<mapsto> r] = Some 1" for r
    by (simp add: r_free_def tags_def min_sys_TAG_Services_def upt_rec)
  have "a_get (plenty 2 20) (rooms_of demo) TAG_IPC_PRIVATE CREATE PRIVATE_ROOM =
      (Inr 1, [0 \<mapsto> new_room (plenty 1 10) 7 OPEN_ROOM,
        1 \<mapsto> new_room (plenty 2 20) TAG_IPC_PRIVATE PRIVATE_ROOM])"
    by (simp add: a_get_def a_create_def demo(3) free)
  with tag_get_refines [OF plenty_sound demo(1) b, of TAG_IPC_PRIVATE CREATE PRIVATE_ROOM]
  show ?thesis by auto
qed

text \<open>\<^verbatim>\<open>tag_send\<close> stores the first \<^verbatim>\<open>size\<close> bytes of the buffer as the message of one level of
  one service and takes every sleeper off that level, or returns the refusal the checks
  promise and changes no room.\<close>

theorem tag_send_refines:
  assumes "env_sound env" "kinv s" "complete s" "budget env s 1 0" "vzalloc_ok env \<or> sz = 0"
  shows "\<exists>r s'. tag_send env s tag level buffer sz = Inr (r, s') \<and> kinv s' \<and> complete s' \<and>
    (r, rooms_of s') = a_send env (rooms_of s) tag level buffer sz"
  using tag_send_refines_aux [OF assms(1-3) _ assms(5), of 0 0 tag level buffer] assms(4) by auto

lemma tag_send_refines_witness:
  "\<exists>s' r'. tag_send (plenty 2 20) demo 0 3 (Some [65, 66, 67]) 2 = Inr (Inr 0, s') \<and>
    rooms_of s' 0 = Some r' \<and> r_msg r' 3 = Some ([65, 66], 2) \<and> r_msg r' 4 = Some ([0], 0)"
proof -
  have b: "budget (plenty 2 20) demo 1 0" by (rule budget_le [OF demo_budget]) simp_all
  let ?r = "new_room (plenty 1 10) 7 OPEN_ROOM"
  have a: "a_send (plenty 2 20) (rooms_of demo) 0 3 (Some [65, 66, 67]) 2 =
      (Inr 0, [0 \<mapsto> ?r\<lparr>r_msg := (r_msg ?r)(3 \<mapsto> ([65, 66], 2)), r_sleep := []\<rparr>])"
    using level_3
    by (simp add: a_send_def demo(3) MAX_MESSAGE_SIZE_def levelDeep_def r_allowed_def new_room_def)
  have "r_msg ?r (of_nat 4) = Some ([0], 0)"
    unfolding new_room_def room.simps by (rule fresh_levels_full) (simp add: levelDeep_def)
  with a tag_send_refines [OF plenty_sound demo(1,2) b, of 2 0 3 "Some [65, 66, 67]"] show ?thesis by auto
qed

text \<open>\<^verbatim>\<open>tag_ctl\<close>: \<^verbatim>\<open>AWAKE_ALL\<close> takes every sleeper off all the levels of a service and keeps its
  messages, \<^verbatim>\<open>REMOVE\<close> takes a service without sleepers out of the table, and both refuse as
  promised.\<close>

theorem tag_ctl_refines:
  assumes "env_sound env" "kinv s" "complete s" "budget env s levelDeep 1"
  shows "\<exists>r s'. tag_ctl env s tag command = Inr (r, s') \<and> kinv s' \<and> complete s' \<and>
    (r, rooms_of s') = a_ctl env (rooms_of s) tag command"
  using tag_ctl_refines_aux [OF assms(1-3), of 0 0 tag command] assms(4) by auto

lemma tag_ctl_refines_witness:
  "\<exists>s'. tag_ctl (plenty 2 20) demo 0 REMOVE = Inr (Inr 0, s') \<and> rooms_of s' = Map.empty"
proof -
  have b: "budget (plenty 2 20) demo levelDeep 1" by (rule budget_le [OF demo_budget]) simp_all
  have "a_ctl (plenty 2 20) (rooms_of demo) 0 REMOVE = (Inr 0, Map.empty)"
    by (simp add: a_ctl_def demo(3) r_allowed_def new_room_def)
  with tag_ctl_refines [OF plenty_sound demo(1,2) b, of 0 REMOVE] show ?thesis by auto
qed

section \<open>Receiving\<close>

text \<open>C12: A \<^verbatim>\<open>tag_receive\<close> that passes its checks sleeps in a state that still represents the same
  rooms.  Let what the others do meanwhile keep the table well formed and the service in its entry,
  and end the sleep by a signal or with the flag of the level raised (\<open>wait_keeps\<close>); let no writer
  run between the wake-up and the copy, and let user memory take the copy in the end.  Then the
  call copies the message stored for its level at the wake-up, cut to the size of the buffer, and
  returns its length; after a signal it returns EUCLEAN with nothing copied (the comment at line
  273 of the source promises ERESTART).  No room changes after the wake-up.\<close>

theorem tag_receive_returns_stored:
  assumes "kinv s" "complete s" "copy_law cto" "copy_fair cto" "wait_keeps wait"
    and "a_receive_check env (rooms_of s) tag level buffer_null sz = None"
    and "level_ix level = Some j" "slot s (unat tag) = Some a"
  shows "rooms_of (receive_sleep a j s) = rooms_of s \<and>
    (\<exists>g s2 s' msg msz. wait a j (receive_sleep a j s) = (g, s2) \<and>
       r_msg (the (rooms_of s2 (unat tag))) level = Some (msg, msz) \<and>
       tag_receive env cto wait s tag level buffer_null sz =
         Inr (if g then Inl EUCLEAN else Inr (ucast (min sz msz)),
              if g then [] else take (unat (min sz msz)) msg, s') \<and>
       kinv s' \<and> complete s' \<and> rooms_of s' = rooms_of s2)"
  using tag_receive_aux [OF assms] receive_sleep_ok(3) [OF assms(1,8), of j] by metis

lemma demo_slot: "\<exists>a. slot demo 0 = Some a"
  using demo(1,3) rooms_of_None [of demo 0] by auto

lemma demo_check:
  "a_receive_check (plenty 2 20) (rooms_of demo) 0 3 False sz = None" if "sz \<le> MAX_MESSAGE_SIZE"
  using that level_3 by (simp add: a_receive_check_def demo(3) r_allowed_def new_room_def levelDeep_def)

lemma tag_receive_returns_stored_witness:
  "\<exists>s'. tag_receive (plenty 2 20) (\<lambda>_ _. 0) (\<lambda>a j s. (False, raise_flag a j s)) demo 0 3 False 4 =
     Inr (Inr 0, [], s')"
proof -
  obtain a where a: "slot demo 0 = Some a" using demo_slot by blast
  have chk: "a_receive_check (plenty 2 20) (rooms_of demo) 0 3 False 4 = None"
    by (rule demo_check) (simp add: MAX_MESSAGE_SIZE_def)
  have a': "slot demo (unat (0 :: c_int)) = Some a" using a by simp
  have "r_msg (new_room (plenty 1 10) 7 OPEN_ROOM) (of_nat 3) = Some ([0], 0)"
    unfolding new_room_def room.simps by (rule fresh_levels_full) (simp add: levelDeep_def)
  moreover note R = receive_sleep_ok [OF demo(1) a, of 3]
  moreover have "rooms_of (raise_flag a 3 (receive_sleep a 3 demo)) = rooms_of demo"
    using raise_flag_ok(2) [OF R(1), of 0 a 3] R(2,3) a by (simp add: levelDeep_def)
  ultimately show ?thesis
    using tag_receive_returns_stored [OF demo(1,2) copy_all_fn wait_raised(1) chk level_3(1) a']
    by (auto simp: demo(3))
qed

text \<open>Every refusal of \<^verbatim>\<open>tag_receive\<close> comes before it sleeps, copies nothing, changes no
  room and gives back the reference to the module and every lock it took.\<close>

theorem tag_receive_refusals:
  assumes "kinv s" "a_receive_check env (rooms_of s) tag level buffer_null sz = Some e"
  shows "\<exists>s'. tag_receive env cto wait s tag level buffer_null sz = Inr (Inl e, [], s') \<and> kinv s' \<and>
    rooms_of s' = rooms_of s \<and>
    (\<exists>cs. klog (mem s') = klog (mem s) @ cs \<and> module_refs cs = 0 \<and> (\<forall>lk. lock_use lk cs = Readers 0))"
  using receive_refused [OF assms, of cto wait] assms(1)
  by (auto simp: receive_refusal_log_def lock_use_def)

lemma tag_receive_refusals_witness:
  "\<exists>s'. tag_receive (plenty 2 20) (\<lambda>_ _. 0) (\<lambda>a j s. (False, s)) demo 5 3 False 4 = Inr (Inl ENOMSG, [], s')"
proof -
  have "a_receive_check (plenty 2 20) (rooms_of demo) 5 3 False 4 = Some ENOMSG"
    by (simp add: a_receive_check_def demo(3) MAX_MESSAGE_SIZE_def)
  from tag_receive_refusals [OF demo(1) this, of "\<lambda>_ _. 0" "\<lambda>a j s. (False, s)"] show ?thesis by auto
qed

text \<open>A negative level passes the checks of \<^verbatim>\<open>tag_receive\<close>, which compare it with 32 only, and
  is then used as an index in front of the arrays of the list.\<close>

theorem tag_receive_negative_level:
  assumes "kinv s" "a_receive_check env (rooms_of s) tag level buffer_null sz = None" "sint level < 0"
  shows "tag_receive env cto wait s tag level buffer_null sz = Inl Fault"
proof -
  have "level_ix level = None" using assms(3) by (simp add: level_ix_def)
  with receive_outside [OF assms(1,2)] show ?thesis by blast
qed

lemma tag_receive_negative_level_witness:
  "tag_receive (plenty 2 20) (\<lambda>_ _. 0) (\<lambda>a j s. (False, s)) demo 0 (- 1) False 4 = Inl Fault"
  by (rule tag_receive_negative_level [OF demo(1)])
    (simp_all add: a_receive_check_def demo(3) r_allowed_def new_room_def levelDeep_def MAX_MESSAGE_SIZE_def)

end
