(* ===== verification/UseProps.thy ===== *)
theory UseProps
  imports CallProps
begin

text \<open>
  What the callers rely on across calls: a message sent reaches the reader that waits for it,
  keys identify services, private services are closed to strangers, no call damages the
  table, and which calls give back the locks and references they take.
\<close>

section \<open>Rendezvous\<close>

text \<open>A sleep in which one other thread calls \<^verbatim>\<open>tag_send\<close>: the reader goes on the queue of its level
  and the send runs.  Whether the reader then wakes up is decided by the flag of its level, which
  \<open>rcu_list_search\<close> tests; if the send is refused a signal is sent in its place.\<close>

definition until_send :: "nat \<Rightarrow> kenv \<Rightarrow> c_int \<Rightarrow> c_int \<Rightarrow> byte list \<Rightarrow> size_t \<Rightarrow> wait_fn" where
  "until_send pid env tag level buf sz = (\<lambda>a j s.
     case tag_send env (queue_reader pid a j s) tag level (Some buf) sz of
       Inr (Inr _, s') \<Rightarrow> (False, s')
     | _ \<Rightarrow> (True, s))"

text \<open>A send to a level with a sleeper raises the flag of the level.\<close>

lemma send_raises_flag:
  assumes snd: "env_sound env" and inv: "kinv s" and sl: "slot s (unat tag) = Some a" and sv: "sv_heap s a = Some sv"
    and j: "level_ix level = Some j" and q: "waitqueue_active (levels sv) j" and m: "msgs s sv level \<noteq> None"
    and run: "tag_send env s tag level (Some buf) sz = Inr (Inr r, s')" and vz: "vzalloc_ok env \<or> sz = 0"
  shows "\<exists>sv'. svc_at s' (unat tag) = Some sv' \<and> ready (levels sv') ! j = 1"
proof -
  have ok: "module_live env" "sz \<le> MAX_MESSAGE_SIZE"
  proof -
    show live: "module_live env" using run tag_send_early(1) by (rule_tac ccontr) simp
    show "sz \<le> MAX_MESSAGE_SIZE"
    proof (rule ccontr)
      assume "\<not> sz \<le> MAX_MESSAGE_SIZE"
      then have "MAX_MESSAGE_SIZE < sz" by simp
      with run tag_send_early(2) [OF live] show False by simp
    qed
  qed
  let ?s = "klog_all (send_prefix sz) s"
  have st: "kinv ?s" "slot ?s (unat tag) = Some a" "sv_heap ?s a = Some sv" using inv sl sv by simp_all
  have m': "msgs ?s sv level \<noteq> None" using m by (simp add: msgs_def rcu_same_heap [of "mem ?s" "mem s"])
  note E = run [unfolded tag_send_eq [OF inv ok(1) vz ok(2)]]
  have len: "unat sz \<le> length (take (unat sz) buf)" using E by (auto split: if_splits)
  have "send_level env ?s a sv level (take (unat sz) buf) sz = Inr (Inr r, s')"
    using E sl sv by (auto simp: Let_def split: if_splits)
  with send_level_stored [OF snd st m' j len ok(2)] q show ?thesis by auto
qed

lemma send_to_reader:
  assumes snd: "env_sound env" "vzalloc_ok env \<or> sz = 0" and inv: "kinv s" "complete s"
    and b: "budget env s 1 0" and sl: "slot s (unat tag) = Some a" and j: "level_ix level = Some j"
    and ok: "module_live env" "r_allowed env (the (rooms_of s (unat tag)))"
      "unat sz \<le> length buf" "sz \<le> MAX_MESSAGE_SIZE"
  shows "\<exists>s' sv'. tag_send env (queue_reader pid a j s) tag level (Some buf) sz = Inr (Inr 0, s') \<and>
    kinv s' \<and> complete s' \<and> slot s' (unat tag) = Some a \<and> sv_heap s' a = Some sv' \<and>
    rcu_view (mem s') (levels sv') level = Some (take (unat sz) buf, sz) \<and> \<not> waitqueue_active (levels sv') j \<and>
    wakes_up False a j s'"
proof -
  from kinv_slot [OF inv(1) sl] obtain sv where sv: "sv_heap s a = Some sv" "svc_at s (unat tag) = Some sv" by auto
  note Q = queue_reader_ok [OF inv(1) sl sv(1), where pid = pid and j = j]
  have room: "rooms_of (queue_reader pid a j s) (unat tag) =
      Some (room_of (mem s) (sv\<lparr>levels := enqueue pid j (levels sv)\<rparr>))"
    using Q(3,4) by (simp add: rooms_of_def)
  have b': "budget env (queue_reader pid a j s) (Suc 0) 0" using b Q(6) by simp
  have cmp: "complete (queue_reader pid a j s)" using inv(2) Q(5) by simp
  have al: "r_allowed env (room_of (mem s) (sv\<lparr>levels := enqueue pid j (levels sv)\<rparr>))"
    using ok(2) rooms_at [OF sv(2)] by (simp add: r_allowed_def)
  have lvl: "\<not> sint level \<ge> int levelDeep" "\<not> MAX_MESSAGE_SIZE < sz" "\<not> length buf < unat sz"
    using j ok(3,4) by (auto simp: level_ix_def split: if_splits)
  from tag_send_refines_aux [OF snd(1) Q(1) cmp b' snd(2), of tag level "Some buf"] obtain r s' where
    S: "tag_send env (queue_reader pid a j s) tag level (Some buf) sz = Inr (r, s')" "kinv s'" "complete s'"
      "(r, rooms_of s') = a_send env (rooms_of (queue_reader pid a j s)) tag level (Some buf) sz" by auto
  from S(4) ok room al lvl j obtain r' where r: "r = Inr 0" "rooms_of s' (unat tag) = Some r'"
    "r_msg r' level = Some (take (unat sz) buf, sz)" "j \<notin> set (r_sleep r')"
    by (auto simp: a_send_def)
  from r(2) obtain sv' where at: "svc_at s' (unat tag) = Some sv'" "r' = room_of (mem s') sv'"
    by (auto simp: rooms_of_def)
  have "slot s' = slot (queue_reader pid a j s)"
    using tag_send_frame [OF Q(1) S(1)] by (simp add: slot_def fun_eq_iff)
  then have sl': "slot s' (unat tag) = Some a" using Q(2) sl by simp
  then have "sv_heap s' a = Some sv'" using at(1) by (simp add: svc_at_def)
  moreover have "\<not> waitqueue_active (levels sv') j"
    using r(4) level_ix_Some [OF j] by (simp add: at(2) sleepers_def)
  moreover have "ready (levels sv') ! j = 1"
  proof -
    let ?q = "queue_reader pid a j s" and ?sv = "sv\<lparr>levels := enqueue pid j (levels sv)\<rparr>"
    have qs: "slot ?q (unat tag) = Some a" "sv_heap ?q a = Some ?sv" "svc_at ?q (unat tag) = Some ?sv"
      using Q(2,3) sl sv(1) by (simp_all add: queue_reader_def set_levels_def)
    have "quiet (levels sv)" using kinv_rcu_ok [OF inv(1) sv(2)] by (simp add: rcu_ok_def)
    then have "waitqueue_active (levels ?sv) j" using waitqueue_enqueue level_ix_Some [OF j] by simp
    moreover have "msgs ?q ?sv level \<noteq> None"
      using cmp qs(3) level_ix_Some [OF j] unfolding complete_def by auto
    ultimately show ?thesis
      using send_raises_flag [OF snd(1) Q(1) qs(1,2) j _ _ _ snd(2), of buf 0 s'] S(1) r(1) at(1) by auto
  qed
  ultimately show ?thesis using S r sl' at by (auto simp: wakes_up_def)
qed

text \<open>C11: A thread that waits in \<^verbatim>\<open>tag_receive\<close> on a level of a service gets the bytes another
  thread then sends to that level with \<^verbatim>\<open>tag_send\<close>, if no third thread acts from its falling
  asleep to its return: the send raises the flag that the reader tests and empties the queue of
  the level, and the reader returns the smaller of the two sizes and that many bytes of the
  sender's buffer.  (With a third thread the wake-up can be lost, or the message freed.)\<close>

theorem rendezvous:
  assumes "kinv s" "complete s" "copy_law cto" "copy_fair cto"
    and "a_receive_check env (rooms_of s) tag level False rsz = None"
    and "level_ix level = Some j" "slot s (unat tag) = Some a"
    and "env_sound env'" "vzalloc_ok env' \<or> sz = 0" "budget env' s 1 0" "module_live env'"
    and "r_allowed env' (the (rooms_of s (unat tag)))" "unat sz \<le> length buf" "sz \<le> MAX_MESSAGE_SIZE"
  shows "\<exists>s' sv'. tag_receive env cto (until_send pid env' tag level buf sz) s tag level False rsz =
      Inr (Inr (ucast (min rsz sz)), take (unat (min rsz sz)) buf, s') \<and>
    kinv s' \<and> svc_at s' (unat tag) = Some sv' \<and> \<not> waitqueue_active (levels sv') j \<and>
    ready (levels sv') ! j = 1"
proof -
  from kinv_slot [OF assms(1,7)] obtain sv where
    sv: "sv_heap s a = Some sv" "svc_at s (unat tag) = Some sv" by auto
  note R = receive_sleep_ok [OF assms(1,7), of j]
  let ?s = "receive_sleep a j s"
  have b: "budget env' ?s 1 0"
  proof -
    have "budget env' (klog_all receive_prefix s) 1 0" using assms(10) by simp
    then show ?thesis
      using sv(1) dom_set_levels [of "klog_all receive_prefix s" a sv "listening j (levels sv)"
          "mem (klog_all receive_prefix s)"]
      by (simp add: budget_def receive_sleep_def alloc_room_def)
  qed
  from send_to_reader [OF assms(8,9) R(1) _ b, where pid = pid and tag = tag and a = a and level = level and j = j and buf = buf] R assms
  obtain s2 sv2 where S: "tag_send env' (queue_reader pid a j ?s) tag level (Some buf) sz = Inr (Inr 0, s2)"
    "kinv s2" "slot s2 (unat tag) = Some a" "sv_heap s2 a = Some sv2"
    "rcu_view (mem s2) (levels sv2) level = Some (take (unat sz) buf, sz)" "\<not> waitqueue_active (levels sv2) j"
    "wakes_up False a j s2" by auto
  let ?w = "until_send pid env' tag level buf sz"
  have w: "?w a j ?s = (False, s2)" by (simp add: until_send_def S(1))
  let ?l = "left (epoch (levels sv)) j False (levels sv2)"
  have q: "epoch (levels sv) < 2" "quiet (levels sv2)"
    using kinv_rcu_ok [OF assms(1) sv(2)] kinv_rcu_ok [OF S(2), of "unat tag" sv2] S(3,4)
    by (simp_all add: rcu_ok_def quiet_def svc_at_def)
  note U = same_nodes_update [OF S(2-4), of ?l]
  have cut: "take (unat (min rsz sz)) (take (unat sz) buf) = take (unat (min rsz sz)) buf"
    by (simp add: min_def word_le_nat_alt)
  have "tag_receive env cto ?w s tag level False rsz =
      Inr (Inr (ucast (min rsz sz)), take (unat (min rsz sz)) buf, klogs ModulePut (set_levels a sv2 ?l s2))"
    using receive_run [where wait = ?w, OF assms(1,5,6,3,4,7) sv(1) w S(2,3,7,4)] S(5) cut
    by (simp add: receive_answer_def)
  moreover have "\<not> waitqueue_active ?l j" "ready ?l ! j = 1"
    using S(4,6,7) by (simp_all add: waitqueue_active_def left_def add_standing_def wakes_up_def)
  ultimately show ?thesis
    using U(1,2) q by (intro exI [of _ "klogs ModulePut (set_levels a sv2 ?l s2)"]
      exI [of _ "sv2\<lparr>levels := ?l\<rparr>"]) simp
qed

lemma rendezvous_witness:
  "\<exists>s'. tag_receive (plenty 2 20) (\<lambda>t k. if t < 3 then k - 1 else 0)
      (until_send 5 (plenty 1 10) 0 3 [65, 66, 67] 3) demo 0 3 False 2 = Inr (Inr 2, [65, 66], s')"
proof -
  obtain a where a: "slot demo (unat (0 :: c_int)) = Some a" using demo_slot by auto
  have cto: "copy_law (\<lambda>t k. if t < 3 then k - 1 else 0)" "copy_fair (\<lambda>t k. if t < 3 then k - 1 else 0)"
    by (auto simp: copy_law_def copy_fair_def intro: exI [of _ "max _ 3"])
  have chk: "a_receive_check (plenty 2 20) (rooms_of demo) 0 3 False 2 = None"
    by (rule demo_check) (simp add: MAX_MESSAGE_SIZE_def)
  have b: "budget (plenty 1 10) demo 1 0" by (rule budget_le [OF demo_budget]) simp_all
  have al: "r_allowed (plenty 1 10) (the (rooms_of demo (unat (0 :: c_int))))"
    by (simp add: demo(3) r_allowed_def new_room_def)
  from rendezvous [OF demo(1,2) cto chk level_3(1) a plenty_sound _ b _ al, of 3 "[65, 66, 67]" 5]
  show ?thesis by (auto simp: MAX_MESSAGE_SIZE_def)
qed

text \<open>C18: A woken \<^verbatim>\<open>tag_receive\<close> returns exactly when the user's buffer takes all the bytes there are
  to copy.  If it can be written up to fewer, \<^verbatim>\<open>copy_to_user\<close> answers the same number again and
  again, and the loop, which has no exit for an error, never ends.  (No writer acts between the
  wake-up and the copy.)\<close>

theorem tag_receive_ends:
  assumes "kinv s" "a_receive_check env (rooms_of s) tag level False rsz = None"
    and "level_ix level = Some j" "slot s (unat tag) = Some a"
    and "wait a j (receive_sleep a j s) = (False, s2)" "kinv s2" "slot s2 (unat tag) = Some a" "wakes_up False a j s2"
    and "r_msg (the (rooms_of s2 (unat tag))) level = Some (msg, msz)"
  shows "if unat (min rsz msz) \<le> w
    then \<exists>s'. tag_receive env (writable (unat (min rsz msz)) w) wait s tag level False rsz =
      Inr (Inr (ucast (min rsz msz)), take (unat (min rsz msz)) msg, s')
    else tag_receive env (writable (unat (min rsz msz)) w) wait s tag level False rsz = Inl Spin"
proof -
  from kinv_slot [OF assms(1,4)] obtain sv where sv: "sv_heap s a = Some sv" by auto
  from kinv_slot [OF assms(6,7)] obtain sv2 where
    sv2: "sv_heap s2 a = Some sv2" "svc_at s2 (unat tag) = Some sv2" by auto
  have "rcu_view (mem s2) (levels sv2) level = Some (msg, msz)" using assms(9) rooms_at [OF sv2(2)] by simp
  with receive_woken [where wait = wait and cto = "writable (unat (min rsz msz)) w", OF assms(1-4) sv assms(5-8) sv2(1)]
  show ?thesis by (simp add: copy_writable Let_def)
qed

text \<open>Three bytes for a reader whose buffer has two: only the first can be written.\<close>

lemma tag_receive_ends_witness:
  "tag_receive (plenty 2 20) (writable 2 1) (until_send 5 (plenty 1 10) 0 3 [65, 66, 67] 3) demo 0 3 False 2 =
     Inl Spin"
proof -
  obtain a where a: "slot demo (unat (0 :: c_int)) = Some a" using demo_slot by auto
  have chk: "a_receive_check (plenty 2 20) (rooms_of demo) 0 3 False 2 = None"
    by (rule demo_check) (simp add: MAX_MESSAGE_SIZE_def)
  note R = receive_sleep_ok [OF demo(1) a, of 3]
  let ?s = "receive_sleep a 3 demo"
  obtain sv where sv: "sv_heap demo a = Some sv" using kinv_slot [OF demo(1) a] by auto
  have "budget (plenty 1 10) (klog_all receive_prefix demo) 1 0" using budget_le [OF demo_budget, of 1 0] by simp
  then have b: "budget (plenty 1 10) ?s 1 0"
    using sv dom_set_levels [of "klog_all receive_prefix demo" a sv "listening 3 (levels sv)"
        "mem (klog_all receive_prefix demo)"]
    by (simp add: budget_def receive_sleep_def alloc_room_def)
  have al: "r_allowed (plenty 1 10) (the (rooms_of ?s (unat (0 :: c_int))))"
    by (simp add: R(3) demo(3) r_allowed_def new_room_def)
  from send_to_reader [OF plenty_sound _ R(1) _ b _ level_3(1) _ al, of 3 a "[65, 66, 67]" 5] R(2,5) demo(2) a
  obtain s2 sv2 where S: "tag_send (plenty 1 10) (queue_reader 5 a 3 ?s) 0 3 (Some [65, 66, 67]) 3 = Inr (Inr 0, s2)"
    "kinv s2" "slot s2 (unat (0 :: c_int)) = Some a" "sv_heap s2 a = Some sv2"
    "rcu_view (mem s2) (levels sv2) 3 = Some ([65, 66, 67], 3)" "wakes_up False a 3 s2"
    by (auto simp: MAX_MESSAGE_SIZE_def)
  have w: "until_send 5 (plenty 1 10) 0 3 [65, 66, 67] 3 a 3 ?s = (False, s2)" by (simp add: until_send_def S(1))
  have "svc_at s2 (unat (0 :: c_int)) = Some sv2" using S(3,4) by (simp add: svc_at_def)
  from rooms_at [OF this] S(5) have m: "r_msg (the (rooms_of s2 (unat (0 :: c_int)))) 3 = Some ([65, 66, 67], 3)" by simp
  from tag_receive_ends [where wait = "until_send 5 (plenty 1 10) 0 3 [65, 66, 67] 3" and w = 1,
      OF demo(1) chk level_3(1) a w S(2,3,6) m] show ?thesis by simp
qed

section \<open>Keys\<close>

text \<open>C20: The tag that \<^verbatim>\<open>CREATE\<close> answers for a public key is the one \<^verbatim>\<open>OPEN\<close> then answers for the key
  to whoever the permission admits, a second \<^verbatim>\<open>CREATE\<close> with the key is refused, and the private
  key opens nothing.\<close>

theorem create_then_open:
  assumes "env_sound env" "kinv s" "budget env s levelDeep 1"
    and "tag_get env s k CREATE p = Inr (Inr t, s')" "k \<noteq> TAG_IPC_PRIVATE"
    and "module_live env2" "p = OPEN_ROOM \<or> cur_uid env2 = 0 \<or> cur_tgid env2 = cur_tgid env"
  shows "\<exists>s2 s3 s4 e. tag_get env2 s' k OPEN p = Inr (Inr t, s2) \<and> rooms_of s2 = rooms_of s' \<and>
    tag_get env2 s' k CREATE p = Inr (Inl e, s3) \<and> e \<in> {EBADR, ETOOMANYREFS} \<and>
    tag_get env2 s' TAG_IPC_PRIVATE OPEN p = Inr (Inl EBADSLT, s4)"
proof -
  have b: "budget env s (levelDeep + 0) (Suc 0)" using assms(3) by simp
  from tag_get_refines_aux [OF assms(1,2) b, of k CREATE p] assms(4)
  have S: "kinv s'" "(Inr t, rooms_of s') = a_get env (rooms_of s) k CREATE p" by auto
  from S(2) obtain i where c: "p = OPEN_ROOM \<or> p = PRIVATE_ROOM" "k \<noteq> 0" "r_free (rooms_of s) = Some i"
    "r_find (rooms_of s) k = None" "t = of_nat i" "rooms_of s' = (rooms_of s)(i \<mapsto> new_room env k p)"
    using assms(5) by (auto simp: a_get_def a_create_def split: if_splits option.splits)
  have i: "i < min_sys_TAG_Services"
    using free_slot_Some [OF assms(2), of i] c(3) r_free_rooms [OF assms(2)] by simp
  have find: "r_find (rooms_of s') k = Some i"
    unfolding r_find_def tags_def
  proof (rule find_upt_first [OF i])
    show "has_key (rooms_of s') k i" by (simp add: c(6) has_key_def new_room_def)
    fix j assume "j < i"
    then show "\<not> has_key (rooms_of s') k j"
      using c(4) i by (auto simp: r_find_def tags_def find_None_iff has_key_def c(6))
  qed
  have adm: "permAmmisible p = 0" "keyAmmissible k = 0" "keyAmmissible TAG_IPC_PRIVATE = 0"
    using c(1,2) by (simp_all add: permAmmisible_def keyAmmissible_def)
  have inv: "kinv (klogs TryModuleGet s')" using S(1) by simp
  have "a_open env2 (rooms_of s') k = Inr t"
    using assms(5,7) c(1,5) find by (auto simp: a_open_def c(6) r_allowed_def new_room_def)
  then have opens: "\<exists>s2. tag_get env2 s' k OPEN p = Inr (Inr t, s2) \<and> rooms_of s2 = rooms_of s'"
    using adm assms(6) by (simp add: tag_get_def OPEN_eq [OF inv] Let_def)
  have priv: "\<exists>s4. tag_get env2 s' TAG_IPC_PRIVATE OPEN p = Inr (Inl EBADSLT, s4)"
    using adm assms(6) by (simp add: tag_get_def OPEN_eq [OF inv] a_open_def Let_def)
  have "\<exists>s3 e. tag_get env2 s' k CREATE p = Inr (Inl e, s3) \<and> e \<in> {EBADR, ETOOMANYREFS}"
  proof (cases "r_free (rooms_of s')")
    case None
    then show ?thesis using adm assms(6) CREATE_full [OF inv, of env2 k p] by (simp add: tag_get_def)
  next
    case (Some i')
    then show ?thesis
      using adm assms(5,6) find CREATE_used_key [OF inv, of i' k env2 p] by (simp add: tag_get_def)
  qed
  with opens priv show ?thesis by blast
qed

lemma create_then_open_witness:
  "\<exists>s2 s3 s4 e. tag_get (plenty 2 20) demo 7 OPEN OPEN_ROOM = Inr (Inr 0, s2) \<and> rooms_of s2 = rooms_of demo \<and>
    tag_get (plenty 2 20) demo 7 CREATE OPEN_ROOM = Inr (Inl e, s3) \<and> e \<in> {EBADR, ETOOMANYREFS} \<and>
    tag_get (plenty 2 20) demo TAG_IPC_PRIVATE OPEN OPEN_ROOM = Inr (Inl EBADSLT, s4)"
proof (rule create_then_open [OF plenty_sound kinv_booted])
  show "budget (plenty 1 10) empty_table levelDeep 1"
    by (rule budget_le [OF plenty_room]) (simp_all add: levelDeep_def)
  show "tag_get (plenty 1 10) empty_table 7 CREATE OPEN_ROOM = Inr (Inr 0, demo)"
    using one_service(1) [of 7 OPEN_ROOM 10] by (simp add: demo_def)
qed (simp_all add: TAG_IPC_PRIVATE_def)

section \<open>Private services\<close>

lemma public_key_found:
  assumes inv: "kinv s" and r: "rooms_of s i = Some r" and k: "r_key r \<noteq> TAG_IPC_PRIVATE"
  shows "r_find (rooms_of s) (r_key r) = Some i"
proof -
  from r obtain sv where sv: "svc_at s i = Some sv" "r = room_of (mem s) sv" by (auto simp: rooms_of_def)
  have "\<not> has_key (rooms_of s) (r_key r) j" if "j < i" for j
  proof
    assume "has_key (rooms_of s) (r_key r) j"
    then obtain sv' where "svc_at s j = Some sv'" "sv_key sv' = sv_key sv"
      using sv(2) by (auto simp: has_key_def rooms_of_def room_of_def split: option.splits)
    with kinv_keys [OF inv this(1) sv(1)] that k sv(2) show False by (simp add: room_of_def)
  qed
  then show ?thesis
    unfolding r_find_def tags_def using svc_at_bound [OF inv sv(1)] r
    by (intro find_upt_first) (auto simp: has_key_def)
qed

text \<open>C21: On a well-formed table, and with arguments that pass the checks made before (of size,
  buffer and tag, memory for the copy, a valid permission argument), a process that is neither the
  super user nor the creator of a private service is refused with EBADRQC by \<^verbatim>\<open>tag_send\<close>, by \<^verbatim>\<open>tag_receive\<close> before it sleeps, by both commands of
  \<^verbatim>\<open>tag_ctl\<close> and by \<^verbatim>\<open>OPEN\<close> with the public key of the service, and no room changes.\<close>

theorem private_refuses_strangers:
  assumes "kinv s" "rooms_of s (unat tag) = Some r" "r_perm r = PRIVATE_ROOM"
    and "module_live env" "cur_uid env \<noteq> 0" "cur_tgid env \<noteq> r_creator r"
    and "sz \<le> MAX_MESSAGE_SIZE" "unat sz \<le> length buf" "vzalloc_ok env" "0 \<le> sint tag"
  shows "\<exists>s1 s2 s3 s4.
    tag_send env s tag level (Some buf) sz = Inr (Inl EBADRQC, s1) \<and> rooms_of s1 = rooms_of s \<and>
    tag_receive env cto wait s tag level False sz = Inr (Inl EBADRQC, [], s2) \<and> rooms_of s2 = rooms_of s \<and>
    tag_ctl env s tag AWAKE_ALL = Inr (Inl EBADRQC, s3) \<and> rooms_of s3 = rooms_of s \<and>
    tag_ctl env s tag REMOVE = Inr (Inl EBADRQC, s4) \<and> rooms_of s4 = rooms_of s \<and>
    (permAmmisible p = 0 \<and> r_key r \<noteq> TAG_IPC_PRIVATE \<longrightarrow>
       (\<exists>s5. tag_get env s (r_key r) OPEN p = Inr (Inl EBADRQC, s5) \<and> rooms_of s5 = rooms_of s))"
proof -
  have no: "\<not> r_allowed env r" using assms(3,5,6) by (auto simp: r_allowed_def tag_macros)
  from assms(2) obtain sv where at: "svc_at s (unat tag) = Some sv" and r: "r = room_of (mem s) sv"
    by (auto simp: rooms_of_def)
  have nv: "\<not> validServiceOperation env sv"
    using no r_allowed_iff [OF kinv_wf [OF assms(1) at], of env "mem s"] r by simp
  from svc_at_slot [OF at] obtain a where a: "slot s (unat tag) = Some a" "sv_heap s a = Some sv" by blast
  have vz: "vzalloc_ok env \<or> sz = 0" using assms(9) by simp
  have inv: "kinv (klogs TryModuleGet s)" using assms(1) by simp
  have chk: "a_receive_check env (rooms_of s) tag level False sz = Some EBADRQC"
    using assms(2,4,7) no by (simp add: a_receive_check_def not_less)
  have opens: "\<exists>s5. tag_get env s (r_key r) OPEN p = Inr (Inl EBADRQC, s5) \<and> rooms_of s5 = rooms_of s"
    if "permAmmisible p = 0" "r_key r \<noteq> TAG_IPC_PRIVATE"
  proof -
    have "r_find (rooms_of s) (r_key r) = Some (unat tag)"
      by (rule public_key_found [OF assms(1,2) that(2)])
    then have "a_open env (rooms_of s) (r_key r) = Inl EBADRQC"
      using that(2) no assms(2) by (simp add: a_open_def)
    moreover have "keyAmmissible (r_key r) = 0"
      using kinv_wf [OF assms(1) at] r by (simp add: keyAmmissible_def svc_wf_def room_of_def)
    ultimately show ?thesis using that(1) assms(4) by (simp add: tag_get_def OPEN_eq [OF inv] Let_def)
  qed
  show ?thesis
    using opens tag_send_eq [OF assms(1,4) vz assms(7), of tag level buf] a nv assms(8)
      receive_refused [OF assms(1) chk, of cto wait]
      AWAKE_ALL_refused(2) [OF inv, of tag sv env] REMOVE_refused(2) [OF inv, of tag sv env] at assms(4,10)
    by (simp add: tag_ctl_def Let_def not_less)
qed

lemma private_refuses_strangers_witness:
  "\<exists>s1 s2 s3. tag_send (plenty 2 20) (one_service 10 7 PRIVATE_ROOM) 0 3 (Some [65]) 1 = Inr (Inl EBADRQC, s1) \<and>
    tag_ctl (plenty 2 20) (one_service 10 7 PRIVATE_ROOM) 0 REMOVE = Inr (Inl EBADRQC, s2) \<and>
    tag_get (plenty 2 20) (one_service 10 7 PRIVATE_ROOM) 7 OPEN OPEN_ROOM = Inr (Inl EBADRQC, s3)"
  using private_refuses_strangers [where p = OPEN_ROOM and tag = 0 and r = "new_room (plenty 1 10) 7 PRIVATE_ROOM"
      and env = "plenty 2 20" and sz = 1 and buf = "[65]" and level = 3, OF one_service(2) [of 7 PRIVATE_ROOM 10]]
  by (auto simp: one_service(4) new_room_def MAX_MESSAGE_SIZE_def permAmmisible_def TAG_IPC_PRIVATE_def)

end
