(* ===== verification/LockProps.thy ===== *)
theory LockProps
  imports UseProps
begin

text \<open>
  The calls each system call makes into the kernel, judged by the protocol of \<^verbatim>\<open>KernelLog\<close>:
  which outcomes give back every lock, module reference and buffer, and which do not.
\<close>

section \<open>Logs\<close>

definition locks_free :: "klog \<Rightarrow> bool" where
  "locks_free cs \<longleftrightarrow> (\<forall>lk. lock_use lk cs = Readers 0)"

lemma locks_free_simps [simp]:
  "locks_free []"
  "locks_free (TryModuleGet # cs) = locks_free cs" "locks_free (ModulePut # cs) = locks_free cs"
  "locks_free (Vzalloc n # cs) = locks_free cs" "locks_free (Vfree n # cs) = locks_free cs"
  "locks_free (WakeUpAll a j # cs) = locks_free cs"
  "locks_free (ReadLock x # ReadUnlock x # cs) = locks_free cs"
  "locks_free (WriteLock x # WriteUnlock x # cs) = locks_free cs"
  by (simp_all add: locks_free_def lock_use_def)

lemma locks_free_sections [simp]: "locks_free (write_sections lk n @ cs) = locks_free cs"
  by (induction n) simp_all

text \<open>Sections of another lock inside a section of the search lock.\<close>

lemma locks_free_nested [simp]:
  "locks_free (WriteLock SearchLock # write_sections (ListLock a) n @ [WriteUnlock SearchLock, ModulePut])"
  "locks_free (ReadLock SearchLock # write_sections (ListLock a) n @ [ReadUnlock SearchLock, ModulePut])"
proof -
  have *: "lock_use lk (x # write_sections (ListLock a) n @ [y, ModulePut]) = Readers 0"
    if "x = WriteLock SearchLock \<and> y = WriteUnlock SearchLock \<or> x = ReadLock SearchLock \<and> y = ReadUnlock SearchLock"
    for lk x y
    using that by (cases "lk = SearchLock") (auto simp: lock_use_def)
  show "locks_free (WriteLock SearchLock # write_sections (ListLock a) n @ [WriteUnlock SearchLock, ModulePut])"
    "locks_free (ReadLock SearchLock # write_sections (ListLock a) n @ [ReadUnlock SearchLock, ModulePut])"
    unfolding locks_free_def by (intro allI *; simp)+
qed

definition adds_log :: "kstate \<Rightarrow> kstate \<Rightarrow> klog \<Rightarrow> bool" where
  "adds_log s s' cs \<longleftrightarrow> klog (mem s') = klog (mem s) @ cs"

section \<open>tag_send\<close>

text \<open>What \<^verbatim>\<open>tag_send\<close> keeps of the buffer it allocated: the message stored owns it; the refusals
  ENODATA, ENOMSG and EBADMSG forget it.\<close>

definition keeps_buffer :: "rv \<Rightarrow> bool" where
  "keeps_buffer r = (case r of Inr _ \<Rightarrow> True | Inl e \<Rightarrow> e \<in> {ENODATA, ENOMSG, EBADMSG})"

lemma wake_log_simps [simp]:
  "module_refs (wake_log a j l) = 0" "buffers_held (wake_log a j l) = 0"
  "locks_free (wake_log a j l @ cs) = locks_free cs"
  by (simp_all add: wake_log_def)

lemma send_prefix_simps [simp]:
  "module_refs (send_prefix sz) = 1" "buffers_held (send_prefix sz) = (if sz = 0 then 0 else 1)" "locks_free (send_prefix sz @ cs) = locks_free cs"
  by (simp_all add: send_prefix_def)

text \<open>C22: For a level between 0 and 31 every outcome of \<^verbatim>\<open>tag_send\<close> gives back the search lock,
  the list's lock and the reference to the module.  The buffer, when the message
  has any bytes, stays allocated when the message is stored, and also, with nothing left pointing to it, when the copy from user space fails,
  when no service has the tag and when the message cannot be stored.\<close>

theorem tag_send_gives_back:
  assumes "env_sound env" "kinv s" "complete s" "vzalloc_ok env" "level_ix level \<noteq> None"
    and "tag_send env s tag level buffer sz = Inr (r, s')"
  shows "\<exists>cs. adds_log s s' cs \<and> locks_free cs \<and> module_refs cs = 0 \<and>
    buffers_held cs = (if keeps_buffer r \<and> sz \<noteq> 0 then 1 else 0)"
proof (cases "\<not> module_live env \<or> buffer = None \<or> MAX_MESSAGE_SIZE < sz")
  case True
  then show ?thesis using assms(6) tag_send_early
    by (cases "module_live env") (auto simp: adds_log_def keeps_buffer_def)
next
  case False
  then obtain ubuf where ok: "module_live env" "buffer = Some ubuf" "sz \<le> MAX_MESSAGE_SIZE" by auto
  have vz: "vzalloc_ok env \<or> sz = 0" using assms(4) by simp
  note E = assms(6) [unfolded ok(2) tag_send_eq [OF assms(2) ok(1) vz ok(3)]]
  show ?thesis
  proof (cases "slot s (unat tag)")
    case None
    with E show ?thesis by (auto simp: adds_log_def keeps_buffer_def send_prefix_def split: if_splits)
  next
    case (Some a)
    with kinv_slot [OF assms(2) Some] obtain sv where
      sv: "sv_heap s a = Some sv" and at: "svc_at s (unat tag) = Some sv" by auto
    let ?s = "klog_all (send_prefix sz) s"
    have st: "kinv ?s" "slot ?s (unat tag) = Some a" "sv_heap ?s a = Some sv" "complete ?s"
      using assms(2,3) Some sv by simp_all
    from assms(5) obtain j where j: "level_ix level = Some j" by auto
    have m: "msgs ?s sv level \<noteq> None"
      using st(4) at level_ix_Some [OF j] unfolding complete_def by auto
    have "\<exists>cs. adds_log s s' (send_prefix sz @ cs) \<and> locks_free cs \<and> module_refs cs = - 1 \<and>
        buffers_held cs = 0 \<and> keeps_buffer r"
      if "send_level env ?s a sv level (take (unat sz) ubuf) sz = Inr (r, s')" "unat sz \<le> length ubuf"
      using send_level_stored [OF assms(1) st(1-3) m j, where buf = "take (unat sz) ubuf" and sz = sz] that ok(3)
      by (auto simp: adds_log_def keeps_buffer_def)
    then show ?thesis using E Some sv
      by (fastforce simp: Let_def adds_log_def keeps_buffer_def not_less split: if_splits)
  qed
qed

lemma tag_send_gives_back_witness:
  "\<exists>s' cs. tag_send (plenty 2 20) demo 9 3 (Some [65]) 1 = Inr (Inl ENOMSG, s') \<and>
    adds_log demo s' cs \<and> locks_free cs \<and> module_refs cs = 0 \<and> buffers_held cs = 1"
proof -
  have "slot demo (unat (9 :: c_int)) = None" using demo(1,3) rooms_of_None [of demo 9] by simp
  then obtain s' where s': "tag_send (plenty 2 20) demo 9 3 (Some [65]) 1 = Inr (Inl ENOMSG, s')"
    using tag_send_eq [OF demo(1), of "plenty 2 20" 1 9 3 "[65]"] by (simp add: MAX_MESSAGE_SIZE_def)
  from tag_send_gives_back [OF plenty_sound demo(1,2) _ _ s'] level_3(1) s' show ?thesis
    by (auto simp: keeps_buffer_def)
qed

text \<open>A negative level passes the checks of \<^verbatim>\<open>tag_send\<close>, which compare it with 32 only: the call
  returns EBADMSG with the write lock of the service's list still held, and the next writer of
  that list waits for ever.\<close>

theorem tag_send_negative_level:
  assumes "env_sound env" "kinv s" "sint level < 0" "module_live env" "vzalloc_ok env"
    and "sz \<le> MAX_MESSAGE_SIZE" "unat sz \<le> length buf" "slot s (unat tag) = Some a"
    and "r_allowed env (the (rooms_of s (unat tag)))" "kmalloc_element env (el_heap (mem s)) \<noteq> None"
  shows "\<exists>s' cs. tag_send env s tag level (Some buf) sz = Inr (Inl EBADMSG, s') \<and>
    rooms_of s' = rooms_of s \<and> adds_log s s' cs \<and> lock_use (ListLock a) cs = Writer \<and>
    lock_use (ListLock a) (cs @ [WriteLock (ListLock a)]) = Blocked"
proof -
  from kinv_slot [OF assms(2,8)] obtain sv where
    sv: "sv_heap s a = Some sv" and at: "svc_at s (unat tag) = Some sv" by auto
  let ?s = "klog_all (send_prefix sz) s"
  have st: "kinv ?s" "slot ?s (unat tag) = Some a" "sv_heap ?s a = Some sv" "svc_at ?s (unat tag) = Some sv"
    using assms(2,8) sv at by simp_all
  have neg: "level_ix level = None" "\<not> sint level \<ge> int levelDeep" using assms(3) by (simp_all add: level_ix_def)
  have "msgs ?s sv level = None"
    using level_ix_negative [OF neg(1) kinv_wf [OF st(1,4)]] by (simp add: msgs_def)
  from send_level_missing [OF assms(1) st(1-3) this, of "take (unat sz) buf" sz] assms(10)
  obtain s' where S: "send_level env ?s a sv level (take (unat sz) buf) sz = Inr (Inl EBADMSG, s')"
    "rooms_of s' = rooms_of s" "klog (mem s') = klog (mem ?s) @ [WriteLock (ListLock a), ModulePut]"
    by (auto split: if_splits)
  have "validServiceOperation env sv"
    using assms(9) rooms_at [OF at] r_allowed_iff [OF kinv_wf [OF assms(2) at], of env "mem s"] by simp
  then have "tag_send env s tag level (Some buf) sz = Inr (Inl EBADMSG, s')"
    using tag_send_eq [OF assms(2,4) _ assms(6), of tag level buf] assms(5,7,8) sv neg(2) S(1) by (simp add: Let_def)
  moreover have "adds_log s s' (send_prefix sz @ [WriteLock (ListLock a), ModulePut])"
    using S(3) by (simp add: adds_log_def)
  moreover have "lock_use (ListLock a) (send_prefix sz @ [WriteLock (ListLock a), ModulePut]) = Writer"
    "lock_use (ListLock a) ((send_prefix sz @ [WriteLock (ListLock a), ModulePut]) @ [WriteLock (ListLock a)]) = Blocked"
    by (simp_all add: lock_use_def send_prefix_def)
  ultimately show ?thesis using S(2) by blast
qed

lemma tag_send_negative_level_witness:
  "\<exists>s'. tag_send (plenty 2 20) demo 0 (- 1) (Some [65]) 1 = Inr (Inl EBADMSG, s') \<and> rooms_of s' = rooms_of demo"
proof -
  obtain a where a: "slot demo (unat (0 :: c_int)) = Some a" using demo_slot by auto
  have "budget (plenty 2 20) demo (levelDeep + 0) 0" by (rule budget_le [OF demo_budget]) simp_all
  then have "kmalloc_element (plenty 2 20) (el_heap (mem demo)) \<noteq> None" using budget_node by blast
  with tag_send_negative_level [OF plenty_sound demo(1) _ _ _ _ _ a, of "- 1" 2 20 1 "[65]"] show ?thesis
    by (auto simp: demo(3) r_allowed_def new_room_def MAX_MESSAGE_SIZE_def)
qed

section \<open>tag_get\<close>

text \<open>The outcomes after which the reference taken by \<^verbatim>\<open>try_module_get\<close> is not given back.\<close>

definition keeps_reference :: "kenv \<Rightarrow> c_int \<Rightarrow> c_int \<Rightarrow> c_int \<Rightarrow> rv \<Rightarrow> bool" where
  "keeps_reference env k command p r \<longleftrightarrow> module_live env \<and> permAmmisible p = 0 \<and> keyAmmissible k = 0 \<and>
     (command \<noteq> CREATE \<and> command \<noteq> OPEN \<or> command = OPEN \<and> (k = TAG_IPC_PRIVATE \<or> (\<exists>t. r = Inr t)))"

lemma open_log_simps [simp]:
  "locks_free (open_log r)"
  "r \<noteq> Inl EBADSLT \<Longrightarrow> module_refs (open_log r) = (if \<exists>t. r = Inr t then 0 else - 1)"
  "module_refs (open_log (Inl EBADSLT)) = 0"
proof -
  show "locks_free (open_log r)" "r \<noteq> Inl EBADSLT \<Longrightarrow> module_refs (open_log r) = (if \<exists>t. r = Inr t then 0 else - 1)"
    by (cases r; auto simp: open_log_def split: errno.splits)+
qed (simp add: open_log_def)

lemma a_open_private: "a_open env R k = Inl EBADSLT \<longleftrightarrow> k = TAG_IPC_PRIVATE"
  by (auto simp: a_open_def split: option.splits)

lemma CREATE_log:
  assumes "env_sound env" "kinv s" "k \<noteq> 0" "p = OPEN_ROOM \<or> p = PRIVATE_ROOM"
    and run: "tag_get_CREATE env s k p = Inr (r, s')"
  shows "\<exists>cs. adds_log s s' cs \<and> locks_free cs \<and> module_refs cs = - 1"
proof (cases "r_free (rooms_of s)")
  case None
  with run CREATE_full [OF assms(2) None] show ?thesis by (auto simp: adds_log_def)
next
  case (Some i)
  show ?thesis
  proof (cases "k \<noteq> TAG_IPC_PRIVATE \<and> r_find (rooms_of s) k \<noteq> None")
    case True
    with run CREATE_used_key [OF assms(2) Some] show ?thesis by (auto simp: adds_log_def)
  next
    case False
    then have key: "k = TAG_IPC_PRIVATE \<or> r_find (rooms_of s) k = None" by simp
    obtain a where al: "kmalloc_service env (sv_heap s) = Some a"
      using run CREATE_no_memory [OF assms(2) Some key, of env p]
      by (cases "kmalloc_service env (sv_heap s)") auto
    obtain n where "klog (mem s') = klog (mem s) @ [WriteLock SearchLock] @ write_sections (ListLock a) n @
        [WriteUnlock SearchLock, ModulePut]"
      by (rule CREATE_ok [OF assms(1,2) Some al assms(3,4) key]) (use run in auto)
    then have "adds_log s s' (WriteLock SearchLock # write_sections (ListLock a) n @ [WriteUnlock SearchLock, ModulePut])"
      by (simp add: adds_log_def)
    then show ?thesis
      by (intro exI [of _ "WriteLock SearchLock # write_sections (ListLock a) n @ [WriteUnlock SearchLock, ModulePut]"]) simp
  qed
qed

lemma tag_get_log:
  assumes "env_sound env" "kinv s" "tag_get env s k command p = Inr (r, s')"
  shows "\<exists>cs. adds_log s s' cs \<and> locks_free cs \<and>
    module_refs cs = (if keeps_reference env k command p r then 1 else 0)"
proof -
  let ?s = "klogs TryModuleGet s"
  have inv: "kinv ?s" using assms(2) by simp
  consider "\<not> module_live env \<or> permAmmisible p \<noteq> 0 \<or> keyAmmissible k \<noteq> 0 \<or> command \<noteq> CREATE \<and> command \<noteq> OPEN"
    | "module_live env" "permAmmisible p = 0" "keyAmmissible k = 0" "command = OPEN"
    | "module_live env" "permAmmisible p = 0" "keyAmmissible k = 0" "command = CREATE"
    by blast
  then show ?thesis
  proof cases
    case 1
    with assms(3) show ?thesis
      by (auto simp: tag_get_def put_return_def Let_def adds_log_def keeps_reference_def split: if_splits)
  next
    case 2
    with assms(3) have r: "r = a_open env (rooms_of s) k" "s' = klog_all (open_log r) ?s"
      by (auto simp: tag_get_def OPEN_eq [OF inv] Let_def)
    then have "adds_log s s' (TryModuleGet # open_log r)" by (simp add: adds_log_def)
    moreover have "module_refs (open_log r) = (if r = Inl EBADSLT \<or> (\<exists>t. r = Inr t) then 0 else - 1)"
      by (cases "r = Inl EBADSLT") simp_all
    moreover have "r = Inl EBADSLT \<longleftrightarrow> k = TAG_IPC_PRIVATE"
      using r(1) by (simp add: a_open_private)
    ultimately have "adds_log s s' (TryModuleGet # open_log r)"
      "module_refs (TryModuleGet # open_log r) = (if keeps_reference env k command p r then 1 else 0)"
      using 2 by (simp_all add: keeps_reference_def)
    then show ?thesis by (intro exI [of _ "TryModuleGet # open_log r"]) simp
  next
    case 3
    then have k: "k \<noteq> 0" "p = OPEN_ROOM \<or> p = PRIVATE_ROOM"
      by (auto simp: permAmmisible_def keyAmmissible_def split: if_splits)
    have run: "tag_get_CREATE env ?s k p = Inr (r, s')" using assms(3) 3 by (simp add: tag_get_def)
    have kr: "\<not> keeps_reference env k command p r" using 3(4) by (simp add: keeps_reference_def)
    from CREATE_log [OF assms(1) inv k run] kr show ?thesis by (auto simp: adds_log_def)
  qed
qed

text \<open>C23: A \<^verbatim>\<open>tag_get\<close> that runs alone on a well-formed table gives back every lock it takes.  It
  gives back the reference to the module too, except when \<^verbatim>\<open>OPEN\<close> succeeds, when \<^verbatim>\<open>OPEN\<close> is called
  with the private key and when the command is neither of the two: after those, one reference stays
  taken.  (Calls that overlap can make \<^verbatim>\<open>CREATE\<close> return with the lock held.)\<close>

theorem tag_get_references:
  assumes "env_sound env" "kinv s" "tag_get env s k command p = Inr (r, s')"
  shows "\<exists>cs. adds_log s s' cs \<and> locks_free cs \<and>
    module_refs cs = (if keeps_reference env k command p r then 1 else 0)"
  using assms by (rule tag_get_log)

lemma tag_get_references_witness:
  "\<exists>s' cs. tag_get (plenty 2 20) demo 7 OPEN OPEN_ROOM = Inr (Inr 0, s') \<and> adds_log demo s' cs \<and>
    locks_free cs \<and> module_refs cs = 1"
proof -
  have "r_find (rooms_of demo) 7 = Some 0"
    by (simp add: demo(3) r_find_def tags_def has_key_def min_sys_TAG_Services_def upt_rec new_room_def)
  then have "a_open (plenty 2 20) (rooms_of demo) 7 = Inr 0"
    by (simp add: a_open_def TAG_IPC_PRIVATE_def demo(3) r_allowed_def new_room_def)
  moreover have inv: "kinv (klogs TryModuleGet demo)" using demo(1) by simp
  ultimately obtain s' where s': "tag_get (plenty 2 20) demo 7 OPEN OPEN_ROOM = Inr (Inr 0, s')"
    by (simp add: tag_get_def OPEN_eq [OF inv] permAmmisible_def keyAmmissible_def Let_def)
  from tag_get_references [OF plenty_sound demo(1) s'] s' show ?thesis
    by (auto simp: keeps_reference_def permAmmisible_def keyAmmissible_def)
qed

section \<open>tag_ctl\<close>

text \<open>C24: \<^verbatim>\<open>REMOVE\<close> gives back the search lock and the reference when it removes.  Refusing a
  stranger it returns with the search lock held for reading, and refusing a service in use also
  with the reference to the module: every \<^verbatim>\<open>CREATE\<close> after such a refusal, and any other writer of
  the table, waits for ever.\<close>

theorem remove_refusals_keep_lock:
  assumes "kinv s" "svc_at s (unat tag) = Some sv" "module_live env" "0 \<le> sint tag"
    and "\<not> validServiceOperation env sv \<or> sleepers (levels sv) \<noteq> []"
  shows "\<exists>e s' cs. tag_ctl env s tag REMOVE = Inr (Inl e, s') \<and> adds_log s s' cs \<and> svc_at s' = svc_at s \<and>
    e = (if validServiceOperation env sv then EADDRINUSE else EBADRQC) \<and>
    module_refs cs = (if validServiceOperation env sv then 1 else 0) \<and>
    lock_use SearchLock cs = Readers 1 \<and> lock_use SearchLock (cs @ [WriteLock SearchLock]) = Blocked"
proof -
  have inv: "kinv (klogs TryModuleGet s)" using assms(1) by simp
  have go: "tag_ctl env s tag REMOVE = tag_ctl_TBDE_REMOVE env (klogs TryModuleGet s) tag"
    using assms(3,4) by (simp add: tag_ctl_def)
  show ?thesis
  proof (cases "validServiceOperation env sv")
    case True
    with go REMOVE_refused(3) [OF inv, of tag sv env] assms(2,5) show ?thesis
      by (intro exI [of _ EADDRINUSE] exI [of _ "klog_all [ReadLock SearchLock] (klogs TryModuleGet s)"]
          exI [of _ "[TryModuleGet, ReadLock SearchLock]"]) (simp add: adds_log_def lock_use_def)
  next
    case False
    with go REMOVE_refused(2) [OF inv, of tag sv env] assms(2) show ?thesis
      by (intro exI [of _ EBADRQC] exI [of _ "klog_all [ReadLock SearchLock, ModulePut] (klogs TryModuleGet s)"]
          exI [of _ "[TryModuleGet, ReadLock SearchLock, ModulePut]"]) (simp add: adds_log_def lock_use_def)
  qed
qed

lemma remove_refusals_keep_lock_witness:
  "\<exists>s' cs. tag_ctl (plenty 2 20) (one_service 10 7 PRIVATE_ROOM) 0 REMOVE = Inr (Inl EBADRQC, s') \<and>
    lock_use SearchLock (cs @ [WriteLock SearchLock]) = Blocked"
proof -
  have "rooms_of (one_service 10 7 PRIVATE_ROOM) 0 = Some (new_room (plenty 1 10) 7 PRIVATE_ROOM)"
    by (simp add: one_service(4))
  then obtain sv where sv: "svc_at (one_service 10 7 PRIVATE_ROOM) (unat (0 :: c_int)) = Some sv"
    "sv_perm sv = PRIVATE_ROOM" "uid_Creator sv = 10"
    by (auto simp: rooms_of_def room_of_def new_room_def)
  have inv: "kinv (one_service 10 7 PRIVATE_ROOM)" by (rule one_service) simp_all
  have "\<not> validServiceOperation (plenty 2 20) sv" using sv by (simp add: validServiceOperation_def)
  with remove_refusals_keep_lock [OF inv sv(1), of "plenty 2 20"] show ?thesis by auto
qed

text \<open>C25: A successful \<^verbatim>\<open>AWAKE_ALL\<close> sets the wake flag of every level, wakes all 32 queues, gives
  back the reference to the module, and then releases the search lock for writing, which it does
  not hold.\<close>

theorem awake_all_misuses_lock:
  assumes "kinv s" "svc_at s (unat tag) = Some sv" "module_live env" "0 \<le> sint tag"
    and "validServiceOperation env sv"
  shows "\<exists>a s' cs sv'. tag_ctl env s tag AWAKE_ALL = Inr (Inr 0, s') \<and> adds_log s s' cs \<and>
    svc_at s' (unat tag) = Some sv' \<and> ready (levels sv') = replicate levelDeep 1 \<and>
    (\<forall>j < levelDeep. WakeUpAll a j \<in> set cs \<and> \<not> waitqueue_active (levels sv') j) \<and>
    module_refs cs = 0 \<and> lock_use SearchLock cs = Misused"
proof -
  have inv: "kinv (klogs TryModuleGet s)" using assms(1) by simp
  from svc_at_slot [OF assms(2)] obtain a where a: "slot s (unat tag) = Some a" "sv_heap s a = Some sv" by blast
  from AWAKE_ALL_ok [OF inv _ _ assms(5), of tag a] a obtain s' where S:
    "tag_ctl_TBDE_AWAKE_ALL env (klogs TryModuleGet s) tag = Inr (Inr 0, s')"
    "svc_at s' (unat tag) = Some (sv\<lparr>levels := all_awake (levels sv)\<rparr>)"
    "klog (mem s') = klog (mem s) @ TryModuleGet # awake_log a" by auto
  have run: "tag_ctl env s tag AWAKE_ALL = Inr (Inr 0, s')" using S(1) assms(3,4) by (simp add: tag_ctl_def not_less)
  have wake: "foldl (lock_step lk) st (map (WakeUpAll a) js) = st" "module_refs (map (WakeUpAll a) js) = 0"
    for lk st js by (induction js) simp_all
  have "module_refs (TryModuleGet # awake_log a) = 0" "lock_use SearchLock (TryModuleGet # awake_log a) = Misused"
    by (simp_all add: awake_log_def lock_use_def wake)
  moreover have "\<forall>j < levelDeep. WakeUpAll a j \<in> set (TryModuleGet # awake_log a)"
    by (auto simp: awake_log_def)
  moreover have "\<forall>j < levelDeep. \<not> waitqueue_active (all_awake (levels sv)) j"
    by (simp add: waitqueue_active_def all_awake_def)
  ultimately show ?thesis
    using run S(2,3)
    by (intro exI [of _ a] exI [of _ s'] exI [of _ "TryModuleGet # awake_log a"]
        exI [of _ "sv\<lparr>levels := all_awake (levels sv)\<rparr>"]) (simp add: adds_log_def)
qed

lemma awake_all_misuses_lock_witness:
  "\<exists>s' cs. tag_ctl (plenty 2 20) demo 0 AWAKE_ALL = Inr (Inr 0, s') \<and> adds_log demo s' cs \<and>
    lock_use SearchLock cs = Misused"
proof -
  have "rooms_of demo 0 = Some (new_room (plenty 1 10) 7 OPEN_ROOM)" by (simp add: demo(3))
  then obtain sv where sv: "svc_at demo (unat (0 :: c_int)) = Some sv" "sv_perm sv = OPEN_ROOM"
    by (auto simp: rooms_of_def room_of_def new_room_def)
  have "validServiceOperation (plenty 2 20) sv" using sv by (simp add: validServiceOperation_def)
  with awake_all_misuses_lock [OF demo(1) sv(1), of "plenty 2 20"] show ?thesis by auto
qed

end
