(* ===== verification/LockRuns.thy ===== *)
theory LockRuns
  imports LockProps
begin

text \<open>
  Runs of calls on a machine whose locks block: the states of all locks are carried from call to
  call, and a call that takes a lock which nobody will give back never returns.
\<close>

section \<open>Locks from call to call\<close>

type_synonym locks = "lock \<Rightarrow> lock_st"

definition all_free :: locks where
  "all_free = (\<lambda>lk. Readers 0)"

definition hold :: "klog \<Rightarrow> locks \<Rightarrow> locks" where
  "hold cs L = (\<lambda>lk. foldl (lock_step lk) (L lk) cs)"

fun lock_of :: "kcall \<Rightarrow> lock option" where
  "lock_of (ReadLock lk) = Some lk"
| "lock_of (ReadUnlock lk) = Some lk"
| "lock_of (WriteLock lk) = Some lk"
| "lock_of (WriteUnlock lk) = Some lk"
| "lock_of _ = None"

definition meets :: "lock_st \<Rightarrow> klog \<Rightarrow> locks \<Rightarrow> bool" where
  "meets st cs L \<longleftrightarrow> list_ex (\<lambda>c. case lock_of c of None \<Rightarrow> False | Some lk \<Rightarrow> L lk = st) cs"

text \<open>The lock of a list that has been freed is no lock any more: \<^verbatim>\<open>list_init\<close> makes a new one when
  the address is used again.  A lock given back by a thread that does not hold it is free if the
  kernel bears this, as the queued locks of x86 do (\<open>tolerant\<close>); otherwise the call has no
  defined outcome.\<close>

definition next_locks :: "kstate \<Rightarrow> locks \<Rightarrow> locks" where
  "next_locks s L = (\<lambda>lk. case lk of
     ListLock a \<Rightarrow> if sv_heap s a = None \<or> L lk = Misused then Readers 0 else L lk
   | SearchLock \<Rightarrow> if L lk = Misused then Readers 0 else L lk)"

definition locked_call :: "bool \<Rightarrow> kenv \<Rightarrow> kstate \<Rightarrow> locks \<Rightarrow> call \<Rightarrow> (rv \<times> kstate \<times> locks) res" where
  "locked_call tolerant env s L c = rbind (run_call env s c) (\<lambda>(r, s').
     let cs = drop (length (klog (mem s))) (klog (mem s')); L' = hold cs L
     in if meets Blocked cs L' then Inl Spin
        else if meets Misused cs L' \<and> \<not> tolerant then Inl Fault
        else Inr (r, s', next_locks s' L'))"

fun run_locked :: "bool \<Rightarrow> (kenv \<times> call) list \<Rightarrow> kstate \<Rightarrow> locks \<Rightarrow> (rv list \<times> kstate \<times> locks) res" where
  "run_locked tolerant [] s L = Inr ([], s, L)"
| "run_locked tolerant ((env, c) # cs) s L =
     rbind (locked_call tolerant env s L c) (\<lambda>(r, s1, L1).
     rbind (run_locked tolerant cs s1 L1) (\<lambda>(rs, s2, L2). Inr (r # rs, s2, L2)))"

section \<open>Calls that leave a lock behind\<close>

text \<open>Three answers come with a lock that stays held, and one with a lock given back by the wrong
  thread; all four can be told from the rooms.\<close>

definition leaves_lock :: "kenv \<Rightarrow> rooms \<Rightarrow> call \<Rightarrow> bool" where
  "leaves_lock env R c \<longleftrightarrow> (case c of
     Get k command p \<Rightarrow> False
   | Send tag level buffer sz \<Rightarrow> fst (a_call env R c) = Inl EBADMSG
   | Ctl tag command \<Rightarrow> command = REMOVE \<and> fst (a_call env R c) \<in> {Inl EBADRQC, Inl EADDRINUSE})"

definition bad_release :: "kenv \<Rightarrow> rooms \<Rightarrow> call \<Rightarrow> bool" where
  "bad_release env R c \<longleftrightarrow> (case c of
     Ctl tag command \<Rightarrow> command = AWAKE_ALL \<and> fst (a_call env R c) = Inr 0 | _ \<Rightarrow> False)"

fun orderly :: "bool \<Rightarrow> (kenv \<times> call) list \<Rightarrow> rooms \<Rightarrow> bool" where
  "orderly tolerant [] R = True"
| "orderly tolerant ((env, c) # cs) R \<longleftrightarrow> \<not> leaves_lock env R c \<and> (bad_release env R c \<longrightarrow> tolerant) \<and>
     orderly tolerant cs (snd (a_call env R c))"

section \<open>What a call does to the locks\<close>

lemma hold_free: "hold cs all_free = (\<lambda>lk. lock_use lk cs)"
  by (simp add: hold_def all_free_def lock_use_def)

lemma meets_free: "st \<noteq> Readers 0 \<Longrightarrow> \<not> meets st cs all_free"
  by (simp add: meets_def all_free_def list_ex_iff split: option.split)

lemma next_free [simp]: "next_locks s all_free = all_free"
  by (simp add: next_locks_def all_free_def fun_eq_iff split: lock.split)

lemma locked_free:
  assumes "run_call env s c = Inr (r, s')" "adds_log s s' cs" "locks_free cs"
  shows "locked_call tolerant env s all_free c = Inr (r, s', all_free)"
proof -
  have "hold cs all_free = all_free"
    using assms(3) unfolding hold_free by (simp add: locks_free_def all_free_def)
  then show ?thesis using assms(1,2) by (simp add: locked_call_def adds_log_def Let_def meets_free)
qed

lemma wakes_hold: "foldl (lock_step lk) st (map (WakeUpAll a) js) = st"
  by (induction js) simp_all

lemma locked_awake:
  assumes "run_call env s c = Inr (r, s')" "adds_log s s' (TryModuleGet # awake_log a)"
  shows "locked_call tolerant env s all_free c = (if tolerant then Inr (r, s', all_free) else Inl Fault)"
proof -
  let ?cs = "TryModuleGet # awake_log a"
  have h: "hold ?cs all_free = all_free(SearchLock := Misused)"
    unfolding hold_free by (simp add: fun_eq_iff all_free_def lock_use_def awake_log_def wakes_hold)
  have "\<not> meets Blocked ?cs (all_free(SearchLock := Misused))"
    by (simp add: meets_def all_free_def list_ex_iff split: option.split)
  moreover have "meets Misused ?cs (all_free(SearchLock := Misused))"
    by (simp add: meets_def list_ex_iff awake_log_def)
  moreover have "next_locks s' (all_free(SearchLock := Misused)) = all_free"
    by (simp add: next_locks_def all_free_def fun_eq_iff split: lock.split)
  ultimately show ?thesis using assms by (simp add: locked_call_def adds_log_def Let_def h)
qed

text \<open>\<^verbatim>\<open>tag_send\<close> leaves a lock held only with the answer EBADMSG.\<close>

lemma send_log:
  assumes snd: "env_sound env" and inv: "kinv s" and run: "tag_send env s tag level buffer sz = Inr (r, s')"
    and vz: "vzalloc_ok env \<or> sz = 0" and r: "r \<noteq> Inl EBADMSG"
  shows "\<exists>cs. adds_log s s' cs \<and> locks_free cs"
proof (cases "\<not> module_live env \<or> buffer = None \<or> MAX_MESSAGE_SIZE < sz")
  case True
  with run tag_send_early show ?thesis by (cases "module_live env") (auto simp: adds_log_def)
next
  case False
  then obtain ubuf where ok: "module_live env" "buffer = Some ubuf" "sz \<le> MAX_MESSAGE_SIZE" by auto
  note E = run [unfolded ok(2) tag_send_eq [OF inv ok(1) vz ok(3)]]
  show ?thesis
  proof (cases "slot s (unat tag)")
    case None
    with E show ?thesis by (auto simp: adds_log_def send_prefix_def split: if_splits)
  next
    case (Some a)
    with kinv_slot [OF inv Some] obtain sv where sv: "sv_heap s a = Some sv" by auto
    let ?s = "klog_all (send_prefix sz) s"
    have st: "kinv ?s" "slot ?s (unat tag) = Some a" "sv_heap ?s a = Some sv" "svc_at ?s (unat tag) = Some sv"
      using inv Some sv by (simp_all add: svc_at_def)
    have "\<exists>cs. adds_log s s' (send_prefix sz @ cs) \<and> locks_free cs"
      if L: "send_level env ?s a sv level (take (unat sz) ubuf) sz = Inr (r, s')" and len: "unat sz \<le> length ubuf"
    proof (cases "msgs ?s sv level")
      case None
      from send_level_missing [OF snd st(1-3) None, of "take (unat sz) ubuf" sz] L r show ?thesis by auto
    next
      case (Some v)
      then obtain j where j: "level_ix level = Some j"
        using level_ix_negative [of level "mem ?s" "unat tag" sv] kinv_wf [OF st(1,4)]
        by (cases "level_ix level") (auto simp: msgs_def)
      from send_level_stored [OF snd st(1-3) _ j, where buf = "take (unat sz) ubuf" and sz = sz] L r len ok(3) Some
      show ?thesis by (auto simp: adds_log_def)
    qed
    then show ?thesis using E Some sv
      by (fastforce simp: Let_def adds_log_def not_less split: if_splits)
  qed
qed

text \<open>\<^verbatim>\<open>tag_ctl\<close>: its outcomes and their logs.\<close>

lemma ctl_log:
  assumes snd: "env_sound env" and inv: "kinv s" and run: "tag_ctl env s tag command = Inr (r, s')"
    and keep: "\<not> (command = REMOVE \<and> r \<in> {Inl EBADRQC, Inl EADDRINUSE})"
  shows "(\<exists>cs. adds_log s s' cs \<and> locks_free cs) \<and> \<not> (command = AWAKE_ALL \<and> r = Inr 0) \<or>
    command = AWAKE_ALL \<and> r = Inr 0 \<and> (\<exists>a. adds_log s s' (TryModuleGet # awake_log a))"
proof -
  let ?s = "klogs TryModuleGet s"
  have inv': "kinv ?s" using inv by simp
  consider "\<not> module_live env \<or> sint tag < 0 \<or> command \<noteq> AWAKE_ALL \<and> command \<noteq> REMOVE"
    | "module_live env" "\<not> sint tag < 0" "command = AWAKE_ALL" | "module_live env" "\<not> sint tag < 0" "command = REMOVE"
    by blast
  then show ?thesis
  proof cases
    case 1
    with run show ?thesis by (auto simp: tag_ctl_def put_return_def Let_def adds_log_def split: if_splits)
  next
    case 2
    with run have A: "tag_ctl_TBDE_AWAKE_ALL env ?s tag = Inr (r, s')" by (simp add: tag_ctl_def)
    show ?thesis
    proof (cases "\<exists>a sv. slot s (unat tag) = Some a \<and> sv_heap s a = Some sv \<and> validServiceOperation env sv")
      case True
      then obtain a sv where a: "slot ?s (unat tag) = Some a" "sv_heap ?s a = Some sv" "validServiceOperation env sv"
        by auto
      from AWAKE_ALL_ok [OF inv' a] A 2(3) show ?thesis by (auto simp: adds_log_def)
    next
      case False
      then show ?thesis
        using A AWAKE_ALL_refused [OF inv', of tag] kinv_slot [OF inv, of "unat tag"] 2(3)
        by (cases "slot s (unat tag)") (auto simp: adds_log_def)
    qed
  next
    case 3
    with run have A: "tag_ctl_TBDE_REMOVE env ?s tag = Inr (r, s')" by (simp add: tag_ctl_def)
    show ?thesis
    proof (cases "slot s (unat tag)")
      case None
      with A REMOVE_refused(1) [OF inv', of tag env] 3(3) show ?thesis by (auto simp: adds_log_def)
    next
      case (Some a)
      with kinv_slot [OF inv Some] obtain sv where sv: "sv_heap s a = Some sv" "svc_at s (unat tag) = Some sv" by auto
      have go: "validServiceOperation env sv" "sleepers (levels sv) = []"
        using A REMOVE_refused(2,3) [OF inv', of tag sv env] sv(2) keep 3(3) by auto
      obtain b where b: "kmalloc_service env (sv_heap ?s) = Some b"
        using A REMOVE_no_memory [OF inv', of tag sv env] go sv(2) by fastforce
      from REMOVE_ok [OF snd inv' _ _ go, of tag a b] b Some sv(1) A obtain n where
        n: "r = Inr 0" "adds_log s s' (TryModuleGet # ReadLock SearchLock # write_sections (ListLock b) n @
             [ReadUnlock SearchLock, ModulePut])" by (auto simp: adds_log_def)
      have "locks_free (TryModuleGet # ReadLock SearchLock # write_sections (ListLock b) n @
             [ReadUnlock SearchLock, ModulePut])" by simp
      with n 3(3) show ?thesis by auto
    qed
  qed
qed

lemma call_locks:
  assumes snd: "env_sound env" "vzalloc_ok env" and inv: "kinv s" and run: "run_call env s c = Inr (r, s')"
    and r: "r = fst (a_call env R c)" and keep: "\<not> leaves_lock env R c"
  shows "locked_call tolerant env s all_free c =
    (if bad_release env R c \<and> \<not> tolerant then Inl Fault else Inr (r, s', all_free))"
proof (cases c)
  case (Get k command p)
  with run have "tag_get env s k command p = Inr (r, s')" by simp
  from tag_get_log [OF snd(1) inv this] locked_free [OF run] show ?thesis by (auto simp: Get bad_release_def)
next
  case (Send tag level buffer sz)
  with run keep r have "tag_send env s tag level buffer sz = Inr (r, s')" "r \<noteq> Inl EBADMSG"
    by (simp_all add: leaves_lock_def)
  from send_log [OF snd(1) inv this(1) _ this(2)] snd(2) locked_free [OF run] show ?thesis
    by (auto simp: Send bad_release_def)
next
  case (Ctl tag command)
  with run keep r have c: "tag_ctl env s tag command = Inr (r, s')"
    "\<not> (command = REMOVE \<and> r \<in> {Inl EBADRQC, Inl EADDRINUSE})" by (auto simp: leaves_lock_def)
  from ctl_log [OF snd(1) inv this] locked_free [OF run] locked_awake [OF run] r show ?thesis
    by (auto simp: Ctl bad_release_def)
qed

section \<open>Runs\<close>

lemma run_locked_aux:
  assumes snd: "env_sound e0"
  shows "\<forall>(env, c) \<in> set cs. same_memory e0 env \<Longrightarrow> kinv s \<Longrightarrow> complete s \<Longrightarrow>
    budget e0 s (levelDeep * length cs) (length cs) \<Longrightarrow> orderly tolerant cs (rooms_of s) \<Longrightarrow>
    \<exists>rs s'. run_locked tolerant cs s all_free = Inr (rs, s', all_free) \<and> kinv s' \<and> complete s' \<and>
      (rs, rooms_of s') = a_calls cs (rooms_of s)"
proof (induction cs arbitrary: s)
  case Nil
  then show ?case by simp
next
  case (Cons x cs)
  obtain env c where x: "x = (env, c)" by fastforce
  with Cons.prems(1) have same: "same_memory e0 env" by simp
  then have bud: "budget env s' a b = budget e0 s' a b" for s' a b
    by (simp add: same_memory_def budget_def)
  have "budget env s (levelDeep + levelDeep * length cs) (Suc (length cs))"
    using Cons.prems(4) by (simp add: bud algebra_simps)
  moreover have es: "env_sound env" "vzalloc_ok env" using snd same by (simp_all add: env_sound_def same_memory_def)
  ultimately obtain r s1 where 1: "run_call env s c = Inr (r, s1)" "kinv s1" "complete s1"
    "budget e0 s1 (levelDeep * length cs) (length cs)" "(r, rooms_of s1) = a_call env (rooms_of s) c"
    using call_refines [of env s "levelDeep * length cs" "length cs" c] Cons.prems(2,3) bud by auto
  have R: "r = fst (a_call env (rooms_of s) c)" "rooms_of s1 = snd (a_call env (rooms_of s) c)"
    using 1(5) by (metis fst_conv, metis snd_conv)
  have o: "\<not> leaves_lock env (rooms_of s) c" "bad_release env (rooms_of s) c \<longrightarrow> tolerant"
    "orderly tolerant cs (rooms_of s1)" using Cons.prems(5) R(2) by (simp_all add: x)
  have "locked_call tolerant env s all_free c = Inr (r, s1, all_free)"
    using call_locks [OF es Cons.prems(2) 1(1) R(1) o(1), of tolerant] o(2) by auto
  moreover from Cons.IH [OF _ 1(2-4) o(3)] Cons.prems(1) obtain rs s2 where
    "run_locked tolerant cs s1 all_free = Inr (rs, s2, all_free)" "kinv s2" "complete s2"
    "(rs, rooms_of s2) = a_calls cs (rooms_of s1)" by auto
  ultimately show ?case using 1(5) [symmetric] by (auto simp: x Let_def split: prod.splits)
qed

text \<open>C1: A run of calls to \<^verbatim>\<open>tag_get\<close>, \<^verbatim>\<open>tag_send\<close> and \<^verbatim>\<open>tag_ctl\<close>, one after the other, by any callers
  and in any order, on locks that block.  As long as no call gives one of the answers that leave a
  lock held (a refused \<^verbatim>\<open>REMOVE\<close>, a message that cannot be stored), and if the kernel bears the
  release at the end of \<^verbatim>\<open>AWAKE_ALL\<close> or the run has none, every call returns, value by value, what
  the map of rooms promises, the final state represents the promised map and all locks are free
  again; memory must last for 32 nodes and one service a call.\<close>

theorem runs_refine:
  assumes "env_sound e0" "\<forall>(env, c) \<in> set cs. same_memory e0 env" "kinv s" "complete s"
    and "budget e0 s (levelDeep * length cs) (length cs)" "orderly tolerant cs (rooms_of s)"
  shows "\<exists>rs s'. run_locked tolerant cs s all_free = Inr (rs, s', all_free) \<and> kinv s' \<and> complete s' \<and>
    (rs, rooms_of s') = a_calls cs (rooms_of s)"
  by (rule run_locked_aux [OF assms])

lemma runs_refine_witness:
  "\<exists>s'. run_locked False [(plenty 1 10, Get 7 CREATE PRIVATE_ROOM), (plenty 2 20, Get 7 OPEN PRIVATE_ROOM),
      (plenty 1 10, Send 0 3 (Some [65, 66]) 2), (plenty 1 10, Ctl 0 REMOVE)] empty_table all_free =
    Inr ([Inr 0, Inl EBADRQC, Inr 0, Inr 0], s', all_free) \<and> rooms_of s' = Map.empty"
proof -
  let ?cs = "[(plenty 1 10, Get 7 CREATE PRIVATE_ROOM), (plenty 2 20, Get 7 OPEN PRIVATE_ROOM),
      (plenty 1 10, Send 0 3 (Some [65, 66]) 2), (plenty 1 10, Ctl 0 REMOVE)]"
  have sm: "\<forall>(env, c) \<in> set ?cs. same_memory (plenty 1 10) env" by (simp add: same_memory_def)
  have b: "budget (plenty 1 10) empty_table (levelDeep * length ?cs) (length ?cs)"
    by (rule budget_le [OF plenty_room]) (simp_all add: levelDeep_def)
  have find: "r_find [0 \<mapsto> r] (r_key r) = Some 0" for r
    by (simp add: r_find_def tags_def has_key_def min_sys_TAG_Services_def upt_rec)
  have find7: "r_find [0 \<mapsto> r] 7 = Some 0" if "r_key r = 7" for r using find [of r] that by simp
  note defs = a_get_def r_free_empty r_find_empty a_create_def a_open_def find7 new_room_def
    r_allowed_def a_send_def a_ctl_def TAG_IPC_PRIVATE_def MAX_MESSAGE_SIZE_def levelDeep_def
  have "a_calls ?cs Map.empty = ([Inr 0, Inl EBADRQC, Inr 0, Inr 0], Map.empty)"
    using level_3 by (simp add: defs)
  moreover have "orderly False ?cs (rooms_of empty_table)"
    using level_3 by (simp add: defs leaves_lock_def bad_release_def)
  ultimately show ?thesis using runs_refine [OF plenty_sound sm kinv_booted complete_booted b] by force
qed

section \<open>A lock left behind\<close>

lemma blocked_stays: "foldl (lock_step lk) Blocked cs = Blocked"
  by (induction cs) simp_all

lemma locked_blocks:
  assumes "run_call env s c = Inr (r, s')" "adds_log s s' (cs @ x # ds)" "lock_of x = Some lk"
    and "lock_step lk (foldl (lock_step lk) (L lk) cs) x = Blocked"
  shows "locked_call tolerant env s L c = Inl Spin"
proof -
  have "hold (cs @ x # ds) L lk = Blocked" using assms(4) by (simp add: hold_def blocked_stays)
  then have "meets Blocked (cs @ x # ds) (hold (cs @ x # ds) L)" using assms(3) by (simp add: meets_def)
  then show ?thesis using assms(1,2) by (simp add: locked_call_def adds_log_def Let_def)
qed

lemma create_takes_lock:
  assumes snd: "env_sound env" "module_live env" and inv: "kinv s"
    and adm: "permAmmisible p = 0" "keyAmmissible k = 0" "r_free (rooms_of s) \<noteq> None"
    and al: "kmalloc_service env (sv_heap s) \<noteq> None"
  shows "\<exists>r s' ds. run_call env s (Get k CREATE p) = Inr (r, s') \<and>
    adds_log s s' ([TryModuleGet] @ WriteLock SearchLock # ds)"
proof -
  let ?s = "klogs TryModuleGet s"
  have inv': "kinv ?s" using inv by simp
  have k: "k \<noteq> 0" "p = OPEN_ROOM \<or> p = PRIVATE_ROOM"
    using adm(1,2) by (auto simp: permAmmisible_def keyAmmissible_def split: if_splits)
  from adm(3) obtain i where i: "r_free (rooms_of ?s) = Some i" by auto
  from al obtain a where a: "kmalloc_service env (sv_heap ?s) = Some a" by auto
  have "\<exists>r s' ds. tag_get_CREATE env ?s k p = Inr (r, s') \<and> adds_log s s' ([TryModuleGet] @ WriteLock SearchLock # ds)"
  proof (cases "k \<noteq> TAG_IPC_PRIVATE \<and> r_find (rooms_of ?s) k \<noteq> None")
    case True
    with CREATE_used_key [OF inv' i] show ?thesis by (simp add: adds_log_def)
  next
    case False
    then have key: "k = TAG_IPC_PRIVATE \<or> r_find (rooms_of ?s) k = None" by simp
    show ?thesis by (rule CREATE_ok [OF snd(1) inv' i a k key]) (simp add: adds_log_def)
  qed
  with snd(2) adm(1,2) show ?thesis by (simp add: tag_get_def)
qed

text \<open>A \<^verbatim>\<open>REMOVE\<close> refused, then a \<^verbatim>\<open>CREATE\<close>.\<close>

lemma remove_blocks_create:
  assumes inv: "kinv s" and env: "module_live env" "0 \<le> sint tag" "svc_at s (unat tag) = Some sv"
    and ref: "\<not> validServiceOperation env sv \<or> sleepers (levels sv) \<noteq> []"
    and env2: "env_sound env2" "module_live env2" "kmalloc_service env2 (sv_heap s) \<noteq> None"
    and adm: "permAmmisible p = 0" "keyAmmissible k = 0" "r_free (rooms_of s) \<noteq> None"
  shows "\<exists>e s1 L. locked_call tolerant env s all_free (Ctl tag REMOVE) = Inr (Inl e, s1, L) \<and>
    locked_call tolerant env2 s1 L (Get k CREATE p) = Inl Spin"
proof -
  let ?s = "klogs TryModuleGet s"
  have inv': "kinv ?s" using inv by simp
  define cs where "cs = TryModuleGet # ReadLock SearchLock # (if validServiceOperation env sv then [] else [ModulePut])"
  define e where "e = (if validServiceOperation env sv then EADDRINUSE else EBADRQC)"
  have run: "run_call env s (Ctl tag REMOVE) = Inr (Inl e, klog_all cs s)"
    using REMOVE_refused(2,3) [OF inv', of tag sv env] env ref
    by (auto simp: tag_ctl_def cs_def e_def klogs_klog_all not_less)
  have h: "hold cs all_free = all_free(SearchLock := Readers 1)"
    unfolding hold_free by (simp add: fun_eq_iff all_free_def lock_use_def cs_def)
  have no: "\<not> meets st cs (all_free(SearchLock := Readers 1))" if "st \<in> {Blocked, Misused}" for st
    using that by (auto simp: meets_def all_free_def list_ex_iff split: option.splits)
  let ?L = "next_locks (klog_all cs s) (all_free(SearchLock := Readers 1))"
  have 1: "locked_call tolerant env s all_free (Ctl tag REMOVE) = Inr (Inl e, klog_all cs s, ?L)"
    using run no [of Blocked] no [of Misused] by (simp add: locked_call_def Let_def h)
  from create_takes_lock [of env2 "klog_all cs s" p k] inv env2 adm obtain r s2 ds where
    "run_call env2 (klog_all cs s) (Get k CREATE p) = Inr (r, s2)"
    "adds_log (klog_all cs s) s2 ([TryModuleGet] @ WriteLock SearchLock # ds)" by auto
  from locked_blocks [OF this, of SearchLock ?L tolerant]
  have "locked_call tolerant env2 (klog_all cs s) ?L (Get k CREATE p) = Inl Spin" by (simp add: next_locks_def)
  with 1 show ?thesis by blast
qed

text \<open>A \<^verbatim>\<open>tag_send\<close> with a negative level, then another to the same service.\<close>

lemma negative_send:
  assumes inv: "kinv s" and env: "env_sound env" "module_live env" "vzalloc_ok env"
    and neg: "sint level < 0" and sz: "sz \<le> MAX_MESSAGE_SIZE" "unat sz \<le> length buf"
    and sv: "slot s (unat tag) = Some a" "sv_heap s a = Some sv" "validServiceOperation env sv"
    and al: "kmalloc_element env (el_heap (mem s)) \<noteq> None"
  shows "\<exists>s1. run_call env s (Send tag level (Some buf) sz) = Inr (Inl EBADMSG, s1) \<and> kinv s1 \<and>
    rooms_of s1 = rooms_of s \<and> svc_at s1 = svc_at s \<and> slot s1 = slot s \<and>
    adds_log s s1 (send_prefix sz @ [WriteLock (ListLock a), ModulePut]) \<and>
    (\<forall>n m. budget env s (Suc n) m \<longrightarrow> budget env s1 n m)"
proof -
  let ?s = "klog_all (send_prefix sz) s"
  have st: "kinv ?s" "slot ?s (unat tag) = Some a" "sv_heap ?s a = Some sv" "svc_at ?s (unat tag) = Some sv"
    using inv sv(1,2) by (simp_all add: svc_at_def)
  have lvl: "level_ix level = None" "\<not> sint level \<ge> int levelDeep" using neg by (simp_all add: level_ix_def)
  have "msgs ?s sv level = None"
    using level_ix_negative [OF lvl(1) kinv_wf [OF st(1,4)]] by (simp add: msgs_def)
  from send_level_missing [OF env(1) st(1-3) this, of "take (unat sz) buf" sz] al obtain s1 where
    S: "send_level env ?s a sv level (take (unat sz) buf) sz = Inr (Inl EBADMSG, s1)" "kinv s1" "svc_at s1 = svc_at s"
      "rooms_of s1 = rooms_of s" "adds_log s s1 (send_prefix sz @ [WriteLock (ListLock a), ModulePut])"
      "\<forall>n m. budget env s (Suc n) m \<longrightarrow> budget env s1 n m"
    by (auto simp: adds_log_def)
  have run: "tag_send env s tag level (Some buf) sz = Inr (Inl EBADMSG, s1)"
    using tag_send_eq [OF inv env(2) _ sz(1), of tag level buf] env(3) sz(2) sv lvl(2) S(1) by (simp add: Let_def)
  have "slot s1 = slot s" using tag_send_frame [OF inv run] by (simp add: slot_def fun_eq_iff)
  with run S show ?thesis by auto
qed

lemma send_takes_lock:
  assumes inv: "kinv s" "complete s" and env: "env_sound env" "module_live env" "vzalloc_ok env"
    and lvl: "level_ix level = Some j" and sz: "sz \<le> MAX_MESSAGE_SIZE" "unat sz \<le> length buf"
    and sv: "slot s (unat tag) = Some a" "sv_heap s a = Some sv" "validServiceOperation env sv"
    and al: "kmalloc_element env (el_heap (mem s)) \<noteq> None"
  shows "\<exists>r s' ds. run_call env s (Send tag level (Some buf) sz) = Inr (r, s') \<and>
    adds_log s s' (send_prefix sz @ WriteLock (ListLock a) # ds)"
proof -
  let ?s = "klog_all (send_prefix sz) s"
  have st: "kinv ?s" "slot ?s (unat tag) = Some a" "sv_heap ?s a = Some sv" "svc_at ?s (unat tag) = Some sv"
    "complete ?s" using inv sv(1,2) by (simp_all add: svc_at_def)
  have l: "\<not> sint level \<ge> int levelDeep" using lvl by (auto simp: level_ix_def split: if_splits)
  have m: "msgs ?s sv level \<noteq> None" using st(4,5) level_ix_Some [OF lvl] unfolding complete_def by auto
  have len: "unat sz \<le> length (take (unat sz) buf)" using sz(2) by simp
  from send_level_stored [OF env(1) st(1-3) m lvl len sz(1)] al obtain s' ds where
    "send_level env ?s a sv level (take (unat sz) buf) sz = Inr (Inr 0, s')"
    "adds_log s s' (send_prefix sz @ WriteLock (ListLock a) # ds)" by (auto simp: adds_log_def)
  moreover from this(1) have "run_call env s (Send tag level (Some buf) sz) = Inr (Inr 0, s')"
    using tag_send_eq [OF inv(1) env(2) _ sz(1), of tag level buf] env(3) sz(2) sv l by (simp add: Let_def)
  ultimately show ?thesis by blast
qed

lemma send_blocks_send:
  assumes inv: "kinv s" "complete s" and env: "env_sound env" "module_live env" "vzalloc_ok env"
    and env2: "env_sound env2" "module_live env2" "vzalloc_ok env2" "budget env2 s 2 0"
    and same: "kmalloc_element env2 = kmalloc_element env" "kmalloc_service env2 = kmalloc_service env"
    and neg: "sint level < 0" and lvl: "level_ix level2 = Some j"
    and sz: "sz \<le> MAX_MESSAGE_SIZE" "unat sz \<le> length buf" "sz2 \<le> MAX_MESSAGE_SIZE" "unat sz2 \<le> length buf2"
    and sv: "slot s (unat tag) = Some a" "sv_heap s a = Some sv"
      "validServiceOperation env sv" "validServiceOperation env2 sv"
  shows "\<exists>s1 L. locked_call tolerant env s all_free (Send tag level (Some buf) sz) = Inr (Inl EBADMSG, s1, L) \<and>
    locked_call tolerant env2 s1 L (Send tag level2 (Some buf2) sz2) = Inl Spin"
proof -
  have b: "budget env s (Suc (Suc 0)) 0" using env2(4) same by (simp add: budget_def numeral_2_eq_2)
  then have al: "kmalloc_element env (el_heap (mem s)) \<noteq> None"
    using alloc_room_Some [of "kmalloc_element env" "el_heap (mem s)" "Suc 0"] by (auto simp: budget_def)
  from negative_send [OF inv(1) env neg sz(1,2) sv(1,2,3) al] obtain s1 where
    S: "run_call env s (Send tag level (Some buf) sz) = Inr (Inl EBADMSG, s1)" "kinv s1" "rooms_of s1 = rooms_of s"
      "svc_at s1 = svc_at s" "slot s1 = slot s" "adds_log s s1 (send_prefix sz @ [WriteLock (ListLock a), ModulePut])"
      "budget env s1 (Suc 0) 0" using b by blast
  let ?cs = "send_prefix sz @ [WriteLock (ListLock a), ModulePut]" and ?L = "all_free(ListLock a := Writer)"
  have h: "hold ?cs all_free = ?L"
    unfolding hold_free by (simp add: fun_eq_iff all_free_def lock_use_def send_prefix_def)
  have no: "\<not> meets st ?cs ?L" if "st \<in> {Blocked, Misused}" for st
    using that by (auto simp: meets_def all_free_def list_ex_iff split: option.splits)
  have 1: "locked_call tolerant env s all_free (Send tag level (Some buf) sz) = Inr (Inl EBADMSG, s1, next_locks s1 ?L)"
    using S(1,6) no [of Blocked] no [of Misused] by (simp add: locked_call_def adds_log_def Let_def h)
  have sv1: "slot s1 (unat tag) = Some a" "svc_at s1 (unat tag) = Some sv" using S(4,5) sv(1,2) by (simp_all add: svc_at_def)
  then have "sv_heap s1 a = Some sv" by (simp add: svc_at_def)
  moreover have "complete s1" using inv(2) S(3) by (simp add: complete_rooms)
  moreover have "kmalloc_element env2 (el_heap (mem s1)) \<noteq> None"
    using S(7) alloc_room_Some [of "kmalloc_element env" "el_heap (mem s1)" 0] same by (auto simp: budget_def)
  ultimately obtain r s2 ds where
    T: "run_call env2 s1 (Send tag level2 (Some buf2) sz2) = Inr (r, s2)"
      "adds_log s1 s2 (send_prefix sz2 @ WriteLock (ListLock a) # ds)"
    using send_takes_lock [OF S(2) _ env2(1-3) lvl sz(3,4) sv1(1) _ sv(4)] by blast
  have "next_locks s1 ?L (ListLock a) = Writer" using \<open>sv_heap s1 a = Some sv\<close> by (simp add: next_locks_def)
  then have "locked_call tolerant env2 s1 (next_locks s1 ?L) (Send tag level2 (Some buf2) sz2) = Inl Spin"
    by (intro locked_blocks [OF T, of "ListLock a"]) (simp_all add: send_prefix_def)
  with 1 show ?thesis by blast
qed

text \<open>C36: A lock left behind stops later calls for ever.  After a \<^verbatim>\<open>REMOVE\<close> refused for its permissions
  or for a sleeping reader, a \<^verbatim>\<open>CREATE\<close> with valid arguments on a table with a free entry never
  returns; after a \<^verbatim>\<open>tag_send\<close> with a negative level, which is answered EBADMSG, a well-formed
  \<^verbatim>\<open>tag_send\<close> to the same service never returns.\<close>

theorem left_locks_block:
  assumes "kinv s" "complete s" "env_sound env" "module_live env" "vzalloc_ok env"
    and "env_sound env2" "module_live env2" "vzalloc_ok env2" "budget env2 s (2 + levelDeep) 1"
    and "kmalloc_element env2 = kmalloc_element env" "kmalloc_service env2 = kmalloc_service env"
    and "slot s (unat tag) = Some a" "sv_heap s a = Some sv" "0 \<le> sint tag"
  shows "(\<not> validServiceOperation env sv \<or> sleepers (levels sv) \<noteq> [] \<longrightarrow>
      permAmmisible p = 0 \<longrightarrow> keyAmmissible k = 0 \<longrightarrow> r_free (rooms_of s) \<noteq> None \<longrightarrow>
      (\<exists>e s1 L. locked_call tolerant env s all_free (Ctl tag REMOVE) = Inr (Inl e, s1, L) \<and>
        locked_call tolerant env2 s1 L (Get k CREATE p) = Inl Spin)) \<and>
    (validServiceOperation env sv \<longrightarrow> validServiceOperation env2 sv \<longrightarrow> sint level < 0 \<longrightarrow>
      level_ix level2 \<noteq> None \<longrightarrow> sz \<le> MAX_MESSAGE_SIZE \<longrightarrow> unat sz \<le> length buf \<longrightarrow>
      (\<exists>s1 L. locked_call tolerant env s all_free (Send tag level (Some buf) sz) = Inr (Inl EBADMSG, s1, L) \<and>
        locked_call tolerant env2 s1 L (Send tag level2 (Some buf) sz) = Inl Spin))"
proof -
  have at: "svc_at s (unat tag) = Some sv" using assms(12,13) by (simp add: svc_at_def)
  have b: "budget env2 s 2 0" by (rule budget_le [OF assms(9)]) simp_all
  have "alloc_room (kmalloc_service env2) (sv_heap s) (Suc 0)" using assms(9) by (simp add: budget_def)
  then have al: "kmalloc_service env2 (sv_heap s) \<noteq> None"
    using alloc_room_Some [of "kmalloc_service env2" "sv_heap s" 0] by auto
  show ?thesis
    using remove_blocks_create [OF assms(1,4,14) at _ assms(6,7) al]
      send_blocks_send [OF assms(1,2,3,4,5,6,7,8) b assms(10,11) _ _ _ _ _ _ assms(12,13)] by auto
qed

lemma left_locks_block_witness:
  "\<exists>e s1 L. locked_call False (plenty 2 20) (one_service 10 7 PRIVATE_ROOM) all_free (Ctl 0 REMOVE) = Inr (Inl e, s1, L) \<and>
     locked_call False (plenty 2 20) s1 L (Get 8 CREATE OPEN_ROOM) = Inl Spin"
proof -
  let ?s = "one_service 10 7 PRIVATE_ROOM"
  note S = one_service(2,3,4) [of 7 PRIVATE_ROOM 10] one_service(5) [of 7 PRIVATE_ROOM 2 20 10]
  have R: "rooms_of ?s = [0 \<mapsto> new_room (plenty 1 10) 7 PRIVATE_ROOM]" by (rule S(3)) simp_all
  then have "rooms_of ?s 0 = Some (new_room (plenty 1 10) 7 PRIVATE_ROOM)" by simp
  then obtain sv where sv: "svc_at ?s (unat (0 :: c_int)) = Some sv" "sv_perm sv = PRIVATE_ROOM" "uid_Creator sv = 10"
    by (auto simp: rooms_of_def room_of_def new_room_def)
  from svc_at_slot [OF sv(1)] obtain a where a: "slot ?s (unat (0 :: c_int)) = Some a" "sv_heap ?s a = Some sv" by blast
  have no: "\<not> validServiceOperation (plenty 2 20) sv" using sv by (simp add: validServiceOperation_def)
  have b: "budget (plenty 2 20) ?s (2 + levelDeep) 1"
    by (rule budget_le [OF S(4)]) (simp_all add: levelDeep_def)
  have f: "r_free (rooms_of ?s) \<noteq> None"
    unfolding R by (simp add: r_free_def tags_def min_sys_TAG_Services_def upt_rec)
  have k: "kinv ?s" "complete ?s" by (rule S; simp)+
  from left_locks_block [where p = OPEN_ROOM and k = 8 and tolerant = False, OF k plenty_sound _ _ plenty_sound _ _ b _ _ a]
    no f show ?thesis by (simp add: permAmmisible_def keyAmmissible_def)
qed

section \<open>Safety\<close>

definition returns_log :: "klog \<Rightarrow> bool \<Rightarrow> bool" where
  "returns_log cs misuse \<longleftrightarrow> (\<forall>lk. lock_use lk cs \<noteq> Blocked \<and> (lock_use lk cs = Misused \<longrightarrow> misuse))"

lemma returns_free: "locks_free cs \<Longrightarrow> returns_log cs misuse"
  by (simp add: returns_log_def locks_free_def)

lemma failed_send_log:
  assumes snd: "env_sound env" and inv: "kinv s" and run: "tag_send env s tag level buffer sz = Inr (Inl EBADMSG, s')"
    and vz: "vzalloc_ok env \<or> sz = 0"
  shows "\<exists>cs. adds_log s s' cs \<and> returns_log cs False"
proof -
  have live: "module_live env" using run tag_send_early(1) by (rule_tac ccontr) simp
  have "\<not> (buffer = None \<or> MAX_MESSAGE_SIZE < sz)"
  proof
    assume "buffer = None \<or> MAX_MESSAGE_SIZE < sz"
    with run tag_send_early(2) [OF live] show False by simp
  qed
  then obtain ubuf where ok: "buffer = Some ubuf" "sz \<le> MAX_MESSAGE_SIZE" by auto
  note E = run [unfolded ok(1) tag_send_eq [OF inv live vz ok(2)]]
  then obtain a where a: "slot s (unat tag) = Some a" by (cases "slot s (unat tag)") (auto split: if_splits)
  with kinv_slot [OF inv a] obtain sv where sv: "sv_heap s a = Some sv" by auto
  let ?s = "klog_all (send_prefix sz) s"
  have st: "kinv ?s" "slot ?s (unat tag) = Some a" "sv_heap ?s a = Some sv" "svc_at ?s (unat tag) = Some sv"
    using inv a sv by (simp_all add: svc_at_def)
  have L: "send_level env ?s a sv level (take (unat sz) ubuf) sz = Inr (Inl EBADMSG, s')" "unat sz \<le> length ubuf"
    using E a sv by (auto simp: Let_def split: if_splits)
  have one: "returns_log (send_prefix sz @ [WriteLock (ListLock a), ModulePut]) False"
    "returns_log (send_prefix sz @ [ModulePut]) False"
    by (auto simp: returns_log_def lock_use_def send_prefix_def)
  show ?thesis
  proof (cases "msgs ?s sv level")
    case None
    from send_level_missing [OF snd st(1-3) None, of "take (unat sz) ubuf" sz] L(1) one show ?thesis
      by (fastforce simp: adds_log_def split: if_splits)
  next
    case (Some v)
    then obtain j where j: "level_ix level = Some j"
      using level_ix_negative [of level "mem ?s" "unat tag" sv] kinv_wf [OF st(1,4)]
      by (cases "level_ix level") (auto simp: msgs_def)
    from send_level_stored [OF snd st(1-3) _ j, where buf = "take (unat sz) ubuf" and sz = sz] L ok(2) Some one(2)
    show ?thesis by (auto simp: adds_log_def)
  qed
qed

lemma call_log:
  assumes snd: "env_sound env" and inv: "kinv s" and run: "run_call env s c = Inr (r, s')"
  shows "\<exists>cs. adds_log s s' cs \<and> returns_log cs (\<exists>tag. c = Ctl tag AWAKE_ALL)"
proof (cases c)
  case (Get k command p)
  with run have "tag_get env s k command p = Inr (r, s')" by simp
  from tag_get_log [OF snd inv this] returns_free show ?thesis by blast
next
  case (Send tag level buffer sz)
  with run have S: "tag_send env s tag level buffer sz = Inr (r, s')" by simp
  show ?thesis
  proof (cases "vzalloc_ok env \<or> sz = 0")
    case True
    with send_log [OF snd inv S] failed_send_log [OF snd inv, of tag level buffer sz s'] S returns_free show ?thesis
      by (cases "r = Inl EBADMSG") (auto simp: Send returns_log_def locks_free_def)
  next
    case False
    then have "sz \<noteq> 0" by simp
    with False S have "\<not> module_live env \<or> buffer = None \<or> MAX_MESSAGE_SIZE < sz"
      by (auto simp: tag_send_def word_neq_0_conv Let_def split: option.splits if_splits)
    with S tag_send_early show ?thesis
      by (cases "module_live env") (auto simp: adds_log_def intro!: returns_free)
  qed
next
  case (Ctl tag command)
  with run have S: "tag_ctl env s tag command = Inr (r, s')" by simp
  show ?thesis
  proof (cases "command = REMOVE \<and> r \<in> {Inl EBADRQC, Inl EADDRINUSE}")
    case False
    have "returns_log (TryModuleGet # awake_log a) True" for a
      by (auto simp: returns_log_def lock_use_def awake_log_def wakes_hold)
    with ctl_log [OF snd inv S False] returns_free show ?thesis by (auto simp: Ctl)
  next
    case True
    let ?s = "klogs TryModuleGet s"
    have inv': "kinv ?s" using inv by simp
    have log: "returns_log (TryModuleGet # ReadLock SearchLock # cs) b" if "cs \<in> {[], [ModulePut]}" for cs b
      using that by (auto simp: returns_log_def lock_use_def)
    from True S have A: "tag_ctl_TBDE_REMOVE env ?s tag = Inr (r, s')"
      by (auto simp: tag_ctl_def put_return_def Let_def split: if_splits)
    then obtain a where a: "slot s (unat tag) = Some a"
      using REMOVE_refused(1) [OF inv', of tag env] True by (cases "slot s (unat tag)") auto
    with kinv_slot [OF inv a] obtain sv where sv: "sv_heap s a = Some sv" "svc_at s (unat tag) = Some sv" by auto
    have "\<not> (validServiceOperation env sv \<and> sleepers (levels sv) = [])"
    proof
      assume v: "validServiceOperation env sv \<and> sleepers (levels sv) = []"
      then obtain b where "kmalloc_service env (sv_heap ?s) = Some b"
        using A REMOVE_no_memory [OF inv', of tag sv env] sv(2) by fastforce
      with REMOVE_ok [OF snd inv' _ _ conjunct1 [OF v] conjunct2 [OF v], of tag a b] a sv(1) A True show False by auto
    qed
    then show ?thesis
      using A REMOVE_refused(2,3) [OF inv', of tag sv env] sv(2) log [of "[]"] log [of "[ModulePut]"]
      by (cases "validServiceOperation env sv") (auto simp: adds_log_def)
  qed
qed

text \<open>C17: A call that runs alone on a well-formed table with every lock free returns and leaves the
  table well formed; it follows no dangling pointer, leaves no array and waits for no lock, except
  where the unchecked result of \<^verbatim>\<open>kmalloc\<close> for a service or of \<^verbatim>\<open>vzalloc\<close> is a null pointer, and
  but for the release at the end of \<^verbatim>\<open>AWAKE_ALL\<close> on a kernel that does not bear it.  A
  \<^verbatim>\<open>tag_receive\<close> whose sleep ends and whose user memory takes the copy returns, except with a
  negative level, with which it leaves the arrays of the list.\<close>

theorem calls_are_safe:
  assumes "env_sound env" "kinv s" "complete s" "copy_law cto" "copy_fair cto" "wait_keeps wait"
  shows "(case locked_call tolerant env s all_free c of
      Inr (r, s', L) \<Rightarrow> kinv s'
    | Inl e \<Rightarrow> e = Fault \<and> (kmalloc_service env (sv_heap s) = None \<or> \<not> vzalloc_ok env \<or>
        (\<exists>tag. c = Ctl tag AWAKE_ALL) \<and> \<not> tolerant)) \<and>
    (if a_receive_check env (rooms_of s) tag level buffer_null sz = None \<and> sint level < 0
     then tag_receive env cto wait s tag level buffer_null sz = Inl Fault
     else \<exists>r out s'. tag_receive env cto wait s tag level buffer_null sz = Inr (r, out, s') \<and> kinv s')"
proof
  show "case locked_call tolerant env s all_free c of
      Inr (r, s', L) \<Rightarrow> kinv s'
    | Inl e \<Rightarrow> e = Fault \<and> (kmalloc_service env (sv_heap s) = None \<or> \<not> vzalloc_ok env \<or>
        (\<exists>tag. c = Ctl tag AWAKE_ALL) \<and> \<not> tolerant)"
  proof (cases "run_call env s c")
    case (Inl e)
    with run_call_safe [OF assms(1,2), of c] show ?thesis by (auto simp: locked_call_def safe_result_def)
  next
    case (Inr x)
    obtain r s' where x: "x = (r, s')" by fastforce
    from call_log [OF assms(1,2) Inr [unfolded x]] obtain cs where
      cs: "adds_log s s' cs" "returns_log cs (\<exists>tag. c = Ctl tag AWAKE_ALL)" by blast
    have "\<not> meets Blocked cs (hold cs all_free)" "meets Misused cs (hold cs all_free) \<longrightarrow> (\<exists>tag. c = Ctl tag AWAKE_ALL)"
      using cs(2) unfolding hold_free returns_log_def meets_def list_ex_iff by (auto split: option.splits)
    moreover have "kinv s'" using run_call_safe [OF assms(1,2), of c] Inr x by simp
    ultimately show ?thesis using Inr x cs(1) by (auto simp: locked_call_def adds_log_def Let_def)
  qed
next
  let ?chk = "a_receive_check env (rooms_of s) tag level buffer_null sz"
  let ?run = "tag_receive env cto wait s tag level buffer_null sz"
  show "if ?chk = None \<and> sint level < 0 then ?run = Inl Fault else \<exists>r out s'. ?run = Inr (r, out, s') \<and> kinv s'"
  proof (cases ?chk)
    case (Some e)
    with receive_refused [OF assms(2) Some, of cto wait] assms(2) show ?thesis by simp
  next
    case None
    show ?thesis
    proof (cases "level_ix level")
      case no: None
      have "sint level < 0" using None no
        by (auto simp: a_receive_check_def level_ix_def split: if_splits option.splits)
      with receive_outside [OF assms(2) None no] None show ?thesis by simp
    next
      case (Some j)
      then have "\<not> sint level < 0" by (auto simp: level_ix_def split: if_splits)
      moreover from None obtain R where "rooms_of s (unat tag) = Some R"
        by (auto simp: a_receive_check_def split: if_splits option.splits)
      then obtain a where a: "slot s (unat tag) = Some a"
        using rooms_of_None [OF assms(2), of "unat tag"] by auto
      from tag_receive_aux [OF assms(2-6) None Some a] have "\<exists>r out s'. ?run = Inr (r, out, s') \<and> kinv s'" by blast
      ultimately show ?thesis by simp
    qed
  qed
qed

lemma calls_are_safe_witness:
  "(\<exists>r s' L. locked_call False (plenty 2 20) demo all_free (Send 0 (- 5) (Some [1]) 1) = Inr (r, s', L) \<and> kinv s') \<and>
   tag_receive (plenty 2 20) (\<lambda>_ _. 0) (\<lambda>a j s. (True, s)) demo 0 (- 1) False 4 = Inl Fault"
proof -
  have "kmalloc_service (plenty 2 20) (sv_heap demo) \<noteq> None"
    using budget_service [OF demo_budget, of 2 20] by auto
  moreover have "a_receive_check (plenty 2 20) (rooms_of demo) 0 (- 1) False 4 = None"
    by (simp add: a_receive_check_def demo(3) r_allowed_def new_room_def levelDeep_def MAX_MESSAGE_SIZE_def)
  ultimately show ?thesis
    using calls_are_safe [where tolerant = False and c = "Send 0 (- 5) (Some [1]) 1" and tag = 0 and
        level = "- 1" and buffer_null = False and sz = 4,
        OF plenty_sound [of 2 20] demo(1,2) copy_all_fn wait_raised(2)]
    by (auto split: sum.splits)
qed

end
