(* ===== verification/ListProps.thy ===== *)
theory ListProps
  imports Boot
begin

text \<open>
  The properties of the list of levels, each applied at the list of two nodes \<open>two_nodes\<close>.
\<close>

section \<open>A list of two nodes\<close>

definition two_nodes :: kmem where
  "two_nodes = \<lparr>el_heap =
     [0 \<mapsto> \<lparr>e_next = Some 1, e_level = 5, e_message = [50], e_size = 1\<rparr>,
      1 \<mapsto> \<lparr>e_next = None, e_level = 7, e_message = [70, 71], e_size = 2\<rparr>], klog = []\<rparr>"

definition two_list :: rcu_list where
  "two_list = rcu_list_init\<lparr>head := Some 0\<rparr>"

lemma two_chain: "chain (el_heap two_nodes) (head two_list) [0, 1]"
  by (simp add: two_nodes_def two_list_def)

lemma two_quiet: "quiet two_list"
  by (simp add: two_list_def)

lemma two_levels: "lev (el_heap two_nodes) 0 = 5" "lev (el_heap two_nodes) 1 = 7"
  by (simp_all add: two_nodes_def)

lemma two_alloc: "arena 4 (el_heap two_nodes) = Some 2"
  by (simp add: arena_def two_nodes_def upt_rec)

section \<open>Properties\<close>

text \<open>An insertion puts the new node in front of the list, leaves the nodes that were there
  as they are, switches the epoch and takes and releases the write lock once.\<close>

theorem list_insert_front:
  assumes "alloc_sound alloc" "alloc (el_heap m) = Some p" "quiet l" "chain (el_heap m) (head l) as"
  shows "\<exists>l' m'. rcu_list_insert alloc lk l key msg sz m = Inr (1, l', m') \<and> quiet l' \<and>
    chain (el_heap m') (head l') (p # as) \<and>
    entries (el_heap m') (p # as) = (key, msg, sz) # entries (el_heap m) as \<and>
    epoch l' \<noteq> epoch l \<and> (\<forall>a. a \<noteq> p \<longrightarrow> el_heap m' a = el_heap m a) \<and>
    klog m' = klog m @ [WriteLock lk, WriteUnlock lk]"
proof -
  have "p \<notin> set as"
    using assms(1,2) seg_allocated [OF assms(4)] unfolding alloc_sound_def by (metis option.distinct(1))
  moreover have "other_epoch l \<noteq> epoch l"
    using assms(3) by (simp add: quiet_def other_epoch_def) presburger
  ultimately show ?thesis
    using insert_eq [where alloc = alloc and m = m and lk = lk, OF assms(2,3)] assms(3,4)
    by (simp add: entry_def)
qed

lemma list_insert_front_witness:
  "\<exists>l' m'. rcu_list_insert (arena 4) (ListLock 9) two_list 3 [30] 1 two_nodes = Inr (1, l', m') \<and> quiet l' \<and>
    chain (el_heap m') (head l') [2, 0, 1] \<and>
    entries (el_heap m') [2, 0, 1] = [(3, [30], 1), (5, [50], 1), (7, [70, 71], 2)]"
  using list_insert_front [where alloc = "arena 4" and m = two_nodes and l = two_list and as = "[0, 1]"
      and p = 2 and lk = "ListLock 9" and key = 3 and msg = "[30]" and sz = 1,
      OF arena_sound two_alloc two_quiet two_chain]
  by (auto simp: entry_def two_nodes_def)

text \<open>C19: A replacement puts the new node in the place of the first one with its level: the order
  of the nodes and the messages of the others stay, the node replaced is freed, and the write
  lock is taken and released once.\<close>

theorem list_replace_in_place:
  assumes "alloc_sound alloc" "alloc (el_heap m) = Some n" "quiet l"
    and "chain (el_heap m) (head l) (xs @ r # ys)"
    and "\<forall>x \<in> set xs. lev (el_heap m) x \<noteq> key" "lev (el_heap m) r = key"
  shows "\<exists>l' m'. rcu_list_replace alloc lk l key msg sz m = Inr (1, l', m') \<and> quiet l' \<and>
    chain (el_heap m') (head l') (xs @ n # ys) \<and>
    entries (el_heap m') (xs @ n # ys) =
      entries (el_heap m) xs @ (key, msg, sz) # entries (el_heap m) ys \<and>
    el_heap m' r = None \<and> klog m' = klog m @ [WriteLock lk, WriteUnlock lk]"
proof -
  have fr: "el_heap m n = None" using assms(1,2) by (auto simp: alloc_sound_def)
  show ?thesis
    by (rule replace_spec [where alloc = alloc and m = m and n = n and l = l and key = key
          and msg = msg and sz = sz and lk = lk, OF assms(2) fr assms(3-6)]) auto
qed

lemma list_replace_in_place_witness:
  "\<exists>l' m'. rcu_list_replace (arena 4) (ListLock 9) two_list 7 [72] 1 two_nodes = Inr (1, l', m') \<and>
    chain (el_heap m') (head l') [0, 2] \<and>
    entries (el_heap m') [0, 2] = [(5, [50], 1), (7, [72], 1)] \<and> el_heap m' 1 = None"
  using list_replace_in_place [where alloc = "arena 4" and m = two_nodes and n = 2 and l = two_list and xs = "[0]"
      and r = 1 and ys = "[]" and key = 7 and lk = "ListLock 9" and msg = "[72]" and sz = 1,
      OF arena_sound two_alloc two_quiet] two_chain two_levels
  by (auto simp: entry_def two_nodes_def)

text \<open>A replacement of a level that no node has returns 0 with the write lock of the list
  still held, and the node allocated for it stays allocated outside the list.\<close>

theorem list_replace_keeps_lock:
  assumes "alloc_sound alloc" "alloc (el_heap m) = Some n"
    and "chain (el_heap m) (head l) as" "\<forall>a \<in> set as. lev (el_heap m) a \<noteq> key"
  shows "\<exists>m'. rcu_list_replace alloc lk l key msg sz m = Inr (0, l, m') \<and>
    chain (el_heap m') (head l) as \<and> el_heap m' n \<noteq> None \<and> n \<notin> set as \<and>
    (\<exists>cs. klog m' = klog m @ cs \<and> lock_use lk cs = Writer)"
proof -
  have fr: "el_heap m n = None" using assms(1,2) by (auto simp: alloc_sound_def)
  then have "n \<notin> set as" using seg_allocated [OF assms(3)] by (metis option.distinct(1))
  then show ?thesis
    using replace_absent [where alloc = alloc and m = m and lk = lk and msg = msg and sz = sz,
        OF assms(2) fr assms(3,4)] assms(3)
    by (simp add: lock_use_def)
qed

lemma list_replace_keeps_lock_witness:
  "\<exists>m'. rcu_list_replace (arena 4) (ListLock 9) two_list 6 [60] 1 two_nodes = Inr (0, two_list, m') \<and>
    el_heap m' 2 \<noteq> None \<and> (\<exists>cs. klog m' = cs \<and> lock_use (ListLock 9) cs = Writer)"
  using list_replace_keeps_lock [where alloc = "arena 4" and m = two_nodes and n = 2 and l = two_list
      and as = "[0, 1]" and key = 6 and lk = "ListLock 9" and msg = "[60]" and sz = 1,
      OF arena_sound two_alloc two_chain] two_levels
  by (auto simp: two_nodes_def)

text \<open>A removal unlinks the first node with its level, keeps the order and messages of the
  rest and frees the node; a level that no node has leaves the list as it is and returns 0.
  Either way the write lock is taken and released once.\<close>

theorem list_remove_unlinks:
  assumes "quiet l" "chain (el_heap m) (head l) as"
  shows "\<exists>c l' m' bs. rcu_list_remove lk l key m = Inr (c, l', m') \<and> quiet l' \<and>
    chain (el_heap m') (head l') bs \<and> klog m' = klog m @ [WriteLock lk, WriteUnlock lk] \<and>
    (if \<exists>a \<in> set as. lev (el_heap m) a = key
     then c = 1 \<and> (\<exists>xs r ys. as = xs @ r # ys \<and> bs = xs @ ys \<and> lev (el_heap m) r = key \<and>
            (\<forall>x \<in> set xs. lev (el_heap m) x \<noteq> key) \<and> el_heap m' r = None \<and>
            entries (el_heap m') bs = entries (el_heap m) (xs @ ys))
     else c = 0 \<and> bs = as \<and> el_heap m' = el_heap m)"
proof (cases "\<exists>a \<in> set as. lev (el_heap m) a = key")
  case True
  then obtain xs r ys where sp: "as = xs @ r # ys" "\<forall>x \<in> set xs. lev (el_heap m) x \<noteq> key"
    "lev (el_heap m) r = key"
    using split_list_first_prop [of as "\<lambda>a. lev (el_heap m) a = key"] by blast
  with assms(2) have "chain (el_heap m) (head l) (xs @ r # ys)" by simp
  from remove_spec [OF assms(1) this sp(2,3), of lk] True sp show ?thesis by fastforce
next
  case False
  then have nk: "\<forall>a \<in> set as. lev (el_heap m) a \<noteq> key" by blast
  let ?l = "l\<lparr>epoch := other_epoch l\<rparr>"
  have "quiet ?l" "chain (el_heap m) (head ?l) as" using assms by simp_all
  with remove_absent [OF assms nk, of lk] False show ?thesis by auto
qed

lemma list_remove_unlinks_witness:
  "\<exists>l' m'. rcu_list_remove (ListLock 9) two_list 5 two_nodes = Inr (1, l', m') \<and>
    chain (el_heap m') (head l') [1] \<and> el_heap m' 0 = None"
proof -
  have split: "xs = [] \<and> r = 0 \<and> ys = [1]"
    if "[0, 1] = xs @ r # ys" "lev (el_heap two_nodes) r = 5" for xs ys and r :: addr
    using that by (cases xs) (auto simp: two_nodes_def Cons_eq_append_conv)
  have mem: "\<exists>a \<in> set [0, 1 :: addr]. lev (el_heap two_nodes) a = 5" using two_levels by simp
  from list_remove_unlinks [OF two_quiet two_chain, of "ListLock 9" 5] mem split show ?thesis
    by (simp only: if_True) fastforce
qed

text \<open>A reader that is woken gets the first node with its level, the one whose message the
  list holds for it, or none when no node has the level; its epoch count is given back and the
  waiters of the level go down by one.\<close>

theorem list_search_finds:
  fixes m :: kmem
  assumes "quiet l" "chain (el_heap m) (head l) as" "level_ix key = Some j" "ep < 2"
  shows "\<exists>p. search_leave (el_heap m) l ep key False =
      Inr (p, l\<lparr>waiters := (waiters l)[j := waiters l ! j - 1]\<rparr>) \<and>
    map_option (\<lambda>a. snd (entry (el_heap m) a)) p = map_of (entries (el_heap m) as) key"
proof -
  have ok: "rcu_ok m l" using assms(1,2) by (auto simp: rcu_ok_def)
  have "snd (entry h a) = (e_message (the (h a)), e_size (the (h a)))" for h a
    by (simp add: entry_def Let_def)
  with search_leave_woken [OF ok assms(3,4)] rcu_view_chain [OF assms(2)] show ?thesis by auto
qed

lemma list_search_finds_witness:
  "\<exists>p l'. search_leave (el_heap two_nodes) two_list 0 7 False = Inr (p, l') \<and>
    map_option (\<lambda>a. snd (entry (el_heap two_nodes) a)) p = Some ([70, 71], 2)"
proof -
  have j: "level_ix 7 = Some 7" by (simp add: level_ix_def levelDeep_def)
  have "map_of (entries (el_heap two_nodes) [0, 1]) 7 = Some ([70, 71], 2)"
    by (simp add: entry_def two_nodes_def)
  with list_search_finds [OF two_quiet two_chain j, of 0] show ?thesis by auto
qed

text \<open>A writer waits as long as a reader is counted in the epoch it closes: with such a
  reader, neither an insertion nor a removal returns.\<close>

theorem writers_wait_for_readers:
  assumes "0 < standing l ! epoch l" "alloc (el_heap m) = Some n" "chain (el_heap m) (head l) as"
  shows "rcu_list_insert alloc lk l key msg sz m = Inl Spin \<and> rcu_list_remove lk l key m = Inl Spin"
proof
  show "rcu_list_insert alloc lk l key msg sz m = Inl Spin"
    using assms(1,2) by (simp add: rcu_list_insert_def Let_def)
  have commit: "remove_commit lk (l\<lparr>head := x\<rparr>) r m' = Inl Spin" for x r m'
    using assms(1) by (simp add: remove_commit_def Let_def)
  from commit [of "head l"] have commit': "remove_commit lk l r m' = Inl Spin" for r m' by simp
  show "rcu_list_remove lk l key m = Inl Spin"
  proof (cases as)
    case Nil
    with assms(3) have "head l = None" by simp
    then show ?thesis by (simp add: rcu_list_remove_def commit')
  next
    case (Cons a bs)
    with assms(3) obtain e where a: "head l = Some a" "el_heap m a = Some e" by auto
    have find: "find_pred (el_heap m) key (Some a) = Some (Inr (pred_of (\<lambda>a. lev (el_heap m) a = key) as))"
      using find_pred_chain [OF assms(3), of key] a(1) by simp
    show ?thesis
    proof (cases "pred_of (\<lambda>a. lev (el_heap m) a = key) as")
      case None
      with a find commit commit' show ?thesis by (simp add: rcu_list_remove_def Let_def)
    next
      case (Some p)
      then obtain xs r ys where "as = xs @ p # r # ys" by (auto dest: pred_of_Some)
      with assms(3) obtain pe re where "el_heap m p = Some pe" "e_next pe = Some r" "el_heap m r = Some re"
        by auto
      with Some a find commit commit' show ?thesis by (simp add: rcu_list_remove_def Let_def)
    qed
  qed
qed

lemma writers_wait_for_readers_witness:
  "rcu_list_insert (arena 4) (ListLock 9) (two_list\<lparr>standing := [1, 0]\<rparr>) 7 [30] 1 two_nodes = Inl Spin \<and>
   rcu_list_remove (ListLock 9) (two_list\<lparr>standing := [1, 0]\<rparr>) 7 two_nodes = Inl Spin"
  by (rule writers_wait_for_readers [where alloc = "arena 4" and m = two_nodes
        and l = "two_list\<lparr>standing := [1, 0]\<rparr>" and n = 2 and as = "[0, 1]"])
    (use two_alloc two_chain in \<open>simp_all add: two_list_def rcu_list_init_def\<close>)

text \<open>A reader interrupted by a signal takes one off the count of its epoch although it was
  never counted.  The next reader that counts itself there is then invisible: a removal returns
  and frees the node it takes out while that reader is still in the list.\<close>

theorem signal_hides_reader:
  fixes m :: kmem
  assumes "quiet l" "standing l = [0, 0]" "level_ix key = Some j"
    and "chain (el_heap m) (head l) (xs @ r # ys)" "\<forall>x \<in> set xs. lev (el_heap m) x \<noteq> k" "lev (el_heap m) r = k"
  shows "\<exists>l1. search_leave (el_heap m) l (epoch l) key True = Inr (None, l1) \<and>
    (let reading = add_standing (epoch l) 1 l1
     in standing reading ! epoch l = 0 \<and>
        (\<exists>l2 m2. rcu_list_remove lk reading k m = Inr (1, l2, m2) \<and> el_heap m2 r = None))"
proof -
  let ?l = "(add_standing (epoch l) (- 1) l)\<lparr>waiters := (waiters l)[j := waiters l ! j - 1]\<rparr>"
  let ?r = "add_standing (epoch l) 1 ?l"
  have ep: "epoch l = 0 \<or> epoch l = 1" using assms(1) by (auto simp: quiet_def)
  then have st: "standing ?r = [0, 0]" using assms(2) by (auto simp: add_standing_def)
  then have "standing ?r ! epoch l = 0" using ep by auto
  moreover have q: "quiet ?r"
    using assms(1) st unfolding quiet_def by (auto simp: add_standing_def less_2_cases_iff)
  moreover have "chain (el_heap m) (head ?r) (xs @ r # ys)" using assms(4) by (simp add: add_standing_def)
  then have "\<exists>l2 m2. rcu_list_remove lk ?r k m = Inr (1, l2, m2) \<and> el_heap m2 r = None"
    using remove_spec [OF q _ assms(5,6), of ys lk] by blast
  ultimately show ?thesis by (simp add: search_leave_signalled [OF assms(3)] Let_def)
qed

lemma signal_hides_reader_witness:
  "\<exists>l1 l2 m2. search_leave (el_heap two_nodes) two_list 0 3 True = Inr (None, l1) \<and>
    rcu_list_remove (ListLock 9) (add_standing 0 1 l1) 7 two_nodes = Inr (1, l2, m2) \<and> el_heap m2 1 = None"
proof -
  have j: "level_ix 3 = Some 3" by (simp add: level_ix_def levelDeep_def)
  have st: "standing two_list = [0, 0]" and ep: "epoch two_list = 0"
    by (simp_all add: two_list_def rcu_list_init_def)
  have ch: "chain (el_heap two_nodes) (head two_list) ([0] @ 1 # [])" using two_chain by simp
  from signal_hides_reader [OF two_quiet st j ch, of 7 "ListLock 9"] two_levels ep show ?thesis
    by (auto simp: Let_def)
qed

end
