(* ===== verification/RcuSteps.thy ===== *)
theory RcuSteps
  imports RcuCorrect
begin

text \<open>
  The list of \<^verbatim>\<open>rcu-list.c\<close> used by several threads at once.  Each thread is at a point of
  one of the four C functions (\<open>pc\<close>) and a step is one access to memory that threads share:
  a read or write of a field of the list, a node, the lock, or an atomic addition.  Writes
  take effect at once and in order.  What a writer does to the nodes while it alone may
  change them is one step up to the first write that a reader can see, so in
  \<^verbatim>\<open>rcu_list_replace\<close> the store of line 188 and that of line 189 are two steps.

  \<open>None\<close> as the outcome of a step means that the thread cannot move: it waits, or it would
  follow a pointer to a node that has been freed.
\<close>

declare find_pred.simps [code] find_level.simps [code]

section \<open>Where a thread is\<close>

text \<open>In \<^verbatim>\<open>rcu_list_search\<close>, with its level, \<^verbatim>\<open>my_epoch\<close> and \<^verbatim>\<open>p\<close>.  The flag kept from
  \<open>Heading\<close> on is not in the code: it says that \<^verbatim>\<open>my_epoch\<close> was still the epoch of the list
  when the reader counted itself in.\<close>

datatype reader =
    Entering c_int
  | Clearing c_int nat
  | Loading c_int nat
  | Storing c_int nat int
  | Checking c_int nat
  | Queueing c_int nat
  | Rechecking c_int nat
  | Parked c_int nat
  | Counting c_int nat
  | Heading c_int nat bool
  | Walking c_int nat bool "addr option"
  | Uncounting c_int nat bool "addr option"
  | Leaving c_int "addr option"
  | Left c_int "addr option" int
  | Returned "addr option"

text \<open>In one of the writers: what is to be linked or taken out (the new node is allocated and
  filled before the lock is asked for), then the node taken out and the epoch waited for.\<close>

datatype change = Link_New addr | Put_In_Place c_int addr | Take_Out c_int

datatype writer =
    Locking change
  | Locked change
  | Linking addr addr
  | Draining "addr option"
  | Flipping "addr option"
  | Waiting "addr option" nat
  | Unlocking "addr option"
  | Freeing "addr option"

datatype pc = Idle | Reading reader | Writing writer

record rcu_mem =
  rlist :: rcu_list
  nodes :: el_store
  holder :: "nat option"

record rcu_sys =
  shared :: rcu_mem
  pcs :: "pc list"

section \<open>Steps of a reader\<close>

definition on_list :: "(rcu_list \<Rightarrow> rcu_list) \<Rightarrow> rcu_mem \<Rightarrow> rcu_mem" where
  "on_list f m = m\<lparr>rlist := f (rlist m)\<rparr>"

definition ix :: "c_int \<Rightarrow> nat" where
  "ix key = the (level_ix key)"

definition set_ready :: "nat \<Rightarrow> int \<Rightarrow> rcu_list \<Rightarrow> rcu_list" where
  "set_ready j v l = l\<lparr>ready := (ready l)[j := v]\<rparr>"

definition set_waiters :: "nat \<Rightarrow> int \<Rightarrow> rcu_list \<Rightarrow> rcu_list" where
  "set_waiters j v l = l\<lparr>waiters := (waiters l)[j := v]\<rparr>"

definition set_queue :: "nat \<Rightarrow> (nat list \<Rightarrow> nat list) \<Rightarrow> rcu_list \<Rightarrow> rcu_list" where
  "set_queue j f l = l\<lparr>readerQueue := (readerQueue l)[j := f (readerQueue l ! j)]\<rparr>"

text \<open>\<^verbatim>\<open>rcu_list_search\<close> run by the thread \<open>t\<close>.  \<^verbatim>\<open>wait_event_interruptible\<close> tests the
  condition, then repeats: join the queue, test again, sleep until taken off the queue.  The
  increments of \<^verbatim>\<open>waiters\<close> are a load and a store, those of \<^verbatim>\<open>standing\<close> are atomic.  The last
  step is the caller reading the fields of the node it was given.\<close>

fun search_step :: "nat \<Rightarrow> reader \<Rightarrow> rcu_mem \<Rightarrow> (pc \<times> rcu_mem) option" where
  "search_step t (Entering key) m = Some (Reading (Clearing key (epoch (rlist m))), m)"
| "search_step t (Clearing key e) m = Some (Reading (Loading key e), on_list (set_ready (ix key) 0) m)"
| "search_step t (Loading key e) m = Some (Reading (Storing key e (waiters (rlist m) ! ix key)), m)"
| "search_step t (Storing key e w) m =
     Some (Reading (Checking key e), on_list (set_waiters (ix key) (w + 1)) m)"
| "search_step t (Checking key e) m =
     Some (if ready (rlist m) ! ix key = 1 then (Reading (Counting key e), m)
           else (Reading (Queueing key e), m))"
| "search_step t (Queueing key e) m =
     Some (Reading (Rechecking key e), on_list (set_queue (ix key) (\<lambda>q. List.insert t q)) m)"
| "search_step t (Rechecking key e) m =
     Some (if ready (rlist m) ! ix key = 1
           then (Reading (Counting key e), on_list (set_queue (ix key) (removeAll t)) m)
           else (Reading (Parked key e), m))"
| "search_step t (Parked key e) m =
     (if t \<in> set (readerQueue (rlist m) ! ix key) then None else Some (Reading (Queueing key e), m))"
| "search_step t (Counting key e) m =
     Some (Reading (Heading key e (e = epoch (rlist m))), on_list (add_standing e 1) m)"
| "search_step t (Heading key e c) m = Some (Reading (Walking key e c (head (rlist m))), m)"
| "search_step t (Walking key e c p) m = (case p of
     None \<Rightarrow> Some (Reading (Uncounting key e c None), m)
   | Some a \<Rightarrow> (case nodes m a of
       None \<Rightarrow> None
     | Some x \<Rightarrow>
         if e_level x = key then Some (Reading (Uncounting key e c (Some a)), m)
         else Some (Reading (Walking key e c (e_next x)), m)))"
| "search_step t (Uncounting key e c p) m =
     Some (Reading (Leaving key p), on_list (add_standing e (- 1)) m)"
| "search_step t (Leaving key p) m = Some (Reading (Left key p (waiters (rlist m) ! ix key)), m)"
| "search_step t (Left key p w) m =
     Some (Reading (Returned p), on_list (set_waiters (ix key) (w - 1)) m)"
| "search_step t (Returned p) m = (case p of
     None \<Rightarrow> Some (Idle, m)
   | Some a \<Rightarrow> (case nodes m a of None \<Rightarrow> None | Some x \<Rightarrow> Some (Idle, m)))"

text \<open>\<^verbatim>\<open>-ERESTARTSYS\<close>: a sleeper leaves the queue and goes to line 42.\<close>

definition signal_step :: "nat \<Rightarrow> reader \<Rightarrow> rcu_mem \<Rightarrow> (pc \<times> rcu_mem) option" where
  "signal_step t r m = (case r of
     Parked key e \<Rightarrow> Some (Reading (Uncounting key e False None), on_list (set_queue (ix key) (removeAll t)) m)
   | _ \<Rightarrow> None)"

section \<open>Steps of a writer\<close>

text \<open>Lines 87 and 88: the new node becomes the head.\<close>

definition link_new :: "addr \<Rightarrow> rcu_mem \<Rightarrow> (pc \<times> rcu_mem) option" where
  "link_new n m = (case nodes m n of
     None \<Rightarrow> None
   | Some x \<Rightarrow> Some (Writing (Flipping None),
       m\<lparr>nodes := (nodes m)(n \<mapsto> x\<lparr>e_next := head (rlist m)\<rparr>),
         rlist := (rlist m)\<lparr>head := Some n\<rparr>\<rparr>))"

text \<open>Lines 174 to 197.  Both early returns leave the lock as it is.\<close>

definition put_in_place :: "c_int \<Rightarrow> addr \<Rightarrow> rcu_mem \<Rightarrow> (pc \<times> rcu_mem) option" where
  "put_in_place key n m = (case head (rlist m) of
     None \<Rightarrow> Some (Idle, m)
   | Some a \<Rightarrow> (case nodes m a of
       None \<Rightarrow> None
     | Some x \<Rightarrow>
         if e_level x = key then
           (case nodes m n of
              None \<Rightarrow> None
            | Some y \<Rightarrow> Some (Writing (Flipping (Some a)),
                m\<lparr>nodes := (nodes m)(n \<mapsto> y\<lparr>e_next := e_next x\<rparr>),
                  rlist := (rlist m)\<lparr>head := Some n\<rparr>\<rparr>))
         else (case find_pred (nodes m) key (Some a) of
             Some (Inr None) \<Rightarrow> Some (Idle, m)
           | Some (Inr (Some p)) \<Rightarrow>
               let pe = the (nodes m p)
               in Some (Writing (Linking n (the (e_next pe))),
                        m\<lparr>nodes := (nodes m)(p \<mapsto> pe\<lparr>e_next := Some n\<rparr>)\<rparr>)
           | _ \<Rightarrow> None)))"

text \<open>Line 189.\<close>

definition link_replaced :: "addr \<Rightarrow> addr \<Rightarrow> rcu_mem \<Rightarrow> (pc \<times> rcu_mem) option" where
  "link_replaced n r m = (case (nodes m n, nodes m r) of
     (Some x, Some y) \<Rightarrow> Some (Writing (Flipping (Some r)),
       m\<lparr>nodes := (nodes m)(n \<mapsto> x\<lparr>e_next := e_next y\<rparr>)\<rparr>)
   | _ \<Rightarrow> None)"

text \<open>Lines 123 to 137.\<close>

definition take_out :: "c_int \<Rightarrow> rcu_mem \<Rightarrow> (pc \<times> rcu_mem) option" where
  "take_out key m = (case head (rlist m) of
     None \<Rightarrow> Some (Writing (Draining None), m)
   | Some a \<Rightarrow> (case nodes m a of
       None \<Rightarrow> None
     | Some x \<Rightarrow>
         if e_level x = key then
           Some (Writing (Draining (Some a)), m\<lparr>rlist := (rlist m)\<lparr>head := e_next x\<rparr>\<rparr>)
         else (case find_pred (nodes m) key (Some a) of
             Some (Inr None) \<Rightarrow> Some (Writing (Draining None), m)
           | Some (Inr (Some p)) \<Rightarrow>
               let pe = the (nodes m p); r = the (e_next pe)
               in (case nodes m r of
                     None \<Rightarrow> None
                   | Some y \<Rightarrow> Some (Writing (Draining (Some r)),
                       m\<lparr>nodes := (nodes m)(p \<mapsto> pe\<lparr>e_next := e_next y\<rparr>)\<rparr>))
           | _ \<Rightarrow> None)))"

text \<open>The three writers share everything but the change they make and \<^verbatim>\<open>rcu_list_remove\<close>'s
  wait for the next epoch (\<open>Draining\<close>).\<close>

fun writer_step :: "nat \<Rightarrow> writer \<Rightarrow> rcu_mem \<Rightarrow> (pc \<times> rcu_mem) option" where
  "writer_step t (Locking c) m =
     (if holder m = None then Some (Writing (Locked c), m\<lparr>holder := Some t\<rparr>) else None)"
| "writer_step t (Locked c) m = (case c of
     Link_New n \<Rightarrow> link_new n m
   | Put_In_Place key n \<Rightarrow> put_in_place key n m
   | Take_Out key \<Rightarrow> take_out key m)"
| "writer_step t (Linking n r) m = link_replaced n r m"
| "writer_step t (Draining r) m =
     (if standing (rlist m) ! other_epoch (rlist m) > 0 then None else Some (Writing (Flipping r), m))"
| "writer_step t (Flipping r) m =
     Some (Writing (Waiting r (epoch (rlist m))), on_list (\<lambda>l. l\<lparr>epoch := other_epoch l\<rparr>) m)"
| "writer_step t (Waiting r g) m =
     (if standing (rlist m) ! g > 0 then None else Some (Writing (Unlocking r), m))"
| "writer_step t (Unlocking r) m = Some (Writing (Freeing r), m\<lparr>holder := None\<rparr>)"
| "writer_step t (Freeing r) m = (case r of
     None \<Rightarrow> Some (Idle, m)
   | Some a \<Rightarrow> (case nodes m a of
       None \<Rightarrow> None
     | Some x \<Rightarrow> Some (Idle, m\<lparr>nodes := (nodes m)(a := None)\<rparr>)))"

section \<open>The machine\<close>

text \<open>\<open>Move\<close> is the next step of a thread inside a function.  An idle thread starts a search
  (of a level inside the arrays) or a writer, for which \<^verbatim>\<open>kmalloc\<close> has answered the free address
  given; or, as \<^verbatim>\<open>tag_send\<close> and \<^verbatim>\<open>AWAKE_ALL\<close> do, raises the flag of a level (\<open>Raise\<close>) or takes
  its sleepers off the queue (\<open>Wake\<close>).\<close>

datatype event =
    Move nat
  | Search nat c_int
  | Insert nat addr c_int "byte list" size_t
  | Replace nat addr c_int "byte list" size_t
  | Remove nat c_int
  | Raise nat nat
  | Wake nat nat
  | Signal nat

definition put_thread :: "nat \<Rightarrow> rcu_sys \<Rightarrow> (pc \<times> rcu_mem) option \<Rightarrow> rcu_sys option" where
  "put_thread t s out = map_option (\<lambda>(p, m). \<lparr>shared = m, pcs = (pcs s)[t := p]\<rparr>) out"

definition begin_call :: "nat \<Rightarrow> rcu_sys \<Rightarrow> pc \<Rightarrow> rcu_mem \<Rightarrow> rcu_sys option" where
  "begin_call t s p m =
     (if t < length (pcs s) \<and> pcs s ! t = Idle then put_thread t s (Some (p, m)) else None)"

definition with_node :: "nat \<Rightarrow> rcu_sys \<Rightarrow> addr \<Rightarrow> element \<Rightarrow> change \<Rightarrow> rcu_sys option" where
  "with_node t s a x c =
     (if nodes (shared s) a = None
      then begin_call t s (Writing (Locking c)) ((shared s)\<lparr>nodes := (nodes (shared s))(a \<mapsto> x)\<rparr>)
      else None)"

abbreviation new_element :: "c_int \<Rightarrow> byte list \<Rightarrow> size_t \<Rightarrow> element" where
  "new_element key msg sz \<equiv> \<lparr>e_next = None, e_level = key, e_message = msg, e_size = sz\<rparr>"

fun run_event :: "event \<Rightarrow> rcu_sys \<Rightarrow> rcu_sys option" where
  "run_event (Move t) s =
     (if t < length (pcs s) then (case pcs s ! t of
        Idle \<Rightarrow> None
      | Reading r \<Rightarrow> put_thread t s (search_step t r (shared s))
      | Writing w \<Rightarrow> put_thread t s (writer_step t w (shared s))) else None)"
| "run_event (Search t key) s =
     (if level_ix key = None then None else begin_call t s (Reading (Entering key)) (shared s))"
| "run_event (Insert t a key msg sz) s = with_node t s a (new_element key msg sz) (Link_New a)"
| "run_event (Replace t a key msg sz) s = with_node t s a (new_element key msg sz) (Put_In_Place key a)"
| "run_event (Remove t key) s = begin_call t s (Writing (Locking (Take_Out key))) (shared s)"
| "run_event (Raise t j) s = begin_call t s Idle (on_list (set_ready j 1) (shared s))"
| "run_event (Wake t j) s = begin_call t s Idle (on_list (wake_up_all j) (shared s))"
| "run_event (Signal t) s =
     (if t < length (pcs s) then (case pcs s ! t of
        Reading r \<Rightarrow> put_thread t s (signal_step t r (shared s))
      | _ \<Rightarrow> None) else None)"

text \<open>\<open>ok\<close> restricts what may happen, e.g. to runs without signals.\<close>

inductive rcu_step :: "(event \<Rightarrow> bool) \<Rightarrow> rcu_sys \<Rightarrow> rcu_sys \<Rightarrow> bool" for ok :: "event \<Rightarrow> bool" where
  rcu_stepI: "ok ev \<Longrightarrow> run_event ev s = Some s' \<Longrightarrow> rcu_step ok s s'"

inductive_cases rcu_stepE: "rcu_step ok s s'"

definition no_signal :: "event \<Rightarrow> bool" where
  "no_signal ev = (case ev of Signal t \<Rightarrow> False | _ \<Rightarrow> True)"

text \<open>The list has just been initialised and the threads are outside its functions.\<close>

definition rcu_boot :: "nat \<Rightarrow> rcu_sys" where
  "rcu_boot n = \<lparr>shared = \<lparr>rlist = rcu_list_init, nodes = Map.empty, holder = None\<rparr>,
                 pcs = replicate n Idle\<rparr>"

definition rcu_booted :: "rcu_sys \<Rightarrow> bool" where
  "rcu_booted s \<longleftrightarrow> (\<exists>n. s = rcu_boot n)"

abbreviation rcu_reach :: "(event \<Rightarrow> bool) \<Rightarrow> rcu_sys \<Rightarrow> bool" where
  "rcu_reach ok \<equiv> reach rcu_booted (rcu_step ok)"

text \<open>A schedule: the events in the order they happen.\<close>

fun run_events :: "event list \<Rightarrow> rcu_sys \<Rightarrow> rcu_sys option" where
  "run_events [] s = Some s"
| "run_events (ev # evs) s = (case run_event ev s of None \<Rightarrow> None | Some s' \<Rightarrow> run_events evs s')"

abbreviation moves :: "nat \<Rightarrow> nat \<Rightarrow> event list" where
  "moves n t \<equiv> replicate n (Move t)"

lemma run_events_append:
  "run_events (xs @ ys) s = (case run_events xs s of None \<Rightarrow> None | Some s' \<Rightarrow> run_events ys s')"
  by (induction xs arbitrary: s) (auto split: option.splits)

lemma run_events_steps:
  "run_events evs s = Some s' \<Longrightarrow> list_all ok evs \<Longrightarrow> (rcu_step ok)\<^sup>*\<^sup>* s s'"
proof (induction evs arbitrary: s)
  case (Cons ev evs)
  then obtain s1 where "run_event ev s = Some s1" "run_events evs s1 = Some s'"
    by (auto split: option.splits)
  with Cons show ?case by (auto intro: converse_rtranclp_into_rtranclp rcu_stepI)
qed simp

lemma reach_run:
  assumes "run_events evs s = Some s'" "list_all ok evs" "rcu_reach ok s"
  shows "rcu_reach ok s'"
  using run_events_steps [OF assms(1,2)] assms(3)
  by (induction rule: rtranclp_induct) (auto intro: reach.intros)

lemma reach_schedule:
  "run_events evs (rcu_boot n) = Some s \<Longrightarrow> list_all ok evs \<Longrightarrow> rcu_reach ok s"
  using reach_run [of evs "rcu_boot n"] reach_init [of rcu_booted "rcu_boot n" "rcu_step ok"]
  unfolding rcu_booted_def by blast

end
