(* ===== verification/RcuSafe.thy ===== *)
theory RcuSafe
  imports RcuSteps
begin

text \<open>
  What every interleaving without signals keeps: the nodes from the head form a chain, each
  node outside it that is still allocated belongs to at most one writer, \<^verbatim>\<open>standing\<close> counts the
  readers between lines 46 and 56, and a reader that counted itself in the current epoch only
  holds nodes of the chain or the node its epoch's writer is waiting to free.
\<close>

section \<open>What a thread holds\<close>

fun has_lock :: "writer \<Rightarrow> bool" where
  "has_lock (Locking c) = False"
| "has_lock (Freeing r) = False"
| "has_lock _ = True"

definition lock_state :: "pc \<Rightarrow> writer option" where
  "lock_state p = (case p of Writing w \<Rightarrow> if has_lock w then Some w else None | _ \<Rightarrow> None)"

lemma lock_state_simps [simp]:
  "lock_state Idle = None" "lock_state (Reading r) = None"
  "lock_state (Writing w) = (if has_lock w then Some w else None)"
  by (simp_all add: lock_state_def)

text \<open>The writer that has the lock, if it is inside a function.\<close>

definition at_work :: "rcu_mem \<Rightarrow> pc list \<Rightarrow> writer option" where
  "at_work m ps = (case holder m of
     None \<Rightarrow> None | Some t \<Rightarrow> if t < length ps then lock_state (ps ! t) else None)"

fun new_node :: "change \<Rightarrow> addr set" where
  "new_node (Link_New n) = {n}"
| "new_node (Put_In_Place key n) = {n}"
| "new_node (Take_Out key) = {}"

text \<open>Nodes outside the list that only this writer may change, and those of them that a
  reader may still be at.\<close>

fun kept_nodes :: "writer \<Rightarrow> addr set" where
  "kept_nodes (Locking c) = new_node c"
| "kept_nodes (Locked c) = new_node c"
| "kept_nodes (Linking n r) = {r}"
| "kept_nodes (Draining r) = set_option r"
| "kept_nodes (Flipping r) = set_option r"
| "kept_nodes (Waiting r g) = set_option r"
| "kept_nodes (Unlocking r) = set_option r"
| "kept_nodes (Freeing r) = set_option r"

fun pending :: "writer \<Rightarrow> nat \<Rightarrow> addr set" where
  "pending (Linking n r) e = {r}"
| "pending (Draining r) e = set_option r"
| "pending (Flipping r) e = set_option r"
| "pending (Waiting r g) e = (if e = g then set_option r else {})"
| "pending _ e = {}"

fun unlinked :: "writer \<Rightarrow> addr set" where
  "unlinked (Locking c) = new_node c"
| "unlinked (Locked c) = new_node c"
| "unlinked (Linking n r) = {n}"
| "unlinked _ = {}"

text \<open>Between lines 188 and 189 the list is whole only with the link that is still missing.\<close>

fun completed :: "writer \<Rightarrow> el_store \<Rightarrow> el_store" where
  "completed (Linking n r) h = h(n \<mapsto> (the (h n))\<lparr>e_next := e_next (the (h r))\<rparr>)"
| "completed _ h = h"

definition whole :: "writer option \<Rightarrow> el_store \<Rightarrow> el_store" where
  "whole W h = (case W of None \<Rightarrow> h | Some w \<Rightarrow> completed w h)"

definition owned :: "pc \<Rightarrow> addr set" where
  "owned p = (case p of Writing w \<Rightarrow> kept_nodes w | _ \<Rightarrow> {})"

lemma owned_simps [simp]:
  "owned Idle = {}" "owned (Reading r) = {}" "owned (Writing w) = kept_nodes w"
  by (simp_all add: owned_def)

definition allowed :: "addr set \<Rightarrow> writer option \<Rightarrow> nat \<Rightarrow> addr set" where
  "allowed A W e = A \<union> (case W of None \<Rightarrow> {} | Some w \<Rightarrow> pending w e)"

definition in_grace :: "writer option \<Rightarrow> nat \<Rightarrow> bool" where
  "in_grace W e \<longleftrightarrow> (\<exists>r. W = Some (Waiting r e))"

section \<open>What a thread may rely on\<close>

fun counted_reader :: "reader \<Rightarrow> nat \<Rightarrow> bool" where
  "counted_reader (Heading key e c) i = (e = i)"
| "counted_reader (Walking key e c p) i = (e = i)"
| "counted_reader (Uncounting key e c p) i = (e = i)"
| "counted_reader _ i = False"

definition counted :: "nat \<Rightarrow> pc \<Rightarrow> bool" where
  "counted e p = (case p of Reading r \<Rightarrow> counted_reader r e | _ \<Rightarrow> False)"

lemma counted_simps [simp]:
  "counted e Idle = False" "counted e (Reading r) = counted_reader r e" "counted e (Writing w) = False"
  by (simp_all add: counted_def)

fun my_epoch :: "reader \<Rightarrow> nat set" where
  "my_epoch (Entering key) = {}"
| "my_epoch (Clearing key e) = {e}"
| "my_epoch (Loading key e) = {e}"
| "my_epoch (Storing key e w) = {e}"
| "my_epoch (Checking key e) = {e}"
| "my_epoch (Queueing key e) = {e}"
| "my_epoch (Rechecking key e) = {e}"
| "my_epoch (Parked key e) = {e}"
| "my_epoch (Counting key e) = {e}"
| "my_epoch (Heading key e c) = {e}"
| "my_epoch (Walking key e c p) = {e}"
| "my_epoch (Uncounting key e c p) = {e}"
| "my_epoch _ = {}"

fun reader_ok :: "rcu_mem \<Rightarrow> addr set \<Rightarrow> writer option \<Rightarrow> reader \<Rightarrow> bool" where
  "reader_ok m A W (Heading key e c) \<longleftrightarrow> (c \<longrightarrow> e = epoch (rlist m) \<or> in_grace W e)"
| "reader_ok m A W (Walking key e c p) \<longleftrightarrow>
     (c \<longrightarrow> (e = epoch (rlist m) \<or> in_grace W e) \<and> set_option p \<subseteq> allowed A W e)"
| "reader_ok m A W (Uncounting key e c p) \<longleftrightarrow>
     (c \<longrightarrow> (e = epoch (rlist m) \<or> in_grace W e) \<and> set_option p \<subseteq> allowed A W e \<and>
            (\<forall>a \<in> set_option p. lev (nodes m) a = key))"
| "reader_ok m A W _ \<longleftrightarrow> True"

text \<open>The nodes of a writer are allocated and not in the list; a new one has no successor yet,
  one that readers may still leave leads back into the list.\<close>

definition writer_ok :: "rcu_mem \<Rightarrow> addr set \<Rightarrow> writer \<Rightarrow> bool" where
  "writer_ok m A w \<longleftrightarrow>
     (\<forall>a \<in> kept_nodes w. nodes m a \<noteq> None \<and> a \<notin> A) \<and>
     (\<forall>n \<in> unlinked w. \<exists>x. nodes m n = Some x \<and> e_next x = None) \<and>
     (\<forall>n r. w = Linking n r \<longrightarrow> n \<in> A) \<and>
     (\<forall>r g. w = Waiting r g \<longrightarrow> g < 2) \<and>
     (\<forall>e r x. r \<in> pending w e \<longrightarrow> nodes m r = Some x \<longrightarrow> set_option (e_next x) \<subseteq> A)"

definition pc_ok :: "rcu_mem \<Rightarrow> addr set \<Rightarrow> writer option \<Rightarrow> nat \<Rightarrow> pc \<Rightarrow> bool" where
  "pc_ok m A W t p \<longleftrightarrow>
     (lock_state p \<noteq> None \<longrightarrow> holder m = Some t) \<and>
     (case p of
        Idle \<Rightarrow> True
      | Reading r \<Rightarrow> (\<forall>e \<in> my_epoch r. e < 2) \<and> reader_ok m A W r
      | Writing w \<Rightarrow> writer_ok m A w)"

lemma pc_ok_simps [simp]:
  "pc_ok m A W t Idle = True"
  "pc_ok m A W t (Reading r) \<longleftrightarrow> (\<forall>e \<in> my_epoch r. e < 2) \<and> reader_ok m A W r"
  "pc_ok m A W t (Writing w) \<longleftrightarrow> (has_lock w \<longrightarrow> holder m = Some t) \<and> writer_ok m A w"
  by (simp_all add: pc_ok_def)

section \<open>The invariant\<close>

definition rcu_inv :: "rcu_mem \<Rightarrow> pc list \<Rightarrow> addr list \<Rightarrow> bool" where
  "rcu_inv m ps as \<longleftrightarrow>
     epoch (rlist m) < 2 \<and> length (standing (rlist m)) = 2 \<and>
     (\<forall>e < 2. standing (rlist m) ! e = int (length (filter (counted e) ps))) \<and>
     chain (whole (at_work m ps) (nodes m)) (head (rlist m)) as \<and>
     (\<forall>t < length ps. pc_ok m (set as) (at_work m ps) t (ps ! t)) \<and>
     (\<forall>t < length ps. \<forall>u < length ps. t \<noteq> u \<longrightarrow> owned (ps ! t) \<inter> owned (ps ! u) = {})"

text \<open>What another thread needs of a step in order to keep its part of the invariant.\<close>

definition undisturbed ::
  "rcu_mem \<Rightarrow> addr set \<Rightarrow> writer option \<Rightarrow> rcu_mem \<Rightarrow> addr set \<Rightarrow> writer option \<Rightarrow> nat \<Rightarrow> pc \<Rightarrow> bool" where
  "undisturbed m A W m' A' W' u p \<longleftrightarrow>
     (lock_state p \<noteq> None \<longrightarrow> holder m' = holder m \<and> A' = A \<and> (\<forall>a \<in> A. nodes m' a = nodes m a)) \<and>
     (\<forall>a \<in> owned p. nodes m' a = nodes m a \<and> a \<notin> A') \<and>
     (\<forall>e < 2. counted e p \<longrightarrow> e = epoch (rlist m) \<or> in_grace W e \<longrightarrow>
        (e = epoch (rlist m') \<or> in_grace W' e) \<and> allowed A W e \<subseteq> allowed A' W' e \<and>
        (\<forall>a \<in> allowed A W e. lev (nodes m') a = lev (nodes m) a))"

lemma unlinked_cases: "unlinked w \<subseteq> kept_nodes w \<or> (\<exists>n r. w = Linking n r)"
  by (cases w) auto

lemma pending_kept: "pending w e \<subseteq> kept_nodes w"
  by (cases w) auto

lemma pending_locked: "r \<in> pending w e \<Longrightarrow> has_lock w"
  by (cases w) auto

lemma undisturbed_pc_ok:
  assumes ok: "pc_ok m A W u p" and un: "undisturbed m A W m' A' W' u p"
  shows "pc_ok m' A' W' u p"
proof (cases p)
  case (Reading r)
  with assms show ?thesis by (cases r) (auto simp: undisturbed_def)
next
  case (Writing w)
  from un have lk: "has_lock w \<Longrightarrow> holder m' = holder m \<and> A' = A \<and> (\<forall>a \<in> A. nodes m' a = nodes m a)"
    and ow: "\<forall>a \<in> kept_nodes w. nodes m' a = nodes m a \<and> a \<notin> A'"
    unfolding Writing undisturbed_def by auto
  from ok have w: "writer_ok m A w" "has_lock w \<Longrightarrow> holder m = Some u" by (simp_all add: Writing)
  have "\<exists>x. nodes m' n = Some x \<and> e_next x = None" if n: "n \<in> unlinked w" for n
  proof -
    have "nodes m' n = nodes m n"
      using n ow lk w(1) unlinked_cases [of w] by (auto simp: writer_ok_def)
    with n w(1) show ?thesis by (auto simp: writer_ok_def)
  qed
  moreover have "set_option (e_next x) \<subseteq> A'" if r: "r \<in> pending w e" "nodes m' r = Some x" for e r x
  proof -
    have "has_lock w" "r \<in> kept_nodes w" using r(1) pending_locked pending_kept by blast+
    with lk ow w(1) r show ?thesis unfolding writer_ok_def by metis
  qed
  moreover have "n \<in> A'" if "w = Linking n r" for n r
    using that lk w(1) by (simp add: writer_ok_def)
  ultimately have "writer_ok m' A' w" using ow w(1) by (auto simp: writer_ok_def)
  with lk w(2) show ?thesis by (auto simp: Writing)
qed simp

lemma rcu_inv_step:
  assumes inv: "rcu_inv m ps as" and t: "t < length ps"
    and shape: "epoch (rlist m') < 2" "length (standing (rlist m')) = 2"
    and cnt: "\<And>e. e < 2 \<Longrightarrow> standing (rlist m') ! e + of_bool (counted e (ps ! t)) =
      standing (rlist m) ! e + of_bool (counted e p)"
    and W: "at_work m' (ps[t := p]) = W'"
    and ch: "chain (whole W' (nodes m')) (head (rlist m')) as'"
    and ok: "pc_ok m' (set as') W' t p"
    and own: "\<And>u. u < length ps \<Longrightarrow> u \<noteq> t \<Longrightarrow> owned p \<inter> owned (ps ! u) = {}"
    and un: "\<And>u. u < length ps \<Longrightarrow> u \<noteq> t \<Longrightarrow>
      undisturbed m (set as) (at_work m ps) m' (set as') W' u (ps ! u)"
  shows "rcu_inv m' (ps[t := p]) as'"
proof -
  have "standing (rlist m') ! e = int (length (filter (counted e) (ps[t := p])))" if e: "e < 2" for e
    using inv cnt [OF e] e length_filter_update [OF t, of "counted e" p] unfolding rcu_inv_def
    by (auto simp: of_bool_def split: if_splits)
  moreover have "pc_ok m' (set as') W' u (ps[t := p] ! u)" if u: "u < length ps" for u
  proof (cases "u = t")
    case True
    with ok t show ?thesis by simp
  next
    case False
    from inv u have "pc_ok m (set as) (at_work m ps) u (ps ! u)" by (simp add: rcu_inv_def)
    from undisturbed_pc_ok [OF this un [OF u False]] False show ?thesis by simp
  qed
  moreover have "owned (ps[t := p] ! u) \<inter> owned (ps[t := p] ! v) = {}"
    if "u < length ps" "v < length ps" "u \<noteq> v" for u v
    using that inv own [of u] own [of v] t unfolding rcu_inv_def nth_list_update [OF t]
    by (auto simp: nth_list_update)
  ultimately show ?thesis using shape ch by (simp add: rcu_inv_def W)
qed

section \<open>What the invariant says of the nodes\<close>

lemma at_work_thread:
  assumes "rcu_inv m ps as" "at_work m ps = Some w"
  obtains t where "holder m = Some t" "t < length ps" "ps ! t = Writing w" "has_lock w"
    "writer_ok m (set as) w"
proof -
  from assms(2) obtain t where t: "holder m = Some t" "t < length ps" "lock_state (ps ! t) = Some w"
    by (auto simp: at_work_def split: option.splits if_splits)
  then have w: "ps ! t = Writing w" "has_lock w"
    by (auto simp: lock_state_def split: pc.splits if_splits)
  from assms(1) t(2) have "pc_ok m (set as) (at_work m ps) t (ps ! t)" unfolding rcu_inv_def by blast
  then have "writer_ok m (set as) w" by (simp add: w)
  with t w show thesis by (auto intro: that)
qed

lemma at_work_held:
  assumes "rcu_inv m ps as" "t < length ps" "ps ! t = Writing w" "has_lock w"
  shows "holder m = Some t" "at_work m ps = Some w"
proof -
  from assms(1,2) have "pc_ok m (set as) (at_work m ps) t (ps ! t)" unfolding rcu_inv_def by blast
  with assms(3,4) show "holder m = Some t" by simp
  with assms(2-4) show "at_work m ps = Some w" by (simp add: at_work_def)
qed

lemma rcu_inv_pc: "rcu_inv m ps as \<Longrightarrow> t < length ps \<Longrightarrow> ps ! t = p \<Longrightarrow> pc_ok m (set as) (at_work m ps) t p"
  by (auto simp: rcu_inv_def)

lemma rcu_inv_chain:
  assumes "rcu_inv m ps as" "\<And>n r. at_work m ps \<noteq> Some (Linking n r)"
  shows "chain (nodes m) (head (rlist m)) as"
proof -
  have "whole (at_work m ps) (nodes m) = nodes m"
    using assms(2) by (cases "at_work m ps" rule: option.exhaust; cases "the (at_work m ps)")
      (auto simp: whole_def)
  with assms(1) show ?thesis by (simp add: rcu_inv_def)
qed

lemma head_in_list: "rcu_inv m ps as \<Longrightarrow> set_option (head (rlist m)) \<subseteq> set as"
  by (cases as) (auto simp: rcu_inv_def)

lemma seg_next: "chain h p as \<Longrightarrow> a \<in> set as \<Longrightarrow> h a = Some x \<Longrightarrow> set_option (e_next x) \<subseteq> set as"
proof (induction as arbitrary: p)
  case (Cons b bs)
  then show ?case by (cases bs) auto
qed simp

lemma list_nodes:
  assumes inv: "rcu_inv m ps as" and a: "a \<in> set as"
  obtains x where "nodes m a = Some x" "set_option (e_next x) \<subseteq> set as"
proof (cases "\<exists>n r. at_work m ps = Some (Linking n r)")
  case False
  then have ch: "chain (nodes m) (head (rlist m)) as" using inv by (auto intro: rcu_inv_chain)
  with a obtain x where "nodes m a = Some x" using seg_allocated by blast
  with seg_next [OF ch a] show thesis by (auto intro: that)
next
  case True
  then obtain n r where W: "at_work m ps = Some (Linking n r)" by blast
  then have ch: "chain (completed (Linking n r) (nodes m)) (head (rlist m)) as"
    using inv by (simp add: rcu_inv_def whole_def)
  from W inv obtain y where y: "nodes m n = Some y" "e_next y = None"
    by (elim at_work_thread) (auto simp: writer_ok_def)
  show thesis
  proof (cases "a = n")
    case True
    with y show thesis by (auto intro: that)
  next
    case False
    with ch a obtain x where "nodes m a = Some x" using seg_allocated by fastforce
    moreover from this False have "completed (Linking n r) (nodes m) a = Some x" by simp
    ultimately show thesis using seg_next [OF ch a] by (auto intro: that)
  qed
qed

lemma allowed_nodes:
  assumes inv: "rcu_inv m ps as" and a: "a \<in> allowed (set as) (at_work m ps) e"
  obtains x where "nodes m a = Some x" "set_option (e_next x) \<subseteq> set as"
proof (cases "a \<in> set as")
  case True
  with inv show thesis by (auto elim: list_nodes intro: that)
next
  case False
  with a obtain w where w: "at_work m ps = Some w" "a \<in> pending w e"
    by (auto simp: allowed_def split: option.splits)
  from inv w(1) have ok: "writer_ok m (set as) w" by (rule at_work_thread)
  moreover from this w(2) obtain x where "nodes m a = Some x"
    using pending_kept by (force simp: writer_ok_def)
  ultimately show thesis using w(2) that [of x] unfolding writer_ok_def by blast
qed

section \<open>Readers\<close>

lemma undisturbed_same:
  assumes "pc_ok m A W u p" "nodes m' = nodes m" "epoch (rlist m') = epoch (rlist m)" "holder m' = holder m"
  shows "undisturbed m A W m' A W u p"
  using assms by (cases p) (auto simp: undisturbed_def writer_ok_def)

lemma at_work_upd:
  "holder m' = holder m \<Longrightarrow> (holder m = Some t \<Longrightarrow> lock_state p = lock_state (ps ! t)) \<Longrightarrow>
   at_work m' (ps[t := p]) = at_work m ps"
  by (cases "holder m"; cases "holder m = Some t") (auto simp: at_work_def)

lemma local_step:
  assumes inv: "rcu_inv m ps as" and t: "t < length ps"
    and p: "lock_state (ps ! t) = None" "lock_state p = None" "owned p = {}"
    and same: "nodes m' = nodes m" "epoch (rlist m') = epoch (rlist m)" "holder m' = holder m"
      "head (rlist m') = head (rlist m)"
    and st: "length (standing (rlist m')) = 2"
      "\<And>e. e < 2 \<Longrightarrow> standing (rlist m') ! e + of_bool (counted e (ps ! t)) =
         standing (rlist m) ! e + of_bool (counted e p)"
    and ok: "pc_ok m' (set as) (at_work m ps) t p"
  shows "rcu_inv m' (ps[t := p]) as"
proof -
  have W: "at_work m' (ps[t := p]) = at_work m ps" using p same by (simp add: at_work_upd)
  show ?thesis
  proof (rule rcu_inv_step [OF inv t _ st(1) st(2) W])
    show "undisturbed m (set as) (at_work m ps) m' (set as) (at_work m ps) u (ps ! u)"
      if "u < length ps" for u
      using that inv same by (auto intro: undisturbed_same rcu_inv_pc)
  qed (use inv p ok same in \<open>auto simp: rcu_inv_def\<close>)
qed

lemma on_list_simps [simp]:
  "rlist (on_list f m) = f (rlist m)" "nodes (on_list f m) = nodes m" "holder (on_list f m) = holder m"
  by (simp_all add: on_list_def)

lemmas list_writes = set_ready_def set_waiters_def set_queue_def wake_up_all_def

lemma search_keeps:
  assumes inv: "rcu_inv m ps as" and t: "t < length ps" and r: "ps ! t = Reading r"
    and st: "search_step t r m = Some (p, m')"
  shows "rcu_inv m' (ps[t := p]) as"
proof -
  have ok: "\<forall>e \<in> my_epoch r. e < 2" "reader_ok m (set as) (at_work m ps) r"
    using rcu_inv_pc [OF inv t r] by simp_all
  have len: "length (standing (rlist m)) = 2" "epoch (rlist m) < 2" using inv by (simp_all add: rcu_inv_def)
  have hd: "set_option (head (rlist m)) \<subseteq> allowed (set as) W e" for W e
    using head_in_list [OF inv] by (auto simp: allowed_def)
  have nx: "set_option (e_next x) \<subseteq> allowed (set as) (at_work m ps) e"
    if "nodes m a = Some x" "a \<in> allowed (set as) (at_work m ps) e" for a x e
    using allowed_nodes [OF inv that(2)] that(1) by (auto simp: allowed_def)
  show ?thesis
    by (rule local_step [OF inv t];
        use st r ok len hd nx in \<open>cases r;
          auto simp: list_writes add_standing_def nth_list_update split: option.splits if_splits\<close>)
qed

section \<open>Writers\<close>

lemma owned_apart:
  assumes "rcu_inv m ps as" "u < length ps"
  shows "owned (ps ! u) \<inter> set as = {}"
proof -
  from assms have "pc_ok m (set as) (at_work m ps) u (ps ! u)" by (simp add: rcu_inv_def)
  then show ?thesis by (cases "ps ! u") (auto simp: writer_ok_def)
qed

lemma owned_disjoint:
  assumes "rcu_inv m ps as" "t < length ps" "ps ! t = Writing w" "u < length ps" "u \<noteq> t"
  shows "kept_nodes w \<inter> owned (ps ! u) = {}"
  using assms unfolding rcu_inv_def by (metis owned_simps(3))

lemma others_unlocked:
  assumes "rcu_inv m ps as" "u < length ps" "holder m \<noteq> Some u"
  shows "lock_state (ps ! u) = None"
proof -
  from assms have "pc_ok m (set as) (at_work m ps) u (ps ! u)" by (simp add: rcu_inv_def)
  with assms(3) show ?thesis unfolding pc_ok_def by blast
qed

text \<open>A step of the thread that has the lock: it changes nodes of the list and its own, and
  no current reader loses the node it is at.\<close>

lemma locked_step:
  assumes inv: "rcu_inv m ps as" and t: "t < length ps" and w: "ps ! t = Writing w" "has_lock w"
    and shape: "epoch (rlist m') < 2" "standing (rlist m') = standing (rlist m)" "\<And>e. \<not> counted e p"
    and W: "at_work m' (ps[t := p]) = W'"
    and ch: "chain (whole W' (nodes m')) (head (rlist m')) as'"
    and ok: "pc_ok m' (set as') W' t p"
    and own: "owned p \<subseteq> kept_nodes w \<union> set as" "set as' \<subseteq> kept_nodes w \<union> set as"
    and upd: "\<And>a. nodes m' a \<noteq> nodes m a \<Longrightarrow> a \<in> kept_nodes w \<union> set as"
      "\<And>a x. nodes m a = Some x \<Longrightarrow> lev (nodes m') a = e_level x"
    and cur: "\<And>e u. e < 2 \<Longrightarrow> u < length ps \<Longrightarrow> counted e (ps ! u) \<Longrightarrow>
      e = epoch (rlist m) \<or> in_grace (Some w) e \<Longrightarrow> e = epoch (rlist m') \<or> in_grace W' e"
      "\<And>e u. e < 2 \<Longrightarrow> u < length ps \<Longrightarrow> counted e (ps ! u) \<Longrightarrow>
      e = epoch (rlist m) \<or> in_grace (Some w) e \<Longrightarrow> set as \<union> pending w e \<subseteq> allowed (set as') W' e"
  shows "rcu_inv m' (ps[t := p]) as'"
proof (rule rcu_inv_step [OF inv t shape(1) _ _ W ch ok])
  note held = at_work_held [OF inv t w]
  fix u assume u: "u < length ps" "u \<noteq> t"
  have apart: "owned (ps ! u) \<inter> (kept_nodes w \<union> set as) = {}"
    using owned_apart [OF inv u(1)] owned_disjoint [OF inv t w(1) u] by blast
  then show "owned p \<inter> owned (ps ! u) = {}" using own(1) by blast
  have "lev (nodes m') a = lev (nodes m) a" if "a \<in> allowed (set as) (at_work m ps) e" for a e
    using allowed_nodes [OF inv that] upd(2) by (metis option.sel)
  moreover have "nodes m' a = nodes m a \<and> a \<notin> set as'" if "a \<in> owned (ps ! u)" for a
    using that apart upd(1) [of a] own(2) by blast
  moreover have "lock_state (ps ! u) = None" using others_unlocked [OF inv u(1)] held u(2) by simp
  ultimately show "undisturbed m (set as) (at_work m ps) m' (set as') W' u (ps ! u)"
    using cur [OF _ u(1)] unfolding undisturbed_def held allowed_def [of _ "Some w"] by auto
qed (use inv w shape in \<open>auto simp: rcu_inv_def\<close>)

text \<open>While the same thread keeps the lock.\<close>

lemma at_work_same:
  "holder m = Some t \<Longrightarrow> holder m' = Some t \<Longrightarrow> t < length ps \<Longrightarrow> at_work m' (ps[t := p]) = lock_state p"
  by (simp add: at_work_def)

lemma whole_None [simp]: "whole None h = h"
  by (simp add: whole_def)

lemma whole_Some [simp]: "whole (Some w) h = completed w h"
  by (simp add: whole_def)

lemma allowed_simps [simp]: "allowed A None e = A" "allowed A (Some w) e = A \<union> pending w e"
  by (simp_all add: allowed_def)

lemma in_grace_simps [simp]: "\<not> in_grace None e" "in_grace (Some w) e \<longleftrightarrow> (\<exists>r. w = Waiting r e)"
  by (simp_all add: in_grace_def)

lemma new_nodes:
  assumes inv: "rcu_inv m ps as" and t: "t < length ps" "ps ! t = Writing (Locked c)"
  shows "chain (nodes m) (head (rlist m)) as" "holder m = Some t"
    "\<And>n. n \<in> new_node c \<Longrightarrow> n \<notin> set as \<and> (\<exists>x. nodes m n = Some x \<and> e_next x = None)"
proof -
  note held = at_work_held [OF inv t]
  show "chain (nodes m) (head (rlist m)) as" using rcu_inv_chain [OF inv] held by simp
  show "holder m = Some t" using held by simp
  show "n \<notin> set as \<and> (\<exists>x. nodes m n = Some x \<and> e_next x = None)" if "n \<in> new_node c" for n
    using rcu_inv_pc [OF inv t] that by (auto simp: writer_ok_def)
qed

lemma link_new_keeps:
  assumes inv: "rcu_inv m ps as" and t: "t < length ps" "ps ! t = Writing (Locked (Link_New n))"
    and st: "link_new n m = Some (p, m')"
  shows "rcu_inv m' (ps[t := p]) (n # as)"
proof -
  note N = new_nodes [OF inv t]
  obtain x where x: "nodes m n = Some x" "n \<notin> set as" using N(3) by auto
  with st have p: "p = Writing (Flipping None)"
    and m': "m' = m\<lparr>nodes := (nodes m)(n \<mapsto> x\<lparr>e_next := head (rlist m)\<rparr>), rlist := (rlist m)\<lparr>head := Some n\<rparr>\<rparr>"
    by (auto simp: link_new_def)
  show ?thesis
    by (rule locked_step [OF inv t, where W' = "Some (Flipping None)"])
      (use inv N x t(1) in \<open>auto simp: p m' rcu_inv_def at_work_same writer_ok_def split: if_splits\<close>)
qed

lemma pred_of_first:
  "pred_of P (a # as) = Some p \<Longrightarrow> \<not> P a \<Longrightarrow>
   \<exists>xs r ys. a # as = xs @ p # r # ys \<and> P r \<and> (\<forall>x \<in> set (xs @ [p]). \<not> P x)"
proof (induction as arbitrary: a)
  case (Cons b bs)
  show ?case
  proof (cases "P b")
    case True
    with Cons.prems show ?thesis by (intro exI [of _ "[]"] exI [of _ b] exI [of _ bs]) auto
  next
    case False
    have "pred_of P (b # bs) = Some p" using Cons.prems(1) False by simp
    from Cons.IH [OF this False] obtain xs r ys where
      "b # bs = xs @ p # r # ys" "P r" "\<forall>x \<in> set (xs @ [p]). \<not> P x" by blast
    with Cons.prems(2) show ?thesis
      by (intro exI [of _ "a # xs"] exI [of _ r] exI [of _ ys]) auto
  qed
qed simp

lemma pred_of_nowhere: "pred_of P (a # as) = None \<Longrightarrow> \<not> P a \<Longrightarrow> \<forall>x \<in> set (a # as). \<not> P x"
  by (induction as arbitrary: a) (auto split: if_splits)

lemma find_pred_first:
  assumes ch: "chain h (Some a) as" and a: "lev h a \<noteq> key" and f: "find_pred h key (Some a) = Some (Inr (Some q))"
  obtains xs r ys pe y where "as = xs @ q # r # ys" "h q = Some pe" "e_next pe = Some r" "h r = Some y"
    "e_level y = key" "\<forall>x \<in> set (xs @ [q]). lev h x \<noteq> key"
proof -
  from ch obtain bs where as: "as = a # bs" by (cases as) auto
  from f find_pred_chain [OF ch, of key] have "pred_of (\<lambda>a. lev h a = key) (a # bs) = Some q" by (simp add: as)
  from pred_of_first [OF this a] obtain xs r ys where
    s: "as = xs @ q # r # ys" "lev h r = key" "\<forall>x \<in> set (xs @ [q]). lev h x \<noteq> key" using as by metis
  from ch s(1) obtain pe y where "h q = Some pe" "e_next pe = Some r" "h r = Some y" by auto
  with s show thesis by (intro that [of xs r ys pe y]) simp_all
qed

lemma find_pred_nowhere:
  assumes ch: "chain h (Some a) as" and a: "lev h a \<noteq> key" and f: "find_pred h key (Some a) = Some (Inr None)"
  shows "\<forall>x \<in> set as. lev h x \<noteq> key"
proof -
  from ch obtain bs where as: "as = a # bs" by (cases as) auto
  from f find_pred_chain [OF ch, of key] have "pred_of (\<lambda>a. lev h a = key) (a # bs) = None" by (simp add: as)
  from pred_of_nowhere [OF this a] show ?thesis by (simp add: as)
qed

text \<open>A node taken out of the list, or replaced by another, leaves the rest as it was.\<close>

lemma unlink_chain:
  assumes ch: "chain h p (xs @ q # r # ys)" and q: "h q = Some pe" and r: "h r = Some y"
  shows "chain (h(q \<mapsto> pe\<lparr>e_next := e_next y\<rparr>)) p (xs @ q # ys)"
  using ch chain_distinct [OF ch] q r by auto

lemma replace_chain:
  assumes ch: "chain h p (xs @ q # r # ys)" and q: "h q = Some pe" and r: "h r = Some y"
    and n: "n \<notin> set (xs @ q # r # ys)"
  shows "chain (h(q \<mapsto> pe\<lparr>e_next := Some n\<rparr>, n \<mapsto> x\<lparr>e_next := e_next y\<rparr>)) p (xs @ q # n # ys)"
  using ch chain_distinct [OF ch] q r n by auto

text \<open>The outcomes of lines 174 to 197: nothing is found, the first node is replaced, or a later
  one.\<close>

lemma put_in_place_cases:
  assumes ch: "chain (nodes m) (head (rlist m)) as" and n: "nodes m n = Some x"
    and st: "put_in_place key n m = Some (p, m')"
  obtains
    (absent) "p = Idle" "m' = m" "\<forall>y \<in> set as. lev (nodes m) y \<noteq> key"
  | (first) a bs y where "as = a # bs" "head (rlist m) = Some a" "nodes m a = Some y" "e_level y = key"
      "p = Writing (Flipping (Some a))"
      "m' = m\<lparr>nodes := (nodes m)(n \<mapsto> x\<lparr>e_next := e_next y\<rparr>), rlist := (rlist m)\<lparr>head := Some n\<rparr>\<rparr>"
  | (inside) xs q r ys pe z where "as = xs @ q # r # ys" "nodes m q = Some pe" "e_next pe = Some r"
      "nodes m r = Some z" "e_level z = key" "\<forall>y \<in> set (xs @ [q]). lev (nodes m) y \<noteq> key"
      "p = Writing (Linking n r)" "m' = m\<lparr>nodes := (nodes m)(q \<mapsto> pe\<lparr>e_next := Some n\<rparr>)\<rparr>"
proof (cases "head (rlist m)")
  case None
  with ch st show thesis by (intro absent) (simp_all add: put_in_place_def)
next
  case (Some a)
  with ch have c: "chain (nodes m) (Some a) as" by simp
  from c obtain bs where bs: "as = a # bs" by (cases as) simp_all
  with c obtain y where "nodes m a = Some y" by auto
  note a = this bs
  show thesis
  proof (cases "e_level y = key")
    case True
    with st a n Some show thesis by (intro first [of a bs y]) (auto simp: put_in_place_def)
  next
    case False
    with st Some a obtain q where f: "find_pred (nodes m) key (Some a) = Some (Inr q)"
      by (auto simp: put_in_place_def split: option.splits sum.splits)
    have la: "lev (nodes m) a \<noteq> key" using False a by simp
    show thesis
    proof (cases q)
      case None
      with st Some a False f find_pred_nowhere [OF c la] show thesis
        by (intro absent) (simp_all add: put_in_place_def)
    next
      case q: (Some q')
      from find_pred_first [OF c la f [unfolded q]] obtain xs r ys pe z where
        s: "as = xs @ q' # r # ys" "nodes m q' = Some pe" "e_next pe = Some r" "nodes m r = Some z"
          "e_level z = key" "\<forall>x \<in> set (xs @ [q']). lev (nodes m) x \<noteq> key" by metis
      from st Some a(1) False f q s(2,3) show thesis
        by (intro inside [OF s]) (simp_all add: put_in_place_def Let_def)
    qed
  qed
qed

lemma put_in_place_keeps:
  assumes inv: "rcu_inv m ps as" and t: "t < length ps" "ps ! t = Writing (Locked (Put_In_Place key n))"
    and st: "put_in_place key n m = Some (p, m')"
  shows "\<exists>as'. rcu_inv m' (ps[t := p]) as'"
proof -
  note N = new_nodes [OF inv t]
  obtain x where n: "nodes m n = Some x" "e_next x = None" "n \<notin> set as" using N(3) by auto
  have sh: "epoch (rlist m) < 2" using inv by (simp add: rcu_inv_def)
  have d: "distinct as" using N(1) by (rule chain_distinct)
  from N(1) n(1) st show ?thesis
  proof (cases rule: put_in_place_cases)
    case absent
    have "rcu_inv m' (ps[t := p]) as"
      by (rule locked_step [OF inv t, where W' = None])
        (use N sh t(1) in \<open>auto simp: absent at_work_same\<close>)
    then show ?thesis by blast
  next
    case 2: (first a bs y)
    have nx: "set_option (e_next y) \<subseteq> set bs" using N(1) 2 by (cases bs) auto
    have "rcu_inv m' (ps[t := p]) (n # bs)"
      by (rule locked_step [OF inv t, where W' = "Some (Flipping (Some a))"])
        (use N sh t(1) n 2(1-4) d nx in \<open>auto simp: 2(5,6) at_work_same writer_ok_def split: if_splits\<close>)
    then show ?thesis by blast
  next
    case 3: (inside xs q r ys pe z)
    have ch: "chain ((nodes m)(q \<mapsto> pe\<lparr>e_next := Some n\<rparr>, n \<mapsto> x\<lparr>e_next := e_next z\<rparr>))
        (head (rlist m)) (xs @ q # n # ys)"
      by (rule replace_chain) (use N(1) 3 n in auto)
    have nx: "set_option (e_next z) \<subseteq> set ys" using N(1) 3 by (cases ys) auto
    have "rcu_inv m' (ps[t := p]) (xs @ q # n # ys)"
      by (rule locked_step [OF inv t, where W' = "Some (Linking n r)"])
        (use N sh t(1) n 3(2-4) d ch nx in
          \<open>auto simp: 3(1,7,8) at_work_same writer_ok_def split: if_splits\<close>)
    then show ?thesis by blast
  qed
qed

lemma link_replaced_keeps:
  assumes inv: "rcu_inv m ps as" and t: "t < length ps" "ps ! t = Writing (Linking n r)"
    and st: "link_replaced n r m = Some (p, m')"
  shows "rcu_inv m' (ps[t := p]) as"
proof -
  note held = at_work_held [OF inv t]
  have ok: "writer_ok m (set as) (Linking n r)" using rcu_inv_pc [OF inv t] by simp
  then obtain x y where n: "nodes m n = Some x" "n \<in> set as" and r: "nodes m r = Some y" "r \<notin> set as"
    by (auto simp: writer_ok_def)
  with st have p: "p = Writing (Flipping (Some r))"
    and m': "m' = m\<lparr>nodes := (nodes m)(n \<mapsto> x\<lparr>e_next := e_next y\<rparr>)\<rparr>"
    by (auto simp: link_replaced_def)
  have ch: "chain ((nodes m)(n \<mapsto> x\<lparr>e_next := e_next y\<rparr>)) (head (rlist m)) as"
    using inv held n r by (simp add: rcu_inv_def)
  show ?thesis
    by (rule locked_step [OF inv t, where W' = "Some (Flipping (Some r))"])
      (use inv held t(1) n r ch ok in
        \<open>auto simp: p m' rcu_inv_def at_work_same writer_ok_def split: if_splits\<close>)
qed

lemma take_out_cases:
  assumes ch: "chain (nodes m) (head (rlist m)) as" and st: "take_out key m = Some (p, m')"
  obtains
    (absent) "p = Writing (Draining None)" "m' = m" "\<forall>y \<in> set as. lev (nodes m) y \<noteq> key"
  | (first) a bs y where "as = a # bs" "head (rlist m) = Some a" "nodes m a = Some y" "e_level y = key"
      "p = Writing (Draining (Some a))" "m' = m\<lparr>rlist := (rlist m)\<lparr>head := e_next y\<rparr>\<rparr>"
  | (inside) xs q r ys pe z where "as = xs @ q # r # ys" "nodes m q = Some pe" "e_next pe = Some r"
      "nodes m r = Some z" "e_level z = key" "\<forall>y \<in> set (xs @ [q]). lev (nodes m) y \<noteq> key"
      "p = Writing (Draining (Some r))" "m' = m\<lparr>nodes := (nodes m)(q \<mapsto> pe\<lparr>e_next := e_next z\<rparr>)\<rparr>"
proof (cases "head (rlist m)")
  case None
  with ch st show thesis by (intro absent) (simp_all add: take_out_def)
next
  case (Some a)
  with ch have c: "chain (nodes m) (Some a) as" by simp
  from c obtain bs where bs: "as = a # bs" by (cases as) simp_all
  with c obtain y where "nodes m a = Some y" by auto
  note a = this bs
  show thesis
  proof (cases "e_level y = key")
    case True
    with st a Some show thesis by (intro first [of a bs y]) (auto simp: take_out_def)
  next
    case False
    with st Some a obtain q where f: "find_pred (nodes m) key (Some a) = Some (Inr q)"
      by (auto simp: take_out_def split: option.splits sum.splits)
    have la: "lev (nodes m) a \<noteq> key" using False a by simp
    show thesis
    proof (cases q)
      case None
      with st Some a False f find_pred_nowhere [OF c la] show thesis
        by (intro absent) (simp_all add: take_out_def)
    next
      case q: (Some q')
      from find_pred_first [OF c la f [unfolded q]] obtain xs r ys pe z where
        s: "as = xs @ q' # r # ys" "nodes m q' = Some pe" "e_next pe = Some r" "nodes m r = Some z"
          "e_level z = key" "\<forall>x \<in> set (xs @ [q']). lev (nodes m) x \<noteq> key" by metis
      from st Some a(1) False f q s(2-4) show thesis
        by (intro inside [OF s]) (simp_all add: take_out_def Let_def)
    qed
  qed
qed

lemma take_out_keeps:
  assumes inv: "rcu_inv m ps as" and t: "t < length ps" "ps ! t = Writing (Locked (Take_Out key))"
    and st: "take_out key m = Some (p, m')"
  shows "\<exists>as'. rcu_inv m' (ps[t := p]) as'"
proof -
  note N = new_nodes [OF inv t]
  have sh: "epoch (rlist m) < 2" using inv by (simp add: rcu_inv_def)
  have d: "distinct as" using N(1) by (rule chain_distinct)
  from N(1) st show ?thesis
  proof (cases rule: take_out_cases)
    case absent
    have "rcu_inv m' (ps[t := p]) as"
      by (rule locked_step [OF inv t, where W' = "Some (Draining None)"])
        (use N sh t(1) in \<open>auto simp: absent at_work_same writer_ok_def\<close>)
    then show ?thesis by blast
  next
    case 2: (first a bs y)
    have nx: "set_option (e_next y) \<subseteq> set bs" using N(1) 2 by (cases bs) auto
    have "rcu_inv m' (ps[t := p]) bs"
      by (rule locked_step [OF inv t, where W' = "Some (Draining (Some a))"])
        (use N sh t(1) 2(1-4) d nx in \<open>auto simp: 2(5,6) at_work_same writer_ok_def\<close>)
    then show ?thesis by blast
  next
    case 3: (inside xs q r ys pe z)
    have ch: "chain ((nodes m)(q \<mapsto> pe\<lparr>e_next := e_next z\<rparr>)) (head (rlist m)) (xs @ q # ys)"
      by (rule unlink_chain) (use N(1) 3 in auto)
    have nx: "set_option (e_next z) \<subseteq> set ys" using N(1) 3 by (cases ys) auto
    have "rcu_inv m' (ps[t := p]) (xs @ q # ys)"
      by (rule locked_step [OF inv t, where W' = "Some (Draining (Some r))"])
        (use N sh t(1) 3(2-4) d ch nx in
          \<open>auto simp: 3(1,7,8) at_work_same writer_ok_def split: if_splits\<close>)
    then show ?thesis by blast
  qed
qed

lemma counted_standing:
  assumes inv: "rcu_inv m ps as" and e: "e < 2" "\<not> standing (rlist m) ! e > 0" and u: "u < length ps"
  shows "\<not> counted e (ps ! u)"
proof -
  have "length (filter (counted e) ps) = 0" using inv e by (simp add: rcu_inv_def)
  then show ?thesis using u by (simp add: filter_empty_conv)
qed

lemma lock_keeps:
  assumes inv: "rcu_inv m ps as" and t: "t < length ps" "ps ! t = Writing (Locking c)"
    and free: "holder m = None"
  shows "rcu_inv (m\<lparr>holder := Some t\<rparr>) (ps[t := Writing (Locked c)]) as"
proof -
  have no: "lock_state (ps ! u) = None" if "u < length ps" for u
    using others_unlocked [OF inv that] free by simp
  have W: "at_work m ps = None" using free by (simp add: at_work_def)
  show ?thesis
  proof (rule rcu_inv_step [OF inv t(1), where W' = "Some (Locked c)"])
    fix u assume u: "u < length ps" "u \<noteq> t"
    from owned_disjoint [OF inv t u] show "owned (Writing (Locked c)) \<inter> owned (ps ! u) = {}" by simp
    show "undisturbed m (set as) (at_work m ps) (m\<lparr>holder := Some t\<rparr>) (set as) (Some (Locked c)) u (ps ! u)"
      using no [OF u(1)] owned_apart [OF inv u(1)] by (auto simp: undisturbed_def W)
  qed (use inv W rcu_inv_pc [OF inv t] t in \<open>auto simp: rcu_inv_def at_work_def writer_ok_def\<close>)
qed

text \<open>A node that is neither in the list nor about to be linked may come and go.\<close>

definition unused :: "rcu_mem \<Rightarrow> pc list \<Rightarrow> addr list \<Rightarrow> addr \<Rightarrow> bool" where
  "unused m ps as a \<longleftrightarrow> a \<notin> set as \<and> (\<forall>n r. at_work m ps = Some (Linking n r) \<longrightarrow> a \<noteq> n \<and> a \<noteq> r)"

lemma whole_unused:
  "unused m ps as a \<Longrightarrow> b \<noteq> a \<Longrightarrow> whole (at_work m ps) (h(a := x)) b = whole (at_work m ps) h b"
  by (cases "at_work m ps"; cases "the (at_work m ps)") (auto simp: unused_def)

lemma chain_unused:
  assumes "rcu_inv m ps as" "unused m ps as a"
  shows "chain (whole (at_work m ps) ((nodes m)(a := x))) (head (rlist m)) as"
proof -
  have "seg (whole (at_work m ps) ((nodes m)(a := x))) (head (rlist m)) as None =
      seg (whole (at_work m ps) (nodes m)) (head (rlist m)) as None"
    using whole_unused [OF assms(2)] assms(2) by (intro seg_cong) (metis unused_def)
  with assms(1) show ?thesis by (simp add: rcu_inv_def)
qed

lemma freed_unused:
  assumes inv: "rcu_inv m ps as" and t: "t < length ps" "ps ! t = Writing (Freeing (Some a))"
  shows "unused m ps as a"
proof -
  have a: "a \<notin> set as" using rcu_inv_pc [OF inv t] by (simp add: writer_ok_def)
  have "a \<noteq> n \<and> a \<noteq> r" if W: "at_work m ps = Some (Linking n r)" for n r
  proof -
    from inv W obtain u where u: "u < length ps" "ps ! u = Writing (Linking n r)"
      "writer_ok m (set as) (Linking n r)" by (rule at_work_thread)
    then have "u \<noteq> t" using t by auto
    with owned_disjoint [OF inv t u(1)] u(2,3) a show ?thesis by (auto simp: writer_ok_def)
  qed
  with a show ?thesis by (simp add: unused_def)
qed

lemma fresh_unused:
  assumes inv: "rcu_inv m ps as" and a: "nodes m a = None"
  shows "unused m ps as a"
proof -
  have "a \<noteq> n \<and> a \<noteq> r" if W: "at_work m ps = Some (Linking n r)" for n r
  proof -
    from inv W have "writer_ok m (set as) (Linking n r)" by (rule at_work_thread)
    with a show ?thesis by (auto simp: writer_ok_def)
  qed
  with a inv show ?thesis by (auto simp: unused_def elim: list_nodes)
qed

lemma free_keeps:
  assumes inv: "rcu_inv m ps as" and t: "t < length ps" "ps ! t = Writing (Freeing (Some a))"
  shows "rcu_inv (m\<lparr>nodes := (nodes m)(a := None)\<rparr>) (ps[t := Idle]) as"
proof -
  let ?m = "m\<lparr>nodes := (nodes m)(a := None)\<rparr>" and ?W = "at_work m ps"
  note un = freed_unused [OF inv t]
  have a: "a \<notin> set as" using un by (simp add: unused_def)
  have apart: "a \<notin> owned (ps ! u)" if "u < length ps" "u \<noteq> t" for u
    using owned_disjoint [OF inv t that] by simp
  have pend: "a \<notin> pending w e" if W: "?W = Some w" for w e
  proof -
    from inv W obtain u where u: "u < length ps" "ps ! u = Writing w" by (rule at_work_thread)
    show ?thesis
    proof (cases "u = t")
      case True
      with u(2) t(2) have "w = Freeing (Some a)" by simp
      then show ?thesis by simp
    next
      case False
      with apart [OF u(1)] u(2) show ?thesis using pending_kept [of w e] by auto
    qed
  qed
  have W: "at_work ?m (ps[t := Idle]) = ?W" using t by (intro at_work_upd) auto
  have ch: "chain (whole ?W (nodes ?m)) (head (rlist ?m)) as" using chain_unused [OF inv un] by simp
  show ?thesis
  proof (rule rcu_inv_step [OF inv t(1) _ _ _ W ch])
    fix u assume u: "u < length ps" "u \<noteq> t"
    have "a \<notin> allowed (set as) ?W e" for e using a pend by (auto simp: allowed_def split: option.splits)
    then show "undisturbed m (set as) ?W ?m (set as) ?W u (ps ! u)"
      using apart [OF u] owned_apart [OF inv u(1)] a by (auto simp: undisturbed_def)
  qed (use inv t in \<open>auto simp: rcu_inv_def\<close>)
qed

lemma writer_keeps:
  assumes inv: "rcu_inv m ps as" and t: "t < length ps" "ps ! t = Writing w"
    and st: "writer_step t w m = Some (p, m')"
  shows "\<exists>as'. rcu_inv m' (ps[t := p]) as'"
proof -
  have sh: "epoch (rlist m) < 2" using inv by (simp add: rcu_inv_def)
  have ok: "writer_ok m (set as) w" using rcu_inv_pc [OF inv t] by simp
  have ch: "chain (nodes m) (head (rlist m)) as" if "has_lock w" "\<And>n r. w \<noteq> Linking n r"
    using rcu_inv_chain [OF inv] at_work_held [OF inv t that(1)] that(2) by simp
  show ?thesis
  proof (cases w)
    case (Locking c)
    with st lock_keeps [OF inv t(1)] t(2) show ?thesis by (auto split: if_splits)
  next
    case (Locked c)
    with st t link_new_keeps [OF inv t(1)] put_in_place_keeps [OF inv t(1)] take_out_keeps [OF inv t(1)]
    show ?thesis by (cases c) auto
  next
    case (Linking n r)
    with st t link_replaced_keeps [OF inv t(1)] show ?thesis by auto
  next
    case (Draining r)
    have "rcu_inv m' (ps[t := p]) as"
      by (rule locked_step [OF inv t, where W' = "Some (Flipping r)"])
        (use Draining st sh ok ch t(1) at_work_held [OF inv t] in
          \<open>auto simp: at_work_same writer_ok_def split: if_splits\<close>)
    then show ?thesis by blast
  next
    case (Flipping r)
    have "rcu_inv m' (ps[t := p]) as"
      by (rule locked_step [OF inv t, where W' = "Some (Waiting r (epoch (rlist m)))"])
        (use Flipping st sh ok ch t(1) at_work_held [OF inv t] in
          \<open>auto simp: at_work_same writer_ok_def\<close>)
    then show ?thesis by blast
  next
    case (Waiting r g)
    have "rcu_inv m' (ps[t := p]) as"
      by (rule locked_step [OF inv t, where W' = "Some (Unlocking r)"])
        (use Waiting st sh ok ch t(1) at_work_held [OF inv t] counted_standing [OF inv] in
          \<open>auto simp: at_work_same writer_ok_def split: if_splits\<close>)
    then show ?thesis by blast
  next
    case (Unlocking r)
    have "rcu_inv m' (ps[t := p]) as"
      by (rule locked_step [OF inv t, where W' = None])
        (use Unlocking st sh ok ch t(1) in \<open>auto simp: at_work_def writer_ok_def\<close>)
    then show ?thesis by blast
  next
    case (Freeing r)
    show ?thesis
    proof (cases r)
      case None
      with Freeing st have "p = Idle" "m' = m" by auto
      moreover have "rcu_inv m (ps[t := Idle]) as"
        by (rule local_step [OF inv t(1)]) (use inv t Freeing in \<open>auto simp: rcu_inv_def\<close>)
      ultimately show ?thesis by blast
    next
      case (Some a)
      with Freeing st t free_keeps [OF inv t(1)] show ?thesis by (auto split: option.splits)
    qed
  qed
qed

section \<open>Calls\<close>

lemma begin_keeps:
  assumes inv: "rcu_inv m ps as" and t: "t < length ps" "ps ! t = Idle"
    and p: "p = Idle \<or> p = Reading (Entering key) \<or> p = Writing (Locking (Take_Out key))"
    and l: "\<And>l. head (f l) = head l \<and> epoch (f l) = epoch l \<and> standing (f l) = standing l"
  shows "rcu_inv (on_list f m) (ps[t := p]) as"
  by (rule local_step [OF inv t(1)]) (use inv t p l in \<open>auto simp: rcu_inv_def writer_ok_def\<close>)

lemma with_node_keeps:
  assumes inv: "rcu_inv m ps as" and t: "t < length ps" "ps ! t = Idle"
    and a: "nodes m a = None" and c: "new_node c = {a}" and x: "e_next x = None"
  shows "rcu_inv (m\<lparr>nodes := (nodes m)(a \<mapsto> x)\<rparr>) (ps[t := Writing (Locking c)]) as"
proof -
  let ?m = "m\<lparr>nodes := (nodes m)(a \<mapsto> x)\<rparr>" and ?W = "at_work m ps"
  have al: "\<exists>y. nodes m b = Some y" if "b \<in> allowed (set as) ?W e" for b e
    using allowed_nodes [OF inv that] by blast
  note un = fresh_unused [OF inv a]
  have notin: "a \<notin> set as" using un by (simp add: unused_def)
  have own: "a \<notin> owned (ps ! u)" if "u < length ps" for u
  proof -
    have "pc_ok m (set as) ?W u (ps ! u)" using inv that by (simp add: rcu_inv_def)
    with a show ?thesis by (cases "ps ! u") (auto simp: writer_ok_def)
  qed
  have W: "at_work ?m (ps[t := Writing (Locking c)]) = ?W" using t by (intro at_work_upd) auto
  have ch: "chain (whole ?W (nodes ?m)) (head (rlist ?m)) as" using chain_unused [OF inv un] by simp
  show ?thesis
  proof (rule rcu_inv_step [OF inv t(1) _ _ _ W ch])
    fix u assume u: "u < length ps" "u \<noteq> t"
    show "owned (Writing (Locking c)) \<inter> owned (ps ! u) = {}" using own [OF u(1)] c by auto
    show "undisturbed m (set as) ?W ?m (set as) ?W u (ps ! u)"
      using own [OF u(1)] notin owned_apart [OF inv u(1)] al a by (fastforce simp: undisturbed_def)
  qed (use inv t c x notin in \<open>auto simp: rcu_inv_def writer_ok_def\<close>)
qed

section \<open>Every event\<close>

definition rcu_sound :: "rcu_sys \<Rightarrow> bool" where
  "rcu_sound s \<longleftrightarrow> (\<exists>as. rcu_inv (shared s) (pcs s) as)"

lemma put_thread_eq:
  "put_thread t s out = Some s' \<longleftrightarrow> (\<exists>p m. out = Some (p, m) \<and> s' = \<lparr>shared = m, pcs = (pcs s)[t := p]\<rparr>)"
  by (auto simp: put_thread_def)

lemma begin_call_eq:
  "begin_call t s p m = Some s' \<longleftrightarrow>
     t < length (pcs s) \<and> pcs s ! t = Idle \<and> s' = \<lparr>shared = m, pcs = (pcs s)[t := p]\<rparr>"
  by (auto simp: begin_call_def put_thread_def)

lemma with_node_eq:
  "with_node t s a x c = Some s' \<longleftrightarrow>
     nodes (shared s) a = None \<and> t < length (pcs s) \<and> pcs s ! t = Idle \<and>
     s' = \<lparr>shared = (shared s)\<lparr>nodes := (nodes (shared s))(a \<mapsto> x)\<rparr>,
           pcs = (pcs s)[t := Writing (Locking c)]\<rparr>"
  by (auto simp: with_node_def begin_call_eq)

lemmas event_eqs = put_thread_eq begin_call_eq with_node_eq

lemma on_list_id: "on_list (\<lambda>l. l) m = m"
  by (simp add: on_list_def)

lemma event_keeps:
  assumes inv: "rcu_inv (shared s) (pcs s) as" and ok: "no_signal ev" and st: "run_event ev s = Some s'"
  shows "rcu_sound s'"
proof (cases ev)
  case (Move t)
  with st search_keeps [OF inv, of t] writer_keeps [OF inv, of t] show ?thesis
    by (fastforce simp: event_eqs rcu_sound_def split: pc.splits if_splits)
next
  case (Search t key)
  with st begin_keeps [OF inv, of t "Reading (Entering key)" key "\<lambda>l. l"] show ?thesis
    by (auto simp: event_eqs rcu_sound_def on_list_id split: if_splits)
next
  case (Insert t a key msg sz)
  with st with_node_keeps [OF inv, of t a "Link_New a" "new_element key msg sz"] show ?thesis
    by (auto simp: event_eqs rcu_sound_def)
next
  case (Replace t a key msg sz)
  with st with_node_keeps [OF inv, of t a "Put_In_Place key a" "new_element key msg sz"] show ?thesis
    by (auto simp: event_eqs rcu_sound_def)
next
  case (Remove t key)
  with st begin_keeps [OF inv, of t "Writing (Locking (Take_Out key))" key "\<lambda>l. l"] show ?thesis
    by (auto simp: event_eqs rcu_sound_def on_list_id)
next
  case (Raise t j)
  with st begin_keeps [OF inv, of t Idle _ "set_ready j 1"] show ?thesis
    by (auto simp: event_eqs rcu_sound_def list_writes)
next
  case (Wake t j)
  with st begin_keeps [OF inv, of t Idle _ "wake_up_all j"] show ?thesis
    by (auto simp: event_eqs rcu_sound_def list_writes)
next
  case (Signal t)
  with ok show ?thesis by (simp add: no_signal_def)
qed

lemma rcu_sound_boot: "rcu_booted s \<Longrightarrow> rcu_sound s"
proof -
  assume "rcu_booted s"
  then obtain n where "s = rcu_boot n" by (auto simp: rcu_booted_def)
  then have "rcu_inv (shared s) (pcs s) []"
    by (auto simp: rcu_inv_def rcu_boot_def rcu_list_init_def at_work_def nth_Cons less_2_cases_iff
        intro: filter_False)
  then show ?thesis by (auto simp: rcu_sound_def)
qed

interpretation rcu_run: machine_invariant rcu_booted "rcu_step no_signal" rcu_sound
proof
  show "rcu_sound s" if "rcu_booted s" for s
    using that by (rule rcu_sound_boot)
  show "rcu_sound s'" if "rcu_sound s" "rcu_step no_signal s s'" for s s'
    using that event_keeps by (auto simp: rcu_sound_def elim: rcu_stepE)
qed

lemma reach_rcu_inv:
  assumes "rcu_reach no_signal s"
  obtains as where "rcu_inv (shared s) (pcs s) as"
  using rcu_run.reach_inv [OF assms] by (auto simp: rcu_sound_def)

end
