(* ===== verification/RcuAtomic.thy ===== *)
theory RcuAtomic
  imports RcuSafe
begin

text \<open>
  The list as its users see it: the messages kept for the levels, in order.  However the
  steps of the threads interleave, each writer decides its change at one step; what the
  stores hold, and so what a search meets, follows at that step too, but for a replacement
  further on in the list, which takes effect in two stores.
\<close>

section \<open>The abstract list\<close>

text \<open>\<open>s\<close> keeps the messages \<open>cs\<close>; between lines 188 and 189 the link about to be written counts.\<close>

definition keeps :: "rcu_sys \<Rightarrow> (c_int \<times> byte list \<times> size_t) list \<Rightarrow> bool" where
  "keeps s cs \<longleftrightarrow> (\<exists>as.
     chain (whole (at_work (shared s) (pcs s)) (nodes (shared s))) (head (rlist (shared s))) as \<and>
     cs = entries (whole (at_work (shared s) (pcs s)) (nodes (shared s))) as)"

fun replace_first :: "'k \<Rightarrow> 'k \<times> 'v \<Rightarrow> ('k \<times> 'v) list \<Rightarrow> ('k \<times> 'v) list" where
  "replace_first k x [] = []"
| "replace_first k x (y # ys) = (if fst y = k then x # ys else y # replace_first k x ys)"

fun remove_first :: "'k \<Rightarrow> ('k \<times> 'v) list \<Rightarrow> ('k \<times> 'v) list" where
  "remove_first k [] = []"
| "remove_first k (y # ys) = (if fst y = k then ys else y # remove_first k ys)"

definition changed ::
  "el_store \<Rightarrow> change \<Rightarrow> (c_int \<times> byte list \<times> size_t) list \<Rightarrow> (c_int \<times> byte list \<times> size_t) list" where
  "changed h c cs = (case c of
     Link_New n \<Rightarrow> entry h n # cs
   | Put_In_Place key n \<Rightarrow> replace_first key (entry h n) cs
   | Take_Out key \<Rightarrow> remove_first key cs)"

lemma first_split:
  assumes "\<forall>y \<in> set xs. fst y \<noteq> k" "fst z = k"
  shows "replace_first k x (xs @ z # ys) = xs @ x # ys" "remove_first k (xs @ z # ys) = xs @ ys"
  using assms by (induction xs) auto

lemma first_absent:
  assumes "\<forall>y \<in> set xs. fst y \<noteq> k"
  shows "replace_first k x xs = xs" "remove_first k xs = xs"
  using assms by (induction xs) auto

section \<open>Steps that keep the list\<close>

lemma keeps_same:
  assumes inv: "rcu_inv (shared s) (pcs s) as" and k: "keeps s cs"
    and hd: "head (rlist (shared s')) = head (rlist (shared s))"
    and wh: "\<And>a. a \<in> set as \<Longrightarrow> whole (at_work (shared s') (pcs s')) (nodes (shared s')) a =
      whole (at_work (shared s) (pcs s)) (nodes (shared s)) a"
  shows "keeps s' cs"
proof -
  let ?h = "whole (at_work (shared s) (pcs s)) (nodes (shared s))"
  let ?h' = "whole (at_work (shared s') (pcs s')) (nodes (shared s'))"
  have ch: "chain ?h (head (rlist (shared s))) as" using inv by (simp add: rcu_inv_def)
  with k have "cs = entries ?h as" using chain_unique unfolding keeps_def by metis
  moreover have "chain ?h' (head (rlist (shared s'))) as"
    using ch seg_cong [of as ?h' ?h] wh hd by simp
  moreover have "entries ?h' as = entries ?h as" using wh by (rule entries_cong)
  ultimately show ?thesis by (auto simp: keeps_def)
qed

lemma keeps_local:
  assumes inv: "rcu_inv (shared s) (pcs s) as" and k: "keeps s cs"
    and p: "lock_state (pcs s ! t) = lock_state p"
    and same: "nodes m' = nodes (shared s)" "holder m' = holder (shared s)" "head (rlist m') = head (rlist (shared s))"
  shows "keeps \<lparr>shared = m', pcs = (pcs s)[t := p]\<rparr> cs"
proof -
  have "at_work m' ((pcs s)[t := p]) = at_work (shared s) (pcs s)"
    using p same(2) by (intro at_work_upd) simp_all
  then show ?thesis by (intro keeps_same [OF inv k]) (simp_all add: same)
qed

lemma keeps_unused:
  assumes inv: "rcu_inv (shared s) (pcs s) as" and k: "keeps s cs" and un: "unused (shared s) (pcs s) as a"
    and W: "at_work m' ps' = at_work (shared s) (pcs s)"
    and m': "m' = (shared s)\<lparr>nodes := (nodes (shared s))(a := x)\<rparr>"
  shows "keeps \<lparr>shared = m', pcs = ps'\<rparr> cs"
proof (rule keeps_same [OF inv k])
  fix b assume "b \<in> set as"
  with un have "b \<noteq> a" by (auto simp: unused_def)
  then show "whole (at_work (shared \<lparr>shared = m', pcs = ps'\<rparr>) (pcs \<lparr>shared = m', pcs = ps'\<rparr>))
      (nodes (shared \<lparr>shared = m', pcs = ps'\<rparr>)) b = whole (at_work (shared s) (pcs s)) (nodes (shared s)) b"
    using whole_unused [OF un, of b "nodes (shared s)" x] W by (simp add: m')
qed (simp add: m')

lemma search_shared:
  assumes "search_step t r m = Some (p, m')"
  shows "nodes m' = nodes m" "holder m' = holder m" "head (rlist m') = head (rlist m)" "lock_state p = None"
  using assms by (cases r; auto simp: list_writes add_standing_def split: option.splits if_splits)+

lemma writer_keeps_list:
  assumes inv: "rcu_inv (shared s) (pcs s) as" and k: "keeps s cs"
    and t: "t < length (pcs s)" "pcs s ! t = Writing w" and w: "\<And>c. w \<noteq> Locked c"
    and st: "writer_step t w (shared s) = Some (p, m')"
  shows "keeps \<lparr>shared = m', pcs = (pcs s)[t := p]\<rparr> cs"
proof -
  note held = at_work_held [OF inv t]
  have lw: "at_work m' ((pcs s)[t := p]) = lock_state p" if "holder m' = Some t"
    using that t(1) by (simp add: at_work_def)
  show ?thesis
  proof (cases w)
    case (Locking c)
    with st have p: "p = Writing (Locked c)" "m' = (shared s)\<lparr>holder := Some t\<rparr>" "holder (shared s) = None"
      by (auto split: if_splits)
    then have "at_work (shared s) (pcs s) = None" "at_work m' ((pcs s)[t := p]) = Some (Locked c)"
      using lw by (simp_all add: at_work_def)
    then show ?thesis by (intro keeps_same [OF inv k]) (simp_all add: p(2))
  next
    case (Linking n r)
    with held have W: "at_work (shared s) (pcs s) = Some (Linking n r)" "holder (shared s) = Some t" by simp_all
    from Linking st obtain x y where x: "nodes (shared s) n = Some x" "nodes (shared s) r = Some y"
      "p = Writing (Flipping (Some r))" "m' = (shared s)\<lparr>nodes := (nodes (shared s))(n \<mapsto> x\<lparr>e_next := e_next y\<rparr>)\<rparr>"
      by (auto simp: link_replaced_def split: option.splits)
    with W lw have "at_work m' ((pcs s)[t := p]) = Some (Flipping (Some r))" by simp
    then show ?thesis by (intro keeps_same [OF inv k]) (simp_all add: W(1) x)
  next
    case (Unlocking r)
    with held have W: "at_work (shared s) (pcs s) = Some (Unlocking r)" by simp
    from Unlocking st have "at_work m' ((pcs s)[t := p]) = None" by (auto simp: at_work_def)
    with Unlocking st W show ?thesis by (intro keeps_same [OF inv k]) auto
  next
    case (Freeing r)
    show ?thesis
    proof (cases r)
      case None
      with Freeing st t show ?thesis by (intro keeps_local [OF inv k]) auto
    next
      case (Some a)
      with Freeing st have p: "p = Idle" "m' = (shared s)\<lparr>nodes := (nodes (shared s))(a := None)\<rparr>"
        by (auto split: option.splits)
      have un: "unused (shared s) (pcs s) as a"
        by (rule freed_unused [OF inv t(1)]) (simp add: t(2) Freeing Some)
      have "at_work m' ((pcs s)[t := p]) = at_work (shared s) (pcs s)"
        using t(2) Freeing by (intro at_work_upd) (simp_all add: p)
      then show ?thesis by (rule keeps_unused [OF inv k un _ p(2)])
    qed
  qed (use held st w lw in \<open>auto intro!: keeps_same [OF inv k] split: if_splits\<close>)
qed

lemma event_keeps_list:
  assumes inv: "rcu_inv (shared s) (pcs s) as" and k: "keeps s cs"
    and ev: "\<And>t c. ev = Move t \<Longrightarrow> pcs s ! t \<noteq> Writing (Locked c)" "no_signal ev"
    and st: "run_event ev s = Some s'"
  shows "keeps s' cs"
proof -
  have new: "keeps s' cs" if "with_node t s a x c = Some s'" for t a x c
  proof -
    from that have n: "nodes (shared s) a = None" "pcs s ! t = Idle" "t < length (pcs s)"
      "s' = \<lparr>shared = (shared s)\<lparr>nodes := (nodes (shared s))(a \<mapsto> x)\<rparr>, pcs = (pcs s)[t := Writing (Locking c)]\<rparr>"
      by (auto simp: with_node_eq)
    have un: "unused (shared s) (pcs s) as a" by (rule fresh_unused [OF inv n(1)])
    show ?thesis unfolding n(4)
      by (rule keeps_unused [OF inv k un _ refl]) (use n(2) in \<open>intro at_work_upd; simp\<close>)
  qed
  have same: "keeps s' cs" if "begin_call t s p m' = Some s'" "nodes m' = nodes (shared s)"
    "holder m' = holder (shared s)" "head (rlist m') = head (rlist (shared s))" "lock_state p = None" for t p m'
    using that keeps_local [OF inv k, of t p m'] by (auto simp: begin_call_eq)
  show ?thesis
  proof (cases ev)
    case (Move t)
    show ?thesis
    proof (cases "pcs s ! t")
      case (Reading r)
      with Move st search_shared obtain p m' where s': "search_step t r (shared s) = Some (p, m')"
        "s' = \<lparr>shared = m', pcs = (pcs s)[t := p]\<rparr>" by (auto simp: put_thread_eq split: if_splits)
      note S = search_shared [OF s'(1)]
      show ?thesis unfolding s'(2) by (rule keeps_local [OF inv k _ S(1-3)]) (simp add: Reading S(4))
    next
      case (Writing w)
      with Move st obtain p m' where s': "t < length (pcs s)" "writer_step t w (shared s) = Some (p, m')"
        "s' = \<lparr>shared = m', pcs = (pcs s)[t := p]\<rparr>" by (auto simp: put_thread_eq split: if_splits)
      have "w \<noteq> Locked c" for c using ev(1) [OF Move, of c] Writing by simp
      from writer_keeps_list [OF inv k s'(1) Writing this s'(2)] show ?thesis by (simp add: s'(3))
    qed (use Move st in \<open>auto split: if_splits\<close>)
  next
    case (Signal t)
    with ev(2) show ?thesis by (simp add: no_signal_def)
  qed (use st new same in \<open>auto simp: list_writes split: if_splits\<close>)
qed

section \<open>The step of a writer that changes the list\<close>

lemma keeps_entries:
  assumes "rcu_inv (shared s) (pcs s) as" "keeps s cs" "\<And>n r. at_work (shared s) (pcs s) \<noteq> Some (Linking n r)"
  shows "chain (nodes (shared s)) (head (rlist (shared s))) as" "cs = entries (nodes (shared s)) as"
proof -
  have w: "whole (at_work (shared s) (pcs s)) (nodes (shared s)) = nodes (shared s)"
    using assms(3) by (cases "at_work (shared s) (pcs s)"; cases "the (at_work (shared s) (pcs s))") auto
  show ch: "chain (nodes (shared s)) (head (rlist (shared s))) as" using assms(1,3) by (rule rcu_inv_chain)
  from assms(2) chain_unique [OF ch] show "cs = entries (nodes (shared s)) as" by (auto simp: keeps_def w)
qed

lemma entry_next [simp]: "h a = Some x \<Longrightarrow> entry (h(b \<mapsto> x\<lparr>e_next := q\<rparr>)) b = entry h a"
  by (simp add: entry_def)

lemma entries_next:
  "h a = Some x \<Longrightarrow> entries (h(a \<mapsto> x\<lparr>e_next := q\<rparr>)) as = entries h as"
  by (induction as) (auto simp: entry_def)

lemma link_new_list:
  assumes inv: "rcu_inv (shared s) (pcs s) as" and k: "keeps s cs"
    and t: "t < length (pcs s)" "pcs s ! t = Writing (Locked (Link_New n))"
    and st: "link_new n (shared s) = Some (p, m')"
  shows "keeps \<lparr>shared = m', pcs = (pcs s)[t := p]\<rparr> (entry (nodes (shared s)) n # cs)"
proof -
  note N = new_nodes [OF inv t]
  have cs: "cs = entries (nodes (shared s)) as" using keeps_entries(2) [OF inv k] at_work_held [OF inv t] by simp
  obtain x where x: "nodes (shared s) n = Some x" "n \<notin> set as" using N(3) by auto
  with st have p: "p = Writing (Flipping None)"
    "m' = (shared s)\<lparr>nodes := (nodes (shared s))(n \<mapsto> x\<lparr>e_next := head (rlist (shared s))\<rparr>),
       rlist := (rlist (shared s))\<lparr>head := Some n\<rparr>\<rparr>" by (auto simp: link_new_def)
  with N(2) t(1) have "at_work m' ((pcs s)[t := p]) = Some (Flipping None)" by (simp add: at_work_def)
  with N(1) x show ?thesis unfolding keeps_def
    by (intro exI [of _ "n # as"]) (simp add: p(2) cs entry_def)
qed

text \<open>The two places of a node to be replaced, first and further on.\<close>

lemma keepsI:
  "at_work m ps = W \<Longrightarrow> whole W (nodes m) = h \<Longrightarrow> chain h (head (rlist m)) as \<Longrightarrow> entries h as = cs \<Longrightarrow>
   keeps \<lparr>shared = m, pcs = ps\<rparr> cs"
  by (auto simp: keeps_def)

lemma replaced_head:
  assumes ch: "chain h (Some a) as" and y: "h a = Some y" "e_level y = key"
    and n: "h n = Some x" "n \<notin> set as"
  shows "chain (h(n \<mapsto> x\<lparr>e_next := e_next y\<rparr>)) (Some n) (n # tl as)"
    "entries (h(n \<mapsto> x\<lparr>e_next := e_next y\<rparr>)) (n # tl as) = replace_first key (entry h n) (entries h as)"
  using assms by (cases as; auto simp: entry_def)+

lemma replaced_inside:
  assumes ch: "chain h p as" and s: "as = xs @ q # r # ys" "h q = Some pe" "h r = Some z" "e_level z = key"
      "\<forall>x \<in> set (xs @ [q]). lev h x \<noteq> key"
    and n: "h n = Some x" "n \<notin> set as"
  defines "h' \<equiv> h(q \<mapsto> pe\<lparr>e_next := Some n\<rparr>, n \<mapsto> x\<lparr>e_next := e_next z\<rparr>)"
  shows "completed (Linking n r) (h(q \<mapsto> pe\<lparr>e_next := Some n\<rparr>)) = h'"
    "chain h' p (xs @ q # n # ys)"
    "entries h' (xs @ q # n # ys) = replace_first key (entry h n) (entries h as)"
proof -
  have d: "distinct as" using ch by (rule chain_distinct)
  show "completed (Linking n r) (h(q \<mapsto> pe\<lparr>e_next := Some n\<rparr>)) = h'"
    using n s d by (auto simp: h'_def)
  show "chain h' p (xs @ q # n # ys)" unfolding h'_def by (rule replace_chain) (use ch s n in auto)
  have "entries h' (xs @ q # n # ys) = entries h (xs @ [q]) @ entry h n # entries h ys"
    using n s(1,2) d by (simp add: h'_def entry_def)
  also have "\<dots> = replace_first key (entry h n) (entries h (xs @ [q]) @ entry h r # entries h ys)"
    by (rule first_split(1) [symmetric]) (use s in \<open>auto simp: entries_def\<close>)
  finally show "entries h' (xs @ q # n # ys) = replace_first key (entry h n) (entries h as)" by (simp add: s(1))
qed

lemma put_in_place_list:
  assumes inv: "rcu_inv (shared s) (pcs s) as" and k: "keeps s cs"
    and t: "t < length (pcs s)" "pcs s ! t = Writing (Locked (Put_In_Place key n))"
    and st: "put_in_place key n (shared s) = Some (p, m')"
  shows "keeps \<lparr>shared = m', pcs = (pcs s)[t := p]\<rparr> (replace_first key (entry (nodes (shared s)) n) cs)"
proof -
  let ?h = "nodes (shared s)"
  note N = new_nodes [OF inv t]
  have cs: "cs = entries ?h as" using keeps_entries(2) [OF inv k] at_work_held [OF inv t] by simp
  have lw: "at_work m' ((pcs s)[t := p]) = lock_state p" if "holder m' = Some t"
    using that t(1) by (simp add: at_work_def)
  obtain x where n: "?h n = Some x" "n \<notin> set as" using N(3) by auto
  from N(1) n(1) st show ?thesis
  proof (cases rule: put_in_place_cases)
    case absent
    show ?thesis
      by (rule keepsI [OF lw])
        (use absent N cs first_absent(1) [of "entries ?h as" key "entry ?h n"] in \<open>simp_all add: entries_def\<close>)
  next
    case 2: (first a bs y)
    have "chain ?h (Some a) as" using N(1) 2(2) by simp
    from replaced_head [OF this 2(3,4) n] show ?thesis
      by (intro keepsI [OF lw, where as = "n # tl as" and h = "nodes m'"])
        (use N(2) in \<open>simp_all add: 2(5,6) cs\<close>)
  next
    case 3: (inside xs q r ys pe z)
    from replaced_inside [OF N(1) 3(1,2,4-6) n] show ?thesis
      by (intro keepsI [OF lw, where as = "xs @ q # n # ys" and h = "completed (Linking n r) (nodes m')"])
        (use N(2) in \<open>simp_all add: 3(7,8) cs del: completed.simps\<close>)
  qed
qed

lemma removed_head:
  assumes "chain h (Some a) as" "h a = Some y" "e_level y = key"
  shows "chain h (e_next y) (tl as)" "entries h (tl as) = remove_first key (entries h as)"
  using assms by (cases as; auto simp: entry_def)+

lemma removed_inside:
  assumes ch: "chain h p as" and s: "as = xs @ q # r # ys" "h q = Some pe" "h r = Some z" "e_level z = key"
      "\<forall>x \<in> set (xs @ [q]). lev h x \<noteq> key"
  shows "chain (h(q \<mapsto> pe\<lparr>e_next := e_next z\<rparr>)) p (xs @ q # ys)"
    "entries (h(q \<mapsto> pe\<lparr>e_next := e_next z\<rparr>)) (xs @ q # ys) = remove_first key (entries h as)"
proof -
  show "chain (h(q \<mapsto> pe\<lparr>e_next := e_next z\<rparr>)) p (xs @ q # ys)"
    by (rule unlink_chain) (use ch s in auto)
  have "entries (h(q \<mapsto> pe\<lparr>e_next := e_next z\<rparr>)) (xs @ q # ys) = entries h (xs @ [q]) @ entries h ys"
    using entries_next [where h = h and a = q and x = pe and q = "e_next z" and as = "xs @ q # ys", OF s(2)]
    by (simp only: append.assoc entries_simps append_Cons append_Nil)
  also have "\<dots> = remove_first key (entries h (xs @ [q]) @ entry h r # entries h ys)"
    by (rule first_split(2) [symmetric]) (use s in \<open>auto simp: entries_def\<close>)
  finally show "entries (h(q \<mapsto> pe\<lparr>e_next := e_next z\<rparr>)) (xs @ q # ys) = remove_first key (entries h as)"
    by (simp add: s(1))
qed

lemma take_out_list:
  assumes inv: "rcu_inv (shared s) (pcs s) as" and k: "keeps s cs"
    and t: "t < length (pcs s)" "pcs s ! t = Writing (Locked (Take_Out key))"
    and st: "take_out key (shared s) = Some (p, m')"
  shows "keeps \<lparr>shared = m', pcs = (pcs s)[t := p]\<rparr> (remove_first key cs)"
proof -
  let ?h = "nodes (shared s)"
  note N = new_nodes [OF inv t]
  have cs: "cs = entries ?h as" using keeps_entries(2) [OF inv k] at_work_held [OF inv t] by simp
  have lw: "at_work m' ((pcs s)[t := p]) = lock_state p" if "holder m' = Some t"
    using that t(1) by (simp add: at_work_def)
  from N(1) st show ?thesis
  proof (cases rule: take_out_cases)
    case absent
    show ?thesis
      by (rule keepsI [OF lw])
        (use absent N cs first_absent(2) [of "entries ?h as" key] in \<open>simp_all add: entries_def\<close>)
  next
    case 2: (first a bs y)
    have "chain ?h (Some a) as" using N(1) 2(2) by simp
    from removed_head [OF this 2(3,4)] show ?thesis
      by (intro keepsI [OF lw, where as = "tl as" and h = "nodes m'"]) (use N(2) in \<open>simp_all add: 2(5,6) cs\<close>)
  next
    case 3: (inside xs q r ys pe z)
    from removed_inside [OF N(1) 3(1,2,4-6)] show ?thesis
      by (intro keepsI [OF lw, where as = "xs @ q # ys" and h = "nodes m'"])
        (use N(2) in \<open>simp_all add: 3(7,8) cs\<close>)
  qed
qed

section \<open>Writers are atomic\<close>

definition effect :: "rcu_sys \<Rightarrow> event \<Rightarrow> (c_int \<times> byte list \<times> size_t) list \<Rightarrow> (c_int \<times> byte list \<times> size_t) list" where
  "effect s ev cs = (case ev of
     Move t \<Rightarrow> (case pcs s ! t of Writing (Locked c) \<Rightarrow> changed (nodes (shared s)) c cs | _ \<Rightarrow> cs)
   | _ \<Rightarrow> cs)"

text \<open>What the stores hold at this moment: \<open>sees s cs\<close> when the nodes reachable from the head are
  \<open>cs\<close>, so that the search for any level, run on them, finds the first of \<open>cs\<close> with the level.\<close>

definition sees :: "rcu_sys \<Rightarrow> (c_int \<times> byte list \<times> size_t) list \<Rightarrow> bool" where
  "sees s cs \<longleftrightarrow>
     (\<exists>as. chain (nodes (shared s)) (head (rlist (shared s))) as \<and> cs = entries (nodes (shared s)) as) \<and>
     (\<forall>key. \<exists>p. find_level (nodes (shared s)) key (head (rlist (shared s))) = Some (Inr p) \<and>
        map_option (entry (nodes (shared s))) p = find (\<lambda>c. fst c = key) cs)"

lemma find_entries:
  "map_option (entry h) (find (\<lambda>a. lev h a = key) as) = find (\<lambda>c. fst c = key) (entries h as)"
  by (induction as) (auto simp: entry_def Let_def)

lemma sees_chain:
  assumes "chain (nodes (shared s)) (head (rlist (shared s))) as"
  shows "sees s (entries (nodes (shared s)) as)"
  using assms find_level_chain [OF assms] by (auto simp: sees_def find_entries)

lemma cut_list:
  assumes inv: "rcu_inv (shared s) (pcs s) as" and W: "at_work (shared s) (pcs s) = Some (Linking n r)"
    and k: "keeps s cs"
  shows "\<exists>vis vs. cs = vis @ vs \<and> sees s vis \<and> vis \<noteq> [] \<and> last vis = entry (nodes (shared s)) n"
proof -
  let ?h = "nodes (shared s)" and ?c = "completed (Linking n r) (nodes (shared s))"
  from W inv obtain x where n: "?h n = Some x" "e_next x = None" "n \<in> set as"
    by (elim at_work_thread) (auto simp: writer_ok_def)
  then obtain xs ys where as: "as = xs @ n # ys" by (auto dest: split_list)
  have ch: "chain ?c (head (rlist (shared s))) as" using inv by (simp add: rcu_inv_def W)
  have d: "n \<notin> set xs" using chain_distinct [OF ch] by (simp add: as)
  from ch have "seg ?c (head (rlist (shared s))) xs (Some n)" by (auto simp: as)
  with d have "seg ?h (head (rlist (shared s))) xs (Some n)" by simp
  with n have see: "sees s (entries ?h (xs @ [n]))" by (intro sees_chain) simp
  have c: "?c = ?h(n \<mapsto> x\<lparr>e_next := e_next (the (?h r))\<rparr>)" using n by simp
  have "cs = entries ?c as" using k chain_unique [OF ch] by (auto simp: keeps_def W)
  also have "\<dots> = entries ?h (xs @ [n]) @ entries ?h ys"
    using entries_next [where h = ?h and a = n and q = "e_next (the (?h r))" and as = as, OF n(1)]
    unfolding c by (simp add: as)
  finally show ?thesis using see
    by (intro exI [of _ "entries ?h (xs @ [n])"] exI [of _ "entries ?h ys"]) simp
qed

lemma stored_list:
  assumes inv: "rcu_inv (shared s) (pcs s) as" and k: "keeps s cs"
  shows "\<exists>vis vs. cs = vis @ vs \<and> sees s vis \<and>
    (case at_work (shared s) (pcs s) of
       Some (Linking n r) \<Rightarrow> vis \<noteq> [] \<and> last vis = entry (nodes (shared s)) n
     | _ \<Rightarrow> vs = [])"
proof (cases "\<exists>n r. at_work (shared s) (pcs s) = Some (Linking n r)")
  case True
  with cut_list [OF inv _ k] show ?thesis by auto
next
  case False
  with keeps_entries [OF inv k] have "sees s cs" by (auto intro: sees_chain)
  with False show ?thesis by (auto split: option.splits writer.splits)
qed

text \<open>C4: The messages of the list, in every interleaving without signals.  Each writer's change is
  decided at one step, under the lock, and no other step changes which messages are meant to be in
  the list.  What the stores hold, and every search run on them finds, is that list, except
  while a writer stands between the two stores of a replacement further on in the list (lines 188
  and 189): there it is only the part of the list that ends with the new message, and the messages
  behind it are out of sight until the second store.  So insertion and removal are atomic for the
  readers, and such a replacement is not.\<close>

theorem list_seen_by_readers:
  assumes "rcu_reach no_signal s" "keeps s cs" "no_signal ev" "run_event ev s = Some s'"
  shows "keeps s' (effect s ev cs) \<and>
    (\<exists>vis vs. effect s ev cs = vis @ vs \<and> sees s' vis \<and>
       (case at_work (shared s') (pcs s') of
          Some (Linking n r) \<Rightarrow> vis \<noteq> [] \<and> last vis = entry (nodes (shared s')) n
        | _ \<Rightarrow> vs = []))"
proof -
  obtain as where inv: "rcu_inv (shared s) (pcs s) as" by (rule reach_rcu_inv [OF assms(1)])
  have "rcu_reach no_signal s'" using reach_run [of "[ev]" s s' no_signal] assms(1,3,4) by simp
  then obtain as' where inv': "rcu_inv (shared s') (pcs s') as'" by (rule reach_rcu_inv)
  have "keeps s' (effect s ev cs)"
  proof (cases "\<exists>t c. ev = Move t \<and> pcs s ! t = Writing (Locked c)")
    case False
    then have "effect s ev cs = cs" by (auto simp: effect_def split: event.split pc.split writer.split)
    with event_keeps_list [OF inv assms(2) _ assms(3,4)] False show ?thesis by auto
  next
    case True
    then obtain t c where t: "ev = Move t" "pcs s ! t = Writing (Locked c)" by blast
    with assms(4) obtain p m' where s': "t < length (pcs s)" "writer_step t (Locked c) (shared s) = Some (p, m')"
      "s' = \<lparr>shared = m', pcs = (pcs s)[t := p]\<rparr>" by (auto simp: put_thread_eq split: if_splits)
    with t link_new_list [OF inv assms(2) s'(1)] put_in_place_list [OF inv assms(2) s'(1)]
      take_out_list [OF inv assms(2) s'(1)] show ?thesis
      by (cases c) (simp_all add: effect_def changed_def)
  qed
  with stored_list [OF inv' this] show ?thesis by blast
qed

text \<open>A sender about to replace the middle one of three nodes: the last level is out of sight.\<close>

definition three_node_schedule :: "event list" where
  "three_node_schedule = Insert 0 12 2 [2] 1 # moves 6 0 @ Insert 0 11 1 [1] 1 # moves 6 0 @
     Insert 0 10 0 [0] 1 # moves 6 0 @ Replace 0 13 1 [3] 1 # moves 1 0"

theorem list_seen_by_readers_witness:
  "\<exists>s s'. rcu_reach no_signal s \<and> keeps s [(0, [0], 1), (1, [1], 1), (2, [2], 1)] \<and> run_event (Move 0) s = Some s' \<and>
     keeps s' [(0, [0], 1), (1, [3], 1), (2, [2], 1)] \<and> sees s' [(0, [0], 1), (1, [3], 1)]"
proof -
  have run: "map_option (\<lambda>s. (pcs s, holder (shared s), head (rlist (shared s)), map (nodes (shared s)) [10, 11, 12, 13],
        map_option (\<lambda>s'. (pcs s', holder (shared s'), nodes (shared s') 13)) (run_event (Move 0) s)))
        (run_events three_node_schedule (rcu_boot 1)) =
      Some ([Writing (Locked (Put_In_Place 1 13))], Some 0, Some 10,
        [Some ((new_element 0 [0] 1)\<lparr>e_next := Some 11\<rparr>), Some ((new_element 1 [1] 1)\<lparr>e_next := Some 12\<rparr>),
         Some (new_element 2 [2] 1), Some (new_element 1 [3] 1)],
        Some ([Writing (Linking 13 11)], Some 0, Some (new_element 1 [3] 1)))" by code_simp
  have ok: "list_all no_signal three_node_schedule" by code_simp
  from run obtain s s' where s: "run_events three_node_schedule (rcu_boot 1) = Some s"
    "pcs s = [Writing (Locked (Put_In_Place 1 13))]" "holder (shared s) = Some 0" "head (rlist (shared s)) = Some 10"
    "nodes (shared s) 10 = Some ((new_element 0 [0] 1)\<lparr>e_next := Some 11\<rparr>)"
    "nodes (shared s) 11 = Some ((new_element 1 [1] 1)\<lparr>e_next := Some 12\<rparr>)"
    "nodes (shared s) 12 = Some (new_element 2 [2] 1)" "nodes (shared s) 13 = Some (new_element 1 [3] 1)"
    and s': "run_event (Move 0) s = Some s'" "pcs s' = [Writing (Linking 13 11)]" "holder (shared s') = Some 0"
    "nodes (shared s') 13 = Some (new_element 1 [3] 1)"
    by (auto simp del: run_event.simps)
  note reach = reach_schedule [OF s(1) ok]
  have k: "keeps s [(0, [0], 1), (1, [1], 1), (2, [2], 1)]" unfolding keeps_def
    by (intro exI [of _ "[10, 11, 12]"]) (simp add: at_work_def s(2-8) entry_def)
  have e: "effect s (Move 0) [(0, [0], 1), (1, [1], 1), (2, [2], 1)] = [(0, [0], 1), (1, [3], 1), (2, [2], 1)]"
    by (simp add: effect_def changed_def s(2,8) entry_def)
  have W: "at_work (shared s') (pcs s') = Some (Linking 13 11)" by (simp add: at_work_def s'(2,3))
  from list_seen_by_readers [OF reach k _ s'(1)] obtain vis vs where
    v: "keeps s' [(0, [0], 1), (1, [3], 1), (2, [2], 1)]" "[(0, [0], 1), (1, [3], 1), (2, [2], 1)] = vis @ vs"
      "sees s' vis" "vis \<noteq> []" "last vis = (1, [3], 1)"
    by (auto simp: no_signal_def e W entry_def s'(4))
  then have "vis = [(0, [0], 1), (1, [3], 1)]" by (cases vis; cases "tl vis"; cases "tl (tl vis)") (auto split: if_splits)
  with reach k s'(1) v(1,3) show ?thesis by blast
qed

end
