(* ===== verification/RcuProps.thy ===== *)
theory RcuProps
  imports RcuSafe
begin

text \<open>
  What the invariant of \<open>RcuSafe\<close> gives: which readers are safe, what the list looks like in
  every state, and that a writer waits only for readers, which can always let it go on.
\<close>

section \<open>Safety\<close>

lemma current_walk:
  assumes "rcu_inv (shared s) (pcs s) as" "t < length (pcs s)"
    and "pcs s ! t = Reading (Walking key e True (Some a))"
  shows "nodes (shared s) a \<noteq> None"
  using rcu_inv_pc [OF assms] allowed_nodes [OF assms(1), of a e] by auto

lemma current_found:
  assumes "rcu_inv (shared s) (pcs s) as" "t < length (pcs s)"
    and "pcs s ! t = Reading (Uncounting key e True (Some a))"
  shows "\<exists>x. nodes (shared s) a = Some x \<and> e_level x = key"
proof -
  have a: "a \<in> allowed (set as) (at_work (shared s) (pcs s)) e" "lev (nodes (shared s)) a = key"
    using rcu_inv_pc [OF assms] by auto
  from allowed_nodes [OF assms(1) a(1)] obtain x where "nodes (shared s) a = Some x" by blast
  with a(2) show ?thesis by simp
qed

lemma freed_once:
  assumes "rcu_inv (shared s) (pcs s) as" "t < length (pcs s)" "pcs s ! t = Writing (Freeing (Some a))"
  shows "nodes (shared s) a \<noteq> None \<and> a \<notin> set as"
  using rcu_inv_pc [OF assms] by (simp add: writer_ok_def)

text \<open>C2: In every interleaving of searches, insertions, removals and replacements without
  signals, a reader that counted itself in while its epoch was still the epoch of the list never
  holds a freed node before it counts itself out, and the node it leaves with has the level it
  asked for.  (A reader that an epoch change has overtaken is not protected:
  \<open>overtaken_reader_dangles\<close>.)\<close>

theorem current_reader_safe:
  assumes "rcu_reach no_signal s" "t < length (pcs s)"
  shows "(\<forall>key e a. pcs s ! t = Reading (Walking key e True (Some a)) \<longrightarrow> nodes (shared s) a \<noteq> None) \<and>
    (\<forall>key e a. pcs s ! t = Reading (Uncounting key e True (Some a)) \<longrightarrow>
       (\<exists>x. nodes (shared s) a = Some x \<and> e_level x = key))"
proof -
  obtain as where "rcu_inv (shared s) (pcs s) as" by (rule reach_rcu_inv [OF assms(1)])
  from current_walk [OF this assms(2)] current_found [OF this assms(2)] show ?thesis by blast
qed

text \<open>C3: In every interleaving without signals the nodes from the head form a chain without
  repetition (between lines 188 and 189 of \<^verbatim>\<open>rcu_list_replace\<close>, with the link about to be
  written), \<^verbatim>\<open>kfree\<close> is only called on an allocated node outside it, two threads never free the
  same node, and \<^verbatim>\<open>standing\<close> is the number of readers between lines 46 and 56.\<close>

theorem list_stays_whole:
  assumes "rcu_reach no_signal s"
  shows "\<exists>as. chain (whole (at_work (shared s) (pcs s)) (nodes (shared s))) (head (rlist (shared s))) as \<and>
      distinct as \<and>
      (\<forall>t < length (pcs s). \<forall>a. pcs s ! t = Writing (Freeing (Some a)) \<longrightarrow>
         nodes (shared s) a \<noteq> None \<and> a \<notin> set as \<and>
         (\<forall>u < length (pcs s). pcs s ! u = Writing (Freeing (Some a)) \<longrightarrow> u = t)) \<and>
      (\<forall>e < 2. standing (rlist (shared s)) ! e = int (length (filter (counted e) (pcs s))))"
proof -
  obtain as where inv: "rcu_inv (shared s) (pcs s) as" by (rule reach_rcu_inv [OF assms])
  then have ch: "chain (whole (at_work (shared s) (pcs s)) (nodes (shared s))) (head (rlist (shared s))) as"
    and st: "\<forall>e < 2. standing (rlist (shared s)) ! e = int (length (filter (counted e) (pcs s)))"
    by (simp_all add: rcu_inv_def)
  have "u = t" if "t < length (pcs s)" "pcs s ! t = Writing (Freeing (Some a))"
    "u < length (pcs s)" "pcs s ! u = Writing (Freeing (Some a))" for t u a
    using owned_disjoint [OF inv that(1-3)] that(4) by (cases "u = t") auto
  with freed_once [OF inv] ch chain_distinct [OF ch] st show ?thesis by blast
qed

section \<open>The end of a grace period\<close>

fun overtaken :: "reader \<Rightarrow> bool" where
  "overtaken (Heading key e c) = (\<not> c)"
| "overtaken (Walking key e c p) = (\<not> c)"
| "overtaken (Uncounting key e c p) = (\<not> c)"
| "overtaken _ = False"

lemma walk_run:
  assumes "chain (nodes m) p bs" "u < length ps" "ps ! u = Reading (Walking key e c p)"
  shows "\<exists>n. run_events (moves n u) \<lparr>shared = m, pcs = ps\<rparr> = Some \<lparr>shared = m,
    pcs = ps[u := Reading (Uncounting key e c (find (\<lambda>a. lev (nodes m) a = key) bs))]\<rparr>"
  using assms
proof (induction bs arbitrary: p ps)
  case Nil
  then have "run_events (moves 1 u) \<lparr>shared = m, pcs = ps\<rparr> =
      Some \<lparr>shared = m, pcs = ps[u := Reading (Uncounting key e c None)]\<rparr>"
    by (simp add: put_thread_def)
  then show ?case by (intro exI [of _ 1]) simp
next
  case (Cons a bs)
  let ?q = "find (\<lambda>b. lev (nodes m) b = key) bs"
  from Cons obtain x where p: "p = Some a" "nodes m a = Some x" "chain (nodes m) (e_next x) bs" by auto
  show ?case
  proof (cases "e_level x = key")
    case True
    with Cons.prems p have "run_events (moves 1 u) \<lparr>shared = m, pcs = ps\<rparr> =
        Some \<lparr>shared = m, pcs = ps[u := Reading (Uncounting key e c (Some a))]\<rparr>"
      by (simp add: put_thread_def)
    with True p show ?thesis by (intro exI [of _ 1]) simp
  next
    case False
    let ?ps = "ps[u := Reading (Walking key e c (e_next x))]"
    from Cons.IH [OF p(3), of ?ps] Cons.prems obtain n where
      "run_events (moves n u) \<lparr>shared = m, pcs = ?ps\<rparr> =
        Some \<lparr>shared = m, pcs = ps[u := Reading (Uncounting key e c ?q)]\<rparr>" by auto
    with False Cons.prems p have "run_events (moves (Suc n) u) \<lparr>shared = m, pcs = ps\<rparr> =
        Some \<lparr>shared = m, pcs = ps[u := Reading (Uncounting key e c ?q)]\<rparr>"
      by (simp add: put_thread_def)
    with False p show ?thesis by (intro exI [of _ "Suc n"]) (simp del: replicate_Suc)
  qed
qed

lemma chain_from: "chain h p as \<Longrightarrow> a \<in> set as \<Longrightarrow> \<exists>bs. chain h (Some a) bs"
  by (metis seg_append seg.simps(2) split_list)

text \<open>While a writer waits, every node a reader may hold leads to the end of the list.\<close>

lemma grace_chain:
  assumes inv: "rcu_inv m ps as" and W: "at_work m ps = Some (Waiting r g)"
    and p: "set_option p \<subseteq> allowed (set as) (at_work m ps) e"
  shows "\<exists>bs. chain (nodes m) p bs"
proof (cases p)
  case None
  then show ?thesis by simp
next
  case (Some a)
  have ch: "chain (nodes m) (head (rlist m)) as" using rcu_inv_chain [OF inv] W by simp
  from allowed_nodes [OF inv, of a e] p Some obtain x where
    x: "nodes m a = Some x" "set_option (e_next x) \<subseteq> set as" by auto
  have "\<exists>bs. chain (nodes m) (e_next x) bs"
    using x(2) chain_from [OF ch] by (cases "e_next x") auto
  then obtain bs where "chain (nodes m) (Some a) (a # bs)" using x(1) by auto
  with Some show ?thesis by blast
qed

text \<open>A current reader counts itself out by its own steps.\<close>

lemma walk_out:
  assumes inv: "rcu_inv m ps as" and W: "at_work m ps = Some (Waiting r g)"
    and u: "u < length ps" "ps ! u = Reading (Walking key e True p)"
  shows "\<exists>n q. run_events (moves n u) \<lparr>shared = m, pcs = ps\<rparr> =
    Some \<lparr>shared = on_list (add_standing e (- 1)) m, pcs = ps[u := Reading (Leaving key q)]\<rparr>"
proof -
  from rcu_inv_pc [OF inv u] have "set_option p \<subseteq> allowed (set as) (at_work m ps) e" by simp
  with walk_run [OF _ u] grace_chain [OF inv W] obtain n q where
    run: "run_events (moves n u) \<lparr>shared = m, pcs = ps\<rparr> =
      Some \<lparr>shared = m, pcs = ps[u := Reading (Uncounting key e True q)]\<rparr>" by metis
  have "run_events (moves n u @ [Move u]) \<lparr>shared = m, pcs = ps\<rparr> =
      Some \<lparr>shared = on_list (add_standing e (- 1)) m, pcs = ps[u := Reading (Leaving key q)]\<rparr>"
    using run u by (simp add: run_events_append put_thread_def)
  then have "run_events (moves (Suc n) u) \<lparr>shared = m, pcs = ps\<rparr> =
      Some \<lparr>shared = on_list (add_standing e (- 1)) m, pcs = ps[u := Reading (Leaving key q)]\<rparr>"
    by (simp only: replicate_Suc replicate_append_same)
  then show ?thesis by blast
qed

lemma counts_out:
  assumes inv: "rcu_inv m ps as" and W: "at_work m ps = Some (Waiting r g)"
    and u: "u < length ps" "ps ! u = Reading x" "counted_reader x e" "\<not> overtaken x"
  shows "\<exists>n key q. run_events (moves n u) \<lparr>shared = m, pcs = ps\<rparr> =
    Some \<lparr>shared = on_list (add_standing e (- 1)) m, pcs = ps[u := Reading (Leaving key q)]\<rparr>"
proof (cases x)
  case (Heading key e' c)
  let ?ps = "ps[u := Reading (Walking key e True (head (rlist m)))]"
  from Heading u have st: "run_event (Move u) \<lparr>shared = m, pcs = ps\<rparr> = Some \<lparr>shared = m, pcs = ?ps\<rparr>"
    by (simp add: put_thread_def)
  have inv': "rcu_inv m ?ps as"
    by (rule search_keeps [OF inv u(1,2)]) (use Heading u in auto)
  have "at_work m ?ps = Some (Waiting r g)"
    using W at_work_upd [of m m u "Reading (Walking key e True (head (rlist m)))" ps] u by simp
  from walk_out [OF inv' this, of u] u(1) obtain n q where
    "run_events (moves n u) \<lparr>shared = m, pcs = ?ps\<rparr> =
      Some \<lparr>shared = on_list (add_standing e (- 1)) m, pcs = ps[u := Reading (Leaving key q)]\<rparr>" by auto
  with st have "run_events (moves (Suc n) u) \<lparr>shared = m, pcs = ps\<rparr> =
      Some \<lparr>shared = on_list (add_standing e (- 1)) m, pcs = ps[u := Reading (Leaving key q)]\<rparr>"
    by (simp del: run_event.simps)
  then show ?thesis by blast
next
  case (Walking key e' c p)
  with walk_out [OF inv W u(1)] u show ?thesis by fastforce
next
  case (Uncounting key e' c q)
  with u have "run_events (moves 1 u) \<lparr>shared = m, pcs = ps\<rparr> =
      Some \<lparr>shared = on_list (add_standing e (- 1)) m, pcs = ps[u := Reading (Leaving key q)]\<rparr>"
    by (simp add: put_thread_def)
  then show ?thesis by blast
qed (use u in auto)

lemma counted_once: "counted_reader x g \<Longrightarrow> counted_reader x e \<longleftrightarrow> e = g"
  by (cases x) auto

text \<open>All of them, one after the other.\<close>

lemma all_count_out:
  assumes "rcu_inv m ps as" "t < length ps" "ps ! t = Writing (Waiting r g)" "g < 2"
    and "\<forall>u < length ps. \<forall>x. ps ! u = Reading x \<longrightarrow> counted_reader x g \<longrightarrow> \<not> overtaken x"
  shows "\<exists>evs m' ps'. run_events evs \<lparr>shared = m, pcs = ps\<rparr> = Some \<lparr>shared = m', pcs = ps'\<rparr> \<and>
    (\<forall>ev \<in> set evs. \<exists>u < length ps. ev = Move u \<and> counted g (ps ! u)) \<and>
    length ps' = length ps \<and> ps' ! t = ps ! t \<and> \<not> standing (rlist m') ! g > 0"
  using assms
proof (induction "length (filter (counted g) ps)" arbitrary: m ps)
  case 0
  then have "\<not> standing (rlist m) ! g > 0" by (simp add: rcu_inv_def)
  moreover have "run_events [] \<lparr>shared = m, pcs = ps\<rparr> = Some \<lparr>shared = m, pcs = ps\<rparr>" by simp
  ultimately show ?case by (metis empty_iff empty_set)
next
  case (Suc k)
  from Suc.hyps(2) obtain u where u: "u < length ps" "counted g (ps ! u)"
    by (metis Suc_neq_Zero filter_empty_conv in_set_conv_nth list.size(3))
  then obtain x where x: "ps ! u = Reading x" "counted_reader x g"
    by (auto simp: counted_def split: pc.splits)
  have W: "at_work m ps = Some (Waiting r g)" using at_work_held(2) [OF Suc.prems(1-3)] by simp
  from counts_out [OF Suc.prems(1) W u(1) x] Suc.prems(5) u(1) x obtain n key q where
    run: "run_events (moves n u) \<lparr>shared = m, pcs = ps\<rparr> =
      Some \<lparr>shared = on_list (add_standing g (- 1)) m, pcs = ps[u := Reading (Leaving key q)]\<rparr>" by metis
  let ?m = "on_list (add_standing g (- 1)) m" and ?ps = "ps[u := Reading (Leaving key q)]"
  have inv: "rcu_inv ?m ?ps as"
    by (rule local_step [OF Suc.prems(1) u(1)])
      (use Suc.prems(1,4) x in \<open>auto simp: rcu_inv_def add_standing_def nth_list_update counted_once\<close>)
  have "length (filter (counted g) ?ps) = k"
    using length_filter_update [OF u(1), of "counted g" "Reading (Leaving key q)"] Suc.hyps(2) u(2) by simp
  moreover have "u \<noteq> t" using x(1) Suc.prems(3) by auto
  moreover have "\<forall>v < length ?ps. \<forall>x. ?ps ! v = Reading x \<longrightarrow> counted_reader x g \<longrightarrow> \<not> overtaken x"
    using Suc.prems(5) u(1) by (auto simp: nth_list_update split: if_splits)
  ultimately obtain evs m' ps' where
    IH: "run_events evs \<lparr>shared = ?m, pcs = ?ps\<rparr> = Some \<lparr>shared = m', pcs = ps'\<rparr>"
      "\<forall>ev \<in> set evs. \<exists>v < length ?ps. ev = Move v \<and> counted g (?ps ! v)"
      "length ps' = length ?ps" "ps' ! t = ?ps ! t" "\<not> standing (rlist m') ! g > 0"
    using Suc.hyps(1) [OF _ inv] Suc.prems(2-4) by fastforce
  have "run_events (moves n u @ evs) \<lparr>shared = m, pcs = ps\<rparr> = Some \<lparr>shared = m', pcs = ps'\<rparr>"
    using run IH(1) by (simp add: run_events_append)
  moreover have "\<exists>v < length ps. ev = Move v \<and> counted g (ps ! v)" if "ev \<in> set (moves n u @ evs)" for ev
    using that IH(2) u by (auto simp: nth_list_update split: if_splits)
  ultimately show ?case using IH(3-5) \<open>u \<noteq> t\<close> by (metis length_list_update nth_list_update_neq)
qed

text \<open>C15: When a grace period ends.  In every interleaving without signals, suppose a writer waits
  for the readers of the epoch it has closed, and none of the readers counted in that epoch has
  been overtaken, that is, counted itself in after the epoch had already changed (one that has can
  stand at a freed node, \<open>overtaken_reader_dangles\<close>).  Then these readers can run to the end of
  their search, in finitely many steps of their own and without any other thread moving, and after
  that the writer goes on.\<close>

theorem grace_period_ends:
  assumes "rcu_reach no_signal s" "t < length (pcs s)" "pcs s ! t = Writing (Waiting r g)"
    and "\<forall>u < length (pcs s). \<forall>x. pcs s ! u = Reading x \<longrightarrow> counted_reader x g \<longrightarrow> \<not> overtaken x"
  shows "\<exists>evs s'. run_events evs s = Some s' \<and>
    (\<forall>ev \<in> set evs. \<exists>u < length (pcs s). ev = Move u \<and> counted g (pcs s ! u)) \<and>
    run_event (Move t) s' \<noteq> None"
proof -
  obtain as where inv: "rcu_inv (shared s) (pcs s) as" by (rule reach_rcu_inv [OF assms(1)])
  have g: "g < 2" using rcu_inv_pc [OF inv assms(2,3)] by (simp add: writer_ok_def)
  have "\<lparr>shared = shared s, pcs = pcs s\<rparr> = s" by simp
  with all_count_out [OF inv assms(2,3) g assms(4)] obtain evs m' ps' where
    r: "run_events evs s = Some \<lparr>shared = m', pcs = ps'\<rparr>"
      "\<forall>ev \<in> set evs. \<exists>u < length (pcs s). ev = Move u \<and> counted g (pcs s ! u)"
      "length ps' = length (pcs s)" "ps' ! t = pcs s ! t" "\<not> standing (rlist m') ! g > 0"
    by metis
  then have "run_event (Move t) \<lparr>shared = m', pcs = ps'\<rparr> \<noteq> None"
    using assms(2,3) by (simp add: put_thread_def)
  with r(1,2) show ?thesis by blast
qed

section \<open>At a concrete state\<close>

text \<open>A reader woken by \<^verbatim>\<open>AWAKE_ALL\<close> is at a node when a sender replaces it and waits.\<close>

definition grace_schedule :: "event list" where
  "grace_schedule =
     Insert 0 10 0 [0] 0 # moves 6 0 @ Search 1 0 # moves 7 1 @ [Raise 0 0, Wake 0 0] @ moves 5 1 @
     Replace 0 11 0 [1] 1 # moves 3 0"

lemma grace_state:
  obtains s where "rcu_reach no_signal s"
    "pcs s = [Writing (Waiting (Some 10) 1), Reading (Walking 0 1 True (Some 10))]"
proof -
  have "map_option pcs (run_events grace_schedule (rcu_boot 2)) =
      Some [Writing (Waiting (Some 10) 1), Reading (Walking 0 1 True (Some 10))]" by code_simp
  then obtain s where s: "run_events grace_schedule (rcu_boot 2) = Some s"
    "pcs s = [Writing (Waiting (Some 10) 1), Reading (Walking 0 1 True (Some 10))]" by auto
  have "list_all no_signal grace_schedule" by code_simp
  with s show thesis by (auto intro: that reach_schedule)
qed

theorem current_reader_safe_witness:
  "\<exists>s. rcu_reach no_signal s \<and> pcs s ! 1 = Reading (Walking 0 1 True (Some 10)) \<and>
     nodes (shared s) 10 \<noteq> None"
proof -
  obtain s where s: "rcu_reach no_signal s"
    "pcs s = [Writing (Waiting (Some 10) 1), Reading (Walking 0 1 True (Some 10))]" by (rule grace_state)
  with current_reader_safe [OF s(1), of 1] show ?thesis by (intro exI [of _ s]) auto
qed

theorem list_stays_whole_witness:
  "\<exists>s as. rcu_reach no_signal s \<and> pcs s ! 0 = Writing (Waiting (Some 10) 1) \<and>
     chain (nodes (shared s)) (head (rlist (shared s))) as \<and> standing (rlist (shared s)) ! 1 = 1"
proof -
  obtain s where s: "rcu_reach no_signal s"
    "pcs s = [Writing (Waiting (Some 10) 1), Reading (Walking 0 1 True (Some 10))]" by (rule grace_state)
  have "whole (at_work (shared s) (pcs s)) h = h" for h
    using s(2) by (auto simp: at_work_def nth_Cons split: option.splits nat.splits)
  with list_stays_whole [OF s(1)] s show ?thesis by (intro exI [of _ s]) auto
qed

theorem grace_period_ends_witness:
  "\<exists>s evs s'. rcu_reach no_signal s \<and> pcs s ! 0 = Writing (Waiting (Some 10) 1) \<and>
     run_events evs s = Some s' \<and> run_event (Move 0) s' \<noteq> None"
proof -
  obtain s where s: "rcu_reach no_signal s"
    "pcs s = [Writing (Waiting (Some 10) 1), Reading (Walking 0 1 True (Some 10))]" by (rule grace_state)
  have "\<exists>evs s'. run_events evs s = Some s' \<and>
    (\<forall>ev \<in> set evs. \<exists>u < length (pcs s). ev = Move u \<and> counted 1 (pcs s ! u)) \<and>
    run_event (Move 0) s' \<noteq> None"
    by (rule grace_period_ends [OF s(1), of 0 "Some 10" 1]) (auto simp: s(2) nth_Cons split: nat.splits)
  with s show ?thesis by (metis nth_Cons_0)
qed

end
