(* ===== verification/RcuRuns.thy ===== *)
theory RcuRuns
  imports RcuProps
begin

text \<open>
  A writer that runs alone does, step by step, what the whole function of \<open>RcuList\<close> does: the
  machine of \<open>RcuSteps\<close> refines the functions that the rest of the development uses.
\<close>

section \<open>Calls that run alone\<close>

lemma loop_res_eq_Inr: "loop_res r = Inr x \<longleftrightarrow> r = Some (Inr x)"
  by (cases r) (auto simp: loop_res_def)

lemma replicate_moves: "moves (Suc n) t = Move t # moves n t"
  by simp

lemma thread_back [simp]: "ps ! t = p \<Longrightarrow> ps[t := p] = ps"
  by auto

lemma insert_alone:
  assumes t: "t < length ps" "ps ! t = Idle" and a: "alloc (el_heap m) = Some a" "el_heap m a = None"
    and run: "rcu_list_insert alloc lk l key msg sz m = Inr (c, l', m')"
  shows "run_events (Insert t a key msg sz # moves 6 t)
      \<lparr>shared = \<lparr>rlist = l, nodes = el_heap m, holder = None\<rparr>, pcs = ps\<rparr> =
    Some \<lparr>shared = \<lparr>rlist = l', nodes = el_heap m', holder = None\<rparr>, pcs = ps\<rparr>"
  using assms
  by (auto simp: rcu_list_insert_def with_node_def begin_call_def put_thread_def link_new_def Let_def
      on_list_def eval_nat_numeral other_epoch_def split: if_splits)

text \<open>The lock as the log of a whole function leaves it.\<close>

definition lock_after :: "lock \<Rightarrow> nat \<Rightarrow> kmem \<Rightarrow> nat option" where
  "lock_after lk t m = (if last (klog m) = WriteUnlock lk then None else Some t)"

lemmas alone_defs = begin_call_def put_thread_def with_node_def Let_def on_list_def other_epoch_def

lemma replace_commit_alone:
  assumes t: "t < length ps" and run: "replace_commit lk l r m = Inr (c, l', m')" "el_heap m r \<noteq> None"
  shows "last (klog m') = WriteUnlock lk \<and> run_events (moves 4 t)
      \<lparr>shared = \<lparr>rlist = l, nodes = el_heap m, holder = Some t\<rparr>, pcs = ps[t := Writing (Flipping (Some r))]\<rparr> =
    Some \<lparr>shared = \<lparr>rlist = l', nodes = el_heap m', holder = None\<rparr>, pcs = ps[t := Idle]\<rparr>"
  using assms by (auto simp: replace_commit_def alone_defs eval_nat_numeral split: if_splits)

lemma remove_commit_alone:
  assumes t: "t < length ps" and run: "remove_commit lk l r m = Inr (c, l', m')"
    and r: "\<And>a. r = Some a \<Longrightarrow> el_heap m a \<noteq> None"
  shows "run_events (moves 5 t)
      \<lparr>shared = \<lparr>rlist = l, nodes = el_heap m, holder = Some t\<rparr>, pcs = ps[t := Writing (Draining r)]\<rparr> =
    Some \<lparr>shared = \<lparr>rlist = l', nodes = el_heap m', holder = None\<rparr>, pcs = ps[t := Idle]\<rparr>"
  using assms
  by (cases r) (auto simp: remove_commit_def alone_defs eval_nat_numeral split: if_splits)

lemma replace_start:
  assumes "t < length ps" "ps ! t = Idle" "h a = None"
  shows "run_events (Replace t a key msg sz # moves (k + 2) t)
      \<lparr>shared = \<lparr>rlist = l, nodes = h, holder = None\<rparr>, pcs = ps\<rparr> =
    (case put_in_place key a
            \<lparr>rlist = l, nodes = h(a \<mapsto> new_element key msg sz), holder = Some t\<rparr> of
       None \<Rightarrow> None
     | Some (p, m) \<Rightarrow> run_events (moves k t) \<lparr>shared = m, pcs = ps[t := p]\<rparr>)"
  using assms by (simp add: alone_defs split: option.splits)

lemma remove_start:
  assumes "t < length ps" "ps ! t = Idle"
  shows "run_events (Remove t key # moves (k + 2) t)
      \<lparr>shared = \<lparr>rlist = l, nodes = h, holder = None\<rparr>, pcs = ps\<rparr> =
    (case take_out key \<lparr>rlist = l, nodes = h, holder = Some t\<rparr> of
       None \<Rightarrow> None
     | Some (p, m) \<Rightarrow> run_events (moves k t) \<lparr>shared = m, pcs = ps[t := p]\<rparr>)"
  using assms by (simp add: alone_defs split: option.splits)

text \<open>Lines 123 to 137 and 174 to 197 as parts of the whole functions.\<close>

lemma take_out_alone:
  assumes run: "rcu_list_remove lk l key m = Inr (c, l', m')"
  shows "\<exists>r l1 m1. take_out key \<lparr>rlist = l, nodes = el_heap m, holder = Some t\<rparr> =
      Some (Writing (Draining r), \<lparr>rlist = l1, nodes = el_heap m1, holder = Some t\<rparr>) \<and>
    (\<forall>a. r = Some a \<longrightarrow> el_heap m1 a \<noteq> None) \<and> remove_commit lk l1 r m1 = Inr (c, l', m')"
proof (cases "head l")
  case None
  let ?m1 = "logk (WriteLock lk) m"
  from None run show ?thesis
    by (intro exI [of _ None] exI [of _ l] exI [of _ ?m1]) (simp add: rcu_list_remove_def take_out_def)
next
  case (Some a)
  let ?m1 = "logk (WriteLock lk) m"
  from Some run obtain e where e: "el_heap m a = Some e"
    by (auto simp: rcu_list_remove_def Let_def split: option.splits)
  show ?thesis
  proof (cases "e_level e = key")
    case True
    with run Some e show ?thesis
      by (intro exI [of _ "Some a"] exI [of _ "l\<lparr>head := e_next e\<rparr>"] exI [of _ ?m1])
        (simp add: rcu_list_remove_def take_out_def)
  next
    case False
    with run Some e obtain r where f: "find_pred (el_heap m) key (Some a) = Some (Inr r)"
      by (auto simp: rcu_list_remove_def loop_res_eq_Inr Let_def)
    show ?thesis
    proof (cases r)
      case None
      with run Some e False f show ?thesis
        by (intro exI [of _ None] exI [of _ l] exI [of _ ?m1]) (simp add: rcu_list_remove_def take_out_def)
    next
      case p: (Some p)
      let ?pe = "the (el_heap m p)"
      let ?b = "the (e_next ?pe)"
      from run Some e False f p obtain re where re: "el_heap m ?b = Some re"
        "remove_commit lk l (Some ?b) (?m1\<lparr>el_heap := (el_heap m)(p \<mapsto> ?pe\<lparr>e_next := e_next re\<rparr>)\<rparr>) = Inr (c, l', m')"
        by (auto simp: rcu_list_remove_def Let_def case_stuck)
      with Some e False f p show ?thesis
        by (intro exI [of _ "Some ?b"] exI [of _ l]
            exI [of _ "?m1\<lparr>el_heap := (el_heap m)(p \<mapsto> ?pe\<lparr>e_next := e_next re\<rparr>)\<rparr>"])
          (simp add: take_out_def Let_def)
    qed
  qed
qed

lemma remove_alone:
  assumes t: "t < length ps" "ps ! t = Idle"
    and run: "rcu_list_remove lk l key m = Inr (c, l', m')"
  shows "run_events (Remove t key # moves (5 + 2) t)
      \<lparr>shared = \<lparr>rlist = l, nodes = el_heap m, holder = None\<rparr>, pcs = ps\<rparr> =
    Some \<lparr>shared = \<lparr>rlist = l', nodes = el_heap m', holder = None\<rparr>, pcs = ps\<rparr>"
proof -
  from take_out_alone [OF run, of t] obtain r l1 m1 where
    s: "take_out key \<lparr>rlist = l, nodes = el_heap m, holder = Some t\<rparr> =
      Some (Writing (Draining r), \<lparr>rlist = l1, nodes = el_heap m1, holder = Some t\<rparr>)"
    "\<forall>a. r = Some a \<longrightarrow> el_heap m1 a \<noteq> None" "remove_commit lk l1 r m1 = Inr (c, l', m')" by blast
  from remove_commit_alone [OF t(1) s(3)] s(2) have
    "run_events (moves 5 t) \<lparr>shared = \<lparr>rlist = l1, nodes = el_heap m1, holder = Some t\<rparr>,
        pcs = ps[t := Writing (Draining r)]\<rparr> =
      Some \<lparr>shared = \<lparr>rlist = l', nodes = el_heap m', holder = None\<rparr>, pcs = ps[t := Idle]\<rparr>" by blast
  with s(1) t(2) show ?thesis unfolding remove_start [OF t] by simp
qed

lemma upd_Some: "h b = Some y \<Longrightarrow> (h(a \<mapsto> z)) b \<noteq> None"
  by simp

lemma linking_alone:
  assumes "t < length ps" "h a = Some x" "h b = Some y"
  shows "run_events (moves 5 t)
      \<lparr>shared = \<lparr>rlist = l, nodes = h, holder = H\<rparr>, pcs = ps[t := Writing (Linking a b)]\<rparr> =
    run_events (moves 4 t) \<lparr>shared = \<lparr>rlist = l, nodes = h(a \<mapsto> x\<lparr>e_next := e_next y\<rparr>), holder = H\<rparr>,
      pcs = ps[t := Writing (Flipping (Some b))]\<rparr>"
proof -
  have "moves 5 t = Move t # moves 4 t" by (simp add: eval_nat_numeral)
  then show ?thesis using assms by (simp add: link_replaced_def put_thread_def)
qed

lemma put_in_place_alone:
  assumes t: "t < length ps" "ps ! t = Idle"
    and run: "rcu_list_replace alloc lk l key msg sz m = Inr (c, l', m')" "alloc (el_heap m) = Some a"
  shows "\<exists>k p m2. put_in_place key a
        \<lparr>rlist = l, nodes = (el_heap m)(a \<mapsto> new_element key msg sz), holder = Some t\<rparr> = Some (p, m2) \<and>
      run_events (moves k t) \<lparr>shared = m2, pcs = ps[t := p]\<rparr> =
        Some \<lparr>shared = \<lparr>rlist = l', nodes = el_heap m', holder = lock_after lk t m'\<rparr>,
              pcs = ps\<rparr>"
proof -
  let ?h = "(el_heap m)(a \<mapsto> new_element key msg sz)"
  let ?m1 = "logk (WriteLock lk) (m\<lparr>el_heap := ?h\<rparr>)"
  let ?s = "\<lparr>rlist = l, nodes = ?h, holder = Some t\<rparr>"
  note C = replace_commit_alone [OF t(1)]
  note R = run(1) [unfolded rcu_list_replace_def run(2) option.case Let_def]
  show ?thesis
  proof (cases "head l")
    case None
    with R t show ?thesis by (intro exI [of _ 0]) (auto simp: put_in_place_def lock_after_def)
  next
    case (Some b)
    with R obtain e where e: "?h b = Some e" by (auto simp: case_stuck simp del: fun_upd_apply)
    show ?thesis
    proof (cases "e_level e = key")
      case True
      with R Some e have r: "replace_commit lk (l\<lparr>head := Some a\<rparr>) b
          (?m1\<lparr>el_heap := ?h(a \<mapsto> (new_element key msg sz)\<lparr>e_next := e_next e\<rparr>)\<rparr>) = Inr (c, l', m')"
        by (simp del: fun_upd_apply)
      from C [OF r] e Some True t show ?thesis
        by (intro exI [of _ 4]) (auto simp: put_in_place_def lock_after_def split: if_splits)
    next
      case False
      with R Some e obtain r where f: "find_pred ?h key (Some b) = Some (Inr r)"
        by (auto simp: loop_res_eq_Inr simp del: fun_upd_apply)
      show ?thesis
      proof (cases r)
        case None
        with R Some e False f t show ?thesis
          by (intro exI [of _ 0]) (auto simp: put_in_place_def lock_after_def simp del: fun_upd_apply)
      next
        case p: (Some p)
        let ?pe = "the (?h p)"
        let ?b = "the (e_next ?pe)" and ?h1 = "?h(p \<mapsto> ?pe\<lparr>e_next := Some a\<rparr>)"
        from R Some e False f p obtain re where re: "?h1 ?b = Some re"
          and r: "replace_commit lk l ?b
            (?m1\<lparr>el_heap := ?h1(a \<mapsto> (new_element key msg sz)\<lparr>e_next := e_next re\<rparr>)\<rparr>) = Inr (c, l', m')"
          by (auto simp: case_stuck simp del: fun_upd_apply)
        obtain x where x: "?h1 a = Some x"
          "x\<lparr>e_next := e_next re\<rparr> = (new_element key msg sz)\<lparr>e_next := e_next re\<rparr>"
          by (cases "p = a") auto
        have "put_in_place key a ?s = Some (Writing (Linking a ?b), ?s\<lparr>nodes := ?h1\<rparr>)"
          using Some e False f p by (simp add: put_in_place_def Let_def del: fun_upd_apply)
        moreover note linking_alone [OF t(1) x(1) re, of l "Some t"]
        moreover have "(?h1(a \<mapsto> (new_element key msg sz)\<lparr>e_next := e_next re\<rparr>)) ?b \<noteq> None"
          by (rule upd_Some [where h = ?h1 and y = re]) (rule re)
        ultimately show ?thesis using C [OF r] t(2) x(2)
          by (intro exI [of _ 5]) (simp add: lock_after_def del: fun_upd_apply)
      qed
    qed
  qed
qed

text \<open>The function that an event starts, as a whole; \<^verbatim>\<open>kmalloc\<close> answers the address given.\<close>

definition whole_call :: "event \<Rightarrow> lock \<Rightarrow> rcu_list \<Rightarrow> kmem \<Rightarrow> (c_int \<times> rcu_list \<times> kmem) res" where
  "whole_call ev lk l m = (case ev of
     Insert t a key msg sz \<Rightarrow> rcu_list_insert (\<lambda>h. Some a) lk l key msg sz m
   | Replace t a key msg sz \<Rightarrow> rcu_list_replace (\<lambda>h. Some a) lk l key msg sz m
   | Remove t key \<Rightarrow> rcu_list_remove lk l key m
   | _ \<Rightarrow> Inl Fault)"

definition starts :: "event \<Rightarrow> nat \<Rightarrow> el_store \<Rightarrow> bool" where
  "starts ev t h = (case ev of
     Insert u a key msg sz \<Rightarrow> u = t \<and> h a = None
   | Replace u a key msg sz \<Rightarrow> u = t \<and> h a = None
   | Remove u key \<Rightarrow> u = t
   | _ \<Rightarrow> False)"

text \<open>C13: A writer that runs alone, step by step, ends with the list and the nodes that
  \<^verbatim>\<open>rcu_list_insert\<close>, \<^verbatim>\<open>rcu_list_remove\<close> and \<^verbatim>\<open>rcu_list_replace\<close> compute as whole functions, and
  with the lock as these have left it: the functions of \<open>RcuList\<close> are runs of the machine.\<close>

theorem writers_alone:
  assumes t: "t < length ps" "ps ! t = Idle" "starts ev t (el_heap m)"
    and run: "whole_call ev lk l m = Inr (c, l', m')"
  shows "\<exists>k. run_events (ev # moves k t)
      \<lparr>shared = \<lparr>rlist = l, nodes = el_heap m, holder = None\<rparr>, pcs = ps\<rparr> =
    Some \<lparr>shared = \<lparr>rlist = l', nodes = el_heap m', holder = lock_after lk t m'\<rparr>, pcs = ps\<rparr>"
proof (cases ev)
  case (Insert u a key msg sz)
  with run have r: "rcu_list_insert (\<lambda>h. Some a) lk l key msg sz m = Inr (c, l', m')"
    by (simp add: whole_call_def)
  then have "lock_after lk t m' = None"
    by (auto simp: rcu_list_insert_def Let_def lock_after_def split: if_splits)
  moreover have "run_events (Insert t a key msg sz # moves 6 t)
      \<lparr>shared = \<lparr>rlist = l, nodes = el_heap m, holder = None\<rparr>, pcs = ps\<rparr> =
    Some \<lparr>shared = \<lparr>rlist = l', nodes = el_heap m', holder = None\<rparr>, pcs = ps\<rparr>"
    by (rule insert_alone [OF t(1,2) _ _ r]) (use Insert t(3) in \<open>simp_all add: starts_def\<close>)
  ultimately show ?thesis using Insert t(3) by (intro exI [of _ 6]) (simp add: starts_def del: run_events.simps)
next
  case (Replace u a key msg sz)
  with run have r: "rcu_list_replace (\<lambda>h. Some a) lk l key msg sz m = Inr (c, l', m')"
    by (simp add: whole_call_def)
  from put_in_place_alone [OF t(1,2) r refl] obtain k p m2 where
    "put_in_place key a \<lparr>rlist = l, nodes = (el_heap m)(a \<mapsto> new_element key msg sz), holder = Some t\<rparr> =
       Some (p, m2)"
    "run_events (moves k t) \<lparr>shared = m2, pcs = ps[t := p]\<rparr> =
       Some \<lparr>shared = \<lparr>rlist = l', nodes = el_heap m', holder = lock_after lk t m'\<rparr>, pcs = ps\<rparr>"
    by blast
  with Replace t replace_start [OF t(1,2), of "el_heap m" a key msg sz k l] show ?thesis
    by (intro exI [of _ "k + 2"]) (simp add: starts_def del: run_events.simps replicate.simps)
next
  case (Remove u key)
  with run have r: "rcu_list_remove lk l key m = Inr (c, l', m')" by (simp add: whole_call_def)
  then have "lock_after lk t m' = None"
    by (auto simp: remove_commit_def case_stuck Let_def lock_after_def split: if_splits option.splits
        dest!: take_out_alone)
  with remove_alone [OF t(1,2) r] Remove t(3) show ?thesis
    by (intro exI [of _ "5 + 2"]) (simp add: starts_def del: run_events.simps replicate.simps)
qed (use run in \<open>simp_all add: whole_call_def\<close>)

text \<open>A list of two nodes, the second replaced.\<close>

definition pair_mem :: kmem where
  "pair_mem = \<lparr>el_heap = [10 \<mapsto> \<lparr>e_next = Some 11, e_level = 0, e_message = [0], e_size = 1\<rparr>,
                         11 \<mapsto> \<lparr>e_next = None, e_level = 1, e_message = [1], e_size = 1\<rparr>], klog = []\<rparr>"

definition pair_list :: rcu_list where
  "pair_list = rcu_list_init\<lparr>head := Some 10\<rparr>"

theorem writers_alone_witness:
  "\<exists>k s. run_events (Replace 0 12 1 [7] 1 # moves k 0)
      \<lparr>shared = \<lparr>rlist = pair_list, nodes = el_heap pair_mem, holder = None\<rparr>, pcs = [Idle]\<rparr> = Some s \<and>
    nodes (shared s) 11 = None \<and> map_option e_message (nodes (shared s) 12) = Some [7] \<and>
    holder (shared s) = None \<and> pcs s = [Idle]"
proof -
  have "(case whole_call (Replace 0 12 1 [7] 1) (ListLock 0) pair_list pair_mem of
      Inl e \<Rightarrow> False | Inr (c, l, m) \<Rightarrow> el_heap m 11 = None \<and>
        map_option e_message (el_heap m 12) = Some [7] \<and> lock_after (ListLock 0) 0 m = None)" by code_simp
  then obtain c l' m' where w: "whole_call (Replace 0 12 1 [7] 1) (ListLock 0) pair_list pair_mem = Inr (c, l', m')"
    "el_heap m' 11 = None" "map_option e_message (el_heap m' 12) = Some [7]" "lock_after (ListLock 0) 0 m' = None"
    by (auto split: sum.splits)
  have "\<exists>k. run_events (Replace 0 12 1 [7] 1 # moves k 0)
      \<lparr>shared = \<lparr>rlist = pair_list, nodes = el_heap pair_mem, holder = None\<rparr>, pcs = [Idle]\<rparr> =
    Some \<lparr>shared = \<lparr>rlist = l', nodes = el_heap m', holder = lock_after (ListLock 0) 0 m'\<rparr>, pcs = [Idle]\<rparr>"
    by (rule writers_alone [OF _ _ _ w(1)]) (simp_all add: starts_def pair_mem_def)
  with w(2-4) show ?thesis by fastforce
qed

end
