(* ===== verification/Threads.thy ===== *)
theory Threads
  imports Calls
begin

text \<open>
  Threads that sleep in \<^verbatim>\<open>tag_receive\<close> while others call the module.  A state is the state of
  the module and, for each sleeping thread, what it keeps on its stack: the pointer to the
  service, the level and the epoch it has read.  The steps are a whole call of another thread,
  a thread that goes to sleep, one that leaves its sleep because the wake flag of its level is
  up, and one that a signal interrupts.
\<close>

section \<open>States and steps\<close>

record sleeper =
  at_addr :: addr
  at_ix :: nat
  at_level :: c_int
  at_epoch :: nat

record sys =
  ker :: kstate
  asleep :: "nat \<Rightarrow> sleeper option"

definition dequeue :: "nat \<Rightarrow> nat \<Rightarrow> rcu_list \<Rightarrow> rcu_list" where
  "dequeue pid j l = l\<lparr>readerQueue := (readerQueue l)[j := removeAll pid (readerQueue l ! j)]\<rparr>"

text \<open>\<open>ok\<close> restricts the calls that other threads make.\<close>

inductive sys_step :: "(call \<Rightarrow> bool) \<Rightarrow> sys \<Rightarrow> sys \<Rightarrow> bool" for ok :: "call \<Rightarrow> bool" where
  st_call: "env_sound env \<Longrightarrow> ok c \<Longrightarrow> run_call env (ker w) c = Inr (r, s') \<Longrightarrow>
    sys_step ok w (w\<lparr>ker := s'\<rparr>)"
| st_sleep: "asleep w p = None \<Longrightarrow>
    a_receive_check env (rooms_of (ker w)) tag level False sz = None \<Longrightarrow> level_ix level = Some j \<Longrightarrow>
    slot (ker w) (unat tag) = Some a \<Longrightarrow> sv_heap (ker w) a = Some sv \<Longrightarrow>
    sys_step ok w (w\<lparr>ker := queue_reader p a j (receive_sleep a j (ker w)),
      asleep := (asleep w)(p \<mapsto> \<lparr>at_addr = a, at_ix = j, at_level = level, at_epoch = epoch (levels sv)\<rparr>)\<rparr>)"
| st_wake: "asleep w p = Some x \<Longrightarrow> sv_heap (ker w) (at_addr x) = Some sv \<Longrightarrow>
    p \<notin> set (readerQueue (levels sv) ! at_ix x) \<Longrightarrow> ready (levels sv) ! at_ix x = 1 \<Longrightarrow>
    search_leave (el_heap (mem (ker w))) (levels sv) (at_epoch x) (at_level x) False = Inr (e, l) \<Longrightarrow>
    sys_step ok w (w\<lparr>ker := klogs ModulePut (set_levels (at_addr x) sv l (ker w)),
      asleep := (asleep w)(p := None)\<rparr>)"
| st_signal: "asleep w p = Some x \<Longrightarrow> sv_heap (ker w) (at_addr x) = Some sv \<Longrightarrow>
    search_leave (el_heap (mem (ker w))) (dequeue p (at_ix x) (levels sv)) (at_epoch x) (at_level x) True =
      Inr (e, l) \<Longrightarrow>
    sys_step ok w (w\<lparr>ker := klogs ModulePut (set_levels (at_addr x) sv l (ker w)),
      asleep := (asleep w)(p := None)\<rparr>)"

text \<open>The module is loaded on a cleared table and nobody sleeps.\<close>

definition sys_init :: "sys \<Rightarrow> bool" where
  "sys_init w \<longleftrightarrow> (\<exists>s. ker w = booted s) \<and> asleep w = Map.empty"

section \<open>The invariant\<close>

definition sys_inv :: "sys \<Rightarrow> bool" where
  "sys_inv w \<longleftrightarrow> kinv (ker w) \<and>
     (\<forall>p x. asleep w p = Some x \<longrightarrow> at_epoch x < 2 \<and> level_ix (at_level x) = Some (at_ix x))"

text \<open>A change of a service that is not in the table.\<close>

lemma off_table:
  assumes inv: "kinv s" and off: "\<And>i. slot s i \<noteq> Some a"
  shows "kinv (set_levels a sv l s) \<and> slot (set_levels a sv l s) = slot s \<and>
    svc_at (set_levels a sv l s) = svc_at s"
proof -
  let ?s = "set_levels a sv l s"
  have tbl: "slots ?s = slots s" "used ?s = used s" "tagServices ?s = tagServices s"
      "serviceCount ?s = serviceCount s" "MAX_SERVICE_NUM ?s = MAX_SERVICE_NUM s"
      "sv_heap ?s = (sv_heap s)(a \<mapsto> sv\<lparr>levels := l\<rparr>)"
    by (simp_all add: slots_def used_def set_levels_def)
  have slot: "slot ?s = slot s" by (simp add: slot_def tbl fun_eq_iff)
  have at: "svc_at ?s = svc_at s"
    using off by (auto simp: svc_at_def slot fun_eq_iff tbl split: option.splits)
  have "kinv ?s"
  proof (rule kinvI)
    show "sv_heap ?s b \<noteq> None" if "slot ?s i = Some b" for i b
      using that off [of i] inv unfolding kinv_def slot by (auto simp: set_levels_def)
    show "rcu_foot (mem ?s) (levels x) \<inter> rcu_foot (mem ?s) (levels y) = {}"
      if "svc_at ?s i = Some x" "svc_at ?s j = Some y" "i < j" for i j x y
      using that kinv_disjoint [OF inv, of i x j y] by (simp add: at)
    show "sv_key x = TAG_IPC_PRIVATE"
      if "svc_at ?s i = Some x" "svc_at ?s j = Some y" "i < j" "sv_key x = sv_key y" for i j x y
      using that kinv_keys [OF inv, of i x j y] by (simp add: at)
  qed (use inv kinv_slots [OF inv] kinv_count [OF inv] kinv_wf [OF inv] tbl at in auto)
  with slot at show ?thesis by simp
qed

text \<open>Whatever a thread leaves behind, in a service that is in the table or not.\<close>

lemma leave_keeps:
  assumes inv: "kinv s" and sv: "sv_heap s a = Some sv"
    and l: "\<And>i. slot s i = Some a \<Longrightarrow> head l = head (levels sv) \<and> quiet l"
  shows "kinv (set_levels a sv l s) \<and> slot (set_levels a sv l s) = slot s"
proof (cases "\<exists>i. slot s i = Some a")
  case True
  then obtain i where i: "slot s i = Some a" by blast
  with same_nodes_update [OF inv i sv] l [OF i] show ?thesis by blast
next
  case False
  with off_table [OF inv, of a sv l] show ?thesis by blast
qed

lemma wake_leaves:
  assumes inv: "kinv s" and sl: "slot s i = Some a" and sv: "sv_heap s a = Some sv"
    and j: "level_ix level = Some j" and ep: "ep < 2"
    and run: "search_leave (el_heap (mem s)) (levels sv) ep level False = Inr (e, l)"
  shows "head l = head (levels sv) \<and> quiet l"
proof -
  have at: "svc_at s i = Some sv" using sl sv by (simp add: svc_at_def)
  have q: "quiet (levels sv)" using kinv_rcu_ok [OF inv at] by (simp add: rcu_ok_def)
  from search_leave_woken [OF kinv_rcu_ok [OF inv at] j ep] run
  have "l = (levels sv)\<lparr>waiters := (waiters (levels sv))[j := waiters (levels sv) ! j - 1]\<rparr>" by auto
  with q show ?thesis by (simp add: quiet_def)
qed

lemma signal_leaves:
  assumes q: "quiet l0" and j: "level_ix level = Some j" and ep: "ep < 2"
    and run: "search_leave h (dequeue p j l0) ep level True = Inr (e, l)"
  shows "head l = head l0 \<and> quiet l"
proof -
  have "quiet (dequeue p j l0)" using q by (simp add: dequeue_def quiet_def)
  with run ep show ?thesis
    unfolding search_leave_signalled [OF j]
    by (auto simp: add_standing_def quiet_def nth_list_update dequeue_def)
qed

lemma sys_inv_step:
  assumes "sys_inv w" "sys_step ok w w'"
  shows "sys_inv w'"
  using assms(2)
proof cases
  case (st_call env c r s')
  with assms(1) run_call_safe [of env "ker w" c] show ?thesis by (simp add: sys_inv_def)
next
  case 2: (st_sleep p env tag level sz j a sv)
  have inv: "kinv (ker w)" using assms(1) by (simp add: sys_inv_def)
  note R = receive_sleep_ok [OF inv 2(5), of j]
  have sl: "slot (receive_sleep a j (ker w)) (unat tag) = Some a" using R(2) 2(5) by simp
  from kinv_slot [OF R(1) sl] obtain sv1 where "sv_heap (receive_sleep a j (ker w)) a = Some sv1" by auto
  from queue_reader_ok(1) [OF R(1) sl this, of p j]
  have "kinv (queue_reader p a j (receive_sleep a j (ker w)))" .
  moreover have "epoch (levels sv) < 2"
    using kinv_rcu_ok [OF inv, of "unat tag" sv] 2(5,6) by (simp add: rcu_ok_def quiet_def svc_at_def)
  ultimately show ?thesis using assms(1) 2 by (simp add: sys_inv_def)
next
  case 3: (st_wake p x sv e l)
  from assms(1) 3 have x: "at_epoch x < 2" "level_ix (at_level x) = Some (at_ix x)" "kinv (ker w)"
    by (auto simp: sys_inv_def)
  have "kinv (set_levels (at_addr x) sv l (ker w))"
    using leave_keeps [OF x(3) 3(3)] wake_leaves [OF x(3) _ 3(3) x(2,1) 3(6)] by blast
  with assms(1) 3 show ?thesis by (simp add: sys_inv_def)
next
  case 4: (st_signal p x sv e l)
  from assms(1) 4 have x: "at_epoch x < 2" "level_ix (at_level x) = Some (at_ix x)" "kinv (ker w)"
    by (auto simp: sys_inv_def)
  have "head l = head (levels sv) \<and> quiet l" if "slot (ker w) i = Some (at_addr x)" for i
  proof -
    have "quiet (levels sv)"
      using kinv_rcu_ok [OF x(3), of i sv] that 4(3) by (simp add: rcu_ok_def svc_at_def)
    from signal_leaves [OF this x(2,1) 4(4)] show ?thesis .
  qed
  then have "kinv (set_levels (at_addr x) sv l (ker w))" using leave_keeps [OF x(3) 4(3)] by blast
  with assms(1) 4 show ?thesis by (simp add: sys_inv_def)
qed

interpretation sys: machine_invariant sys_init "sys_step ok" sys_inv for ok
proof
  show "sys_inv w" if "sys_init w" for w
    using that by (auto simp: sys_init_def sys_inv_def)
  show "sys_inv w'" if "sys_inv w" "sys_step ok w w'" for w w'
    using that by (rule sys_inv_step)
qed

section \<open>Without removals\<close>

definition no_remove :: "call \<Rightarrow> bool" where
  "no_remove c = (case c of Ctl tag command \<Rightarrow> command \<noteq> REMOVE | _ \<Rightarrow> True)"

text \<open>Every sleeping thread's service is in the table.\<close>

definition sleepers_safe :: "sys \<Rightarrow> bool" where
  "sleepers_safe w \<longleftrightarrow> sys_inv w \<and>
     (\<forall>p x. asleep w p = Some x \<longrightarrow> (\<exists>i. slot (ker w) i = Some (at_addr x)))"

definition keeps_slots :: "kstate \<Rightarrow> kstate \<Rightarrow> bool" where
  "keeps_slots s s' \<longleftrightarrow> (\<forall>i a. slot s i = Some a \<longrightarrow> slot s' i = Some a)"

lemma keeps_slots_same: "slots s' = slots s \<Longrightarrow> keeps_slots s s'"
  by (simp add: keeps_slots_def slot_def)

lemma keeps_slots_klogs [simp]:
  "keeps_slots (klogs c s) s' = keeps_slots s s'" "keeps_slots s (klogs c s') = keeps_slots s s'"
  by (simp_all add: keeps_slots_def)

lemma keeps_slots_count [simp]: "keeps_slots s (s'\<lparr>serviceCount := n\<rparr>) = keeps_slots s s'"
  by (simp add: keeps_slots_def slot_def slots_def)

lemma keeps_slots_levels [simp]: "keeps_slots s (set_levels a sv l (s'\<lparr>mem := m\<rparr>)) = keeps_slots s s'"
  by (simp add: keeps_slots_def slot_def slots_def set_levels_def)

lemma keeps_slots_refl [simp]: "keeps_slots s s"
  by (simp add: keeps_slots_def)

lemma new_keeps_slots:
  assumes "new_TAG_Service env s k uid p = Inr (x, s')"
  shows "keeps_slots s s'"
proof (cases "tagServices s")
  case None
  with assms show ?thesis by (simp add: new_TAG_Service_def)
next
  case (Some ps)
  show ?thesis
  proof (cases "first_index (\<lambda>x. x = None) ps")
    case None
    with assms Some show ?thesis by (simp add: new_TAG_Service_def)
  next
    case i: (Some i)
    with assms Some obtain a where "tagServices s' = Some (ps[i := Some a])"
      by (auto simp: new_TAG_Service_def split: option.splits)
    then show ?thesis
      using first_index_Some [OF i] Some
      by (auto simp: keeps_slots_def slot_def slots_def nth_list_update split: if_splits)
  qed
qed

lemma CREATE_keeps_slots: "tag_get_CREATE env s k p = Inr (r, s') \<Longrightarrow> keeps_slots s s'"
  by (auto simp: tag_get_CREATE_def put_return_def Let_def case_stuck case_Inr_split dest!: new_keeps_slots
      split: if_splits)

lemma OPEN_keeps_slots: "tag_get_OPEN env s k = Inr (r, s') \<Longrightarrow> keeps_slots s s'"
  by (auto simp: tag_get_OPEN_def put_return_def Let_def case_stuck case_Inr_split split: if_splits)

lemma tag_get_keeps_slots: "tag_get env s k command p = Inr (r, s') \<Longrightarrow> keeps_slots s s'"
  by (auto simp: tag_get_def put_return_def Let_def dest!: CREATE_keeps_slots OPEN_keeps_slots
      split: if_splits)

lemma AWAKE_keeps_slots: "tag_ctl_TBDE_AWAKE_ALL env s tag = Inr (r, s') \<Longrightarrow> keeps_slots s s'"
  by (auto simp: tag_ctl_TBDE_AWAKE_ALL_def put_return_def Let_def case_prod_beta case_stuck
      case_Inr_split split: if_splits)

lemma call_keeps_slots:
  assumes "no_remove c" "kinv s" "run_call env s c = Inr (r, s')"
  shows "keeps_slots s s'"
proof (cases c)
  case (Get k command p)
  with assms(3) show ?thesis by (simp add: tag_get_keeps_slots)
next
  case (Send tag level buffer sz)
  with assms(2,3) show ?thesis by (simp add: keeps_slots_same tag_send_frame)
next
  case (Ctl tag command)
  with assms(1,3) show ?thesis
    by (auto simp: no_remove_def tag_ctl_def put_return_def Let_def dest!: AWAKE_keeps_slots split: if_splits)
qed

lemma sleepers_safe_step:
  assumes safe: "sleepers_safe w" and step: "sys_step no_remove w w'"
  shows "sleepers_safe w'"
proof -
  have inv: "kinv (ker w)" "sys_inv w" using safe by (simp_all add: sleepers_safe_def sys_inv_def)
  have "\<exists>i. slot (ker w') i = Some (at_addr x)" if x: "asleep w' p = Some x" for p x
    using step
  proof cases
    case (st_call env c r s')
    with x safe obtain i where "slot (ker w) i = Some (at_addr x)" by (auto simp: sleepers_safe_def)
    with call_keeps_slots [OF st_call(3) inv(1) st_call(4)] st_call(1) show ?thesis
      by (auto simp: keeps_slots_def)
  next
    case 2: (st_sleep q env tag level sz j a sv)
    note R = receive_sleep_ok [OF inv(1) 2(5), of j]
    have sl: "slot (receive_sleep a j (ker w)) (unat tag) = Some a" using R(2) 2(5) by simp
    from kinv_slot [OF R(1) sl] obtain sv1 where "sv_heap (receive_sleep a j (ker w)) a = Some sv1" by auto
    from queue_reader_ok(2) [OF R(1) sl this, of q j] R(2)
    have "slot (queue_reader q a j (receive_sleep a j (ker w))) = slot (ker w)" by simp
    with 2 x safe show ?thesis by (auto simp: sleepers_safe_def split: if_splits)
  next
    case 3: (st_wake q y sv e l)
    have "slot (set_levels (at_addr y) sv l (ker w)) = slot (ker w)"
      by (simp add: slot_def slots_def set_levels_def fun_eq_iff)
    with 3(1) x safe show ?thesis by (auto simp: sleepers_safe_def split: if_splits)
  next
    case 4: (st_signal q y sv e l)
    have "slot (set_levels (at_addr y) sv l (ker w)) = slot (ker w)"
      by (simp add: slot_def slots_def set_levels_def fun_eq_iff)
    with 4(1) x safe show ?thesis by (auto simp: sleepers_safe_def split: if_splits)
  qed
  with sys_inv_step [OF inv(2) step] show ?thesis by (simp add: sleepers_safe_def)
qed

interpretation quiet_sys: machine_invariant sys_init "sys_step no_remove" sleepers_safe
proof
  show "sleepers_safe w" if "sys_init w" for w
    using that sys.inv_init [of w] by (auto simp: sys_init_def sleepers_safe_def)
  show "sleepers_safe w'" if "sleepers_safe w" "sys_step no_remove w w'" for w w'
    using that by (rule sleepers_safe_step)
qed

end
