(* ===== verification/RcuReaders.thy ===== *)
theory RcuReaders
  imports RcuRuns Threads
begin

text \<open>
  A reader that runs alone up to its sleep, and from its wake-up on, does what \<open>search_enter\<close> and
  \<open>search_leave\<close> compute: the sleeps and wake-ups of \<open>Threads\<close> are runs of the machine, as the
  writers of \<open>RcuList\<close> are.
\<close>

lemma run_two: "run_events xs s = Some s1 \<Longrightarrow> run_events ys s1 = Some s' \<Longrightarrow> run_events (xs @ ys) s = Some s'"
  by (simp add: run_events_append)

abbreviation alone :: "rcu_list \<Rightarrow> el_store \<Rightarrow> nat option \<Rightarrow> pc list \<Rightarrow> rcu_sys" where
  "alone l h H ps \<equiv> \<lparr>shared = \<lparr>rlist = l, nodes = h, holder = H\<rparr>, pcs = ps\<rparr>"

lemmas reader_defs = put_thread_def begin_call_def on_list_def set_ready_def set_waiters_def set_queue_def ix_def

text \<open>From the call to the sleep.\<close>

lemma enter_alone:
  assumes j: "level_ix key = Some j" and q: "quiet l" and t: "t < length ps" "ps ! t = Idle"
    and no: "t \<notin> set (readerQueue l ! j)" and run: "search_enter l key = Inr (e, l')"
  shows "run_events (Search t key # moves 7 t) (alone l h H ps) =
    Some (alone (enqueue t j l') h H (ps[t := Reading (Parked key e)]))"
proof -
  have len: "j < length (ready l)" "j < length (waiters l)" "j < length (readerQueue l)"
    using level_ix_Some [OF j] q by (simp_all add: quiet_def)
  have l': "l' = l\<lparr>ready := (ready l)[j := 0], waiters := (waiters l)[j := waiters l ! j + 1]\<rparr>" "e = epoch l"
    using run j by (simp_all add: search_enter_eq)
  show ?thesis
    using t j len no by (simp add: eval_nat_numeral reader_defs l' enqueue_def)
qed

text \<open>From the wake-up to the return.\<close>

lemma wake_alone:
  assumes j: "level_ix key = Some j" and q: "quiet l" and t: "t < length ps" "ps ! t = Reading (Parked key e)"
    and no: "t \<notin> set (readerQueue l ! j)" and rdy: "ready l ! j = 1"
  shows "run_events (moves 5 t) (alone l h H ps) =
    Some (alone (add_standing e 1 l) h H (ps[t := Reading (Walking key e (e = epoch l) (head l))]))"
proof -
  have len: "j < length (readerQueue l)" using level_ix_Some [OF j] q by (simp add: quiet_def)
  have "l\<lparr>readerQueue := readerQueue l\<rparr> = l" by simp
  then show ?thesis
    using t j len no rdy by (simp add: eval_nat_numeral reader_defs add_standing_def)
qed

lemma leaving_alone:
  assumes j: "level_ix key = Some j" and t: "t < length ps" "ps ! t = Reading (Uncounting key e c p)"
  shows "run_events (moves 3 t) (alone l h H ps) =
    Some (alone ((add_standing e (- 1) l)\<lparr>waiters := (waiters l)[j := waiters l ! j - 1]\<rparr>) h H
      (ps[t := Reading (Returned p)]))"
  using t j by (simp add: eval_nat_numeral reader_defs add_standing_def)

lemma leave_alone:
  assumes ok: "rcu_ok m l" and j: "level_ix key = Some j" and t: "t < length ps" "ps ! t = Reading (Parked key e)"
    and no: "t \<notin> set (readerQueue l ! j)" and rdy: "ready l ! j = 1"
    and run: "search_leave (el_heap m) l e key False = Inr (p, l')"
  shows "\<exists>n. run_events (moves n t) (alone l (el_heap m) H ps) =
    Some (alone l' (el_heap m) H (ps[t := Reading (Returned p)]))"
proof -
  from ok obtain as where q: "quiet l" and ch: "chain (el_heap m) (head l) as" by (auto simp: rcu_ok_def)
  let ?l = "add_standing e 1 l" and ?p = "find (\<lambda>a. lev (el_heap m) a = key) as"
  let ?W = "ps[t := Reading (Walking key e (e = epoch l) (head l))]"
  let ?U = "ps[t := Reading (Uncounting key e (e = epoch l) ?p)]"
  have p: "p = ?p" and l': "l' = (add_standing e (- 1) ?l)\<lparr>waiters := (waiters l)[j := waiters l ! j - 1]\<rparr>"
    using run j by (auto simp: search_leave_def find_level_chain [OF ch] add_standing_def)
  note 1 = wake_alone [OF j q t no rdy, of "el_heap m" H]
  from walk_run [of "\<lparr>rlist = ?l, nodes = el_heap m, holder = H\<rparr>" "head l" as t ?W] ch t(1) obtain n where
    2: "run_events (moves n t) (alone ?l (el_heap m) H ?W) = Some (alone ?l (el_heap m) H ?U)" by auto
  have 3: "run_events (moves 3 t) (alone ?l (el_heap m) H ?U) =
      Some (alone l' (el_heap m) H (ps[t := Reading (Returned p)]))"
    using leaving_alone [OF j, of t ?U e _ ?p ?l] t(1) by (simp add: l' p add_standing_def)
  from run_two [OF run_two [OF 1 2] 3] show ?thesis
    by (simp only: replicate_add [symmetric]) blast
qed

text \<open>A signal.\<close>

lemma signal_alone:
  assumes j: "level_ix key = Some j" and t: "t < length ps" "ps ! t = Reading (Parked key e)"
    and run: "search_leave h (dequeue t j l) e key True = Inr (p, l')"
  shows "run_events (Signal t # moves 3 t) (alone l h H ps) = Some (alone l' h H (ps[t := Reading (Returned p)]))"
proof -
  let ?l = "dequeue t j l" and ?U = "ps[t := Reading (Uncounting key e False None)]"
  have r: "p = None" "l' = (add_standing e (- 1) ?l)\<lparr>waiters := (waiters ?l)[j := waiters ?l ! j - 1]\<rparr>"
    using run by (simp_all add: search_leave_signalled [OF j])
  have "run_events [Signal t] (alone l h H ps) = Some (alone ?l h H ?U)"
    using t j by (simp add: signal_step_def reader_defs dequeue_def)
  moreover have "run_events (moves 3 t) (alone ?l h H ?U) = Some (alone l' h H (ps[t := Reading (Returned p)]))"
    using leaving_alone [OF j, of t ?U e False None ?l h H] t(1) by (simp add: r)
  ultimately show ?thesis using run_two [of "[Signal t]"] by fastforce
qed

text \<open>C14: A reader that runs alone, one shared access at a time, computes what \<open>search_enter\<close> and
  \<open>search_leave\<close> compute as whole functions: it falls asleep with the level's flag cleared and
  \<^verbatim>\<open>waiters\<close> incremented; taken off the queue with the flag raised it returns the node the search
  finds, and with a signal it returns with the counters as the code leaves them.\<close>

theorem readers_alone:
  assumes "rcu_ok m l" "level_ix key = Some j" "t < length ps"
  shows "(\<forall>e l'. ps ! t = Idle \<longrightarrow> t \<notin> set (readerQueue l ! j) \<longrightarrow> search_enter l key = Inr (e, l') \<longrightarrow>
      (\<exists>n. run_events (Search t key # moves n t) (alone l (el_heap m) H ps) =
        Some (alone (enqueue t j l') (el_heap m) H (ps[t := Reading (Parked key e)])))) \<and>
    (\<forall>e p l'. ps ! t = Reading (Parked key e) \<longrightarrow> t \<notin> set (readerQueue l ! j) \<longrightarrow> ready l ! j = 1 \<longrightarrow>
      search_leave (el_heap m) l e key False = Inr (p, l') \<longrightarrow>
      (\<exists>n. run_events (moves n t) (alone l (el_heap m) H ps) =
        Some (alone l' (el_heap m) H (ps[t := Reading (Returned p)])))) \<and>
    (\<forall>e p l'. ps ! t = Reading (Parked key e) \<longrightarrow>
      search_leave (el_heap m) (dequeue t j l) e key True = Inr (p, l') \<longrightarrow>
      (\<exists>n. run_events (Signal t # moves n t) (alone l (el_heap m) H ps) =
        Some (alone l' (el_heap m) H (ps[t := Reading (Returned p)]))))"
proof -
  have q: "quiet l" using assms(1) by (simp add: rcu_ok_def)
  show ?thesis
    using enter_alone [OF assms(2) q assms(3)] leave_alone [OF assms(1,2,3)] signal_alone [OF assms(2,3)] by blast
qed

text \<open>A list with a message for level 0.\<close>

theorem readers_alone_witness:
  "\<exists>n m s s'. run_events (Search 0 0 # moves n 0) (alone pair_list (el_heap pair_mem) None [Idle]) = Some s \<and>
     pcs s = [Reading (Parked 0 0)] \<and>
     run_events (moves m 0) (alone (pair_list\<lparr>ready := replicate levelDeep 1\<rparr>) (el_heap pair_mem) None
       [Reading (Parked 0 0)]) = Some s' \<and> pcs s' = [Reading (Returned (Some 10))]"
proof -
  have ch: "chain (el_heap pair_mem) (Some 10) [10, 11]" by (simp add: pair_mem_def)
  have j: "level_ix 0 = Some 0" by (simp add: level_ix_def levelDeep_def)
  have "quiet pair_list" "quiet (pair_list\<lparr>ready := replicate levelDeep 1\<rparr>)" "head pair_list = Some 10"
    by (auto simp: pair_list_def quiet_def rcu_list_init_def less_2_cases_iff)
  then have ok: "rcu_ok pair_mem pair_list" "rcu_ok pair_mem (pair_list\<lparr>ready := replicate levelDeep 1\<rparr>)"
    using ch by (simp_all add: rcu_okI [where as = "[10, 11]"])
  have e: "\<exists>l'. search_enter pair_list 0 = Inr (epoch pair_list, l')" by (simp add: search_enter_eq [OF j])
  have ep: "epoch pair_list = 0" by (simp add: pair_list_def rcu_list_init_def)
  have f: "\<exists>l'. search_leave (el_heap pair_mem) (pair_list\<lparr>ready := replicate levelDeep 1\<rparr>) 0 0 False = Inr (Some 10, l')"
    using find_level_chain [OF ch, of 0] j by (simp add: search_leave_def pair_list_def pair_mem_def)
  have no: "readerQueue pair_list ! 0 = []" by (simp add: pair_list_def rcu_list_init_def levelDeep_def)
  from readers_alone [OF ok(1) j, of 0 "[Idle]" None] e ep no obtain n s where
    "run_events (Search 0 0 # moves n 0) (alone pair_list (el_heap pair_mem) None [Idle]) = Some s"
    "pcs s = [Reading (Parked 0 0)]" by (auto simp del: run_events.simps)
  moreover from readers_alone [OF ok(2) j, of 0 "[Reading (Parked 0 0)]" None] f no obtain k s' where
    "run_events (moves k 0) (alone (pair_list\<lparr>ready := replicate levelDeep 1\<rparr>) (el_heap pair_mem) None
       [Reading (Parked 0 0)]) = Some s'" "pcs s' = [Reading (Returned (Some 10))]"
    by (auto simp: levelDeep_def simp del: run_events.simps)
  ultimately show ?thesis by blast
qed

end
