(* ===== verification/RcuFailures.thy ===== *)
theory RcuFailures
  imports RcuProps
begin

text \<open>
  Runs in which the list of \<^verbatim>\<open>rcu-list.c\<close> fails its readers.  None of them has a signal or a
  removal: the threads only send, receive and awake.  Each is a schedule from the initialised
  list, evaluated.
\<close>

definition messages_only :: "event \<Rightarrow> bool" where
  "messages_only ev = (case ev of Signal t \<Rightarrow> False | Remove t key \<Rightarrow> False | _ \<Rightarrow> True)"

lemma evaluated_run:
  assumes "map_option f (run_events evs (rcu_boot n)) = Some x" "list_all ok evs"
  obtains s where "rcu_reach ok s" "f s = x" "run_events evs (rcu_boot n) = Some s"
  using assms reach_schedule by (auto intro: that)

section \<open>A reader that the epoch has overtaken\<close>

text \<open>The reader falls asleep in epoch 1; the send that wakes it has moved the list to epoch 0,
  so the reader counts itself in an epoch that nobody waits for.  The next send frees the node
  under it.\<close>

definition overtaken_schedule :: "event list" where
  "overtaken_schedule =
     Insert 0 10 0 [0] 0 # moves 6 0 @ Search 1 0 # moves 7 1 @
     Replace 0 11 0 [1] 1 # moves 6 0 @ [Raise 0 0, Wake 0 0] @ moves 5 1 @
     Replace 2 12 0 [2] 1 # moves 6 2"

text \<open>C30: There is a run of sends and one receive only, without signals, in which the reader,
  counted in but in the epoch it read before it slept, stands at a node that has been freed.\<close>

theorem overtaken_reader_dangles:
  "\<exists>s. rcu_reach messages_only s \<and>
     pcs s ! 1 = Reading (Walking 0 1 False (Some 11)) \<and> nodes (shared s) 11 = None"
proof -
  have run: "map_option (\<lambda>s. (pcs s ! 1, nodes (shared s) 11)) (run_events overtaken_schedule (rcu_boot 3)) =
      Some (Reading (Walking 0 1 False (Some 11)), None)" by code_simp
  have ok: "list_all messages_only overtaken_schedule" by code_simp
  show ?thesis by (rule evaluated_run [OF run ok]) auto
qed

section \<open>A node used after the search\<close>

definition returned_schedule :: "event list" where
  "returned_schedule =
     Insert 0 10 0 [0] 0 # moves 6 0 @ Search 1 0 # moves 7 1 @
     [Raise 0 0, Wake 0 0] @ moves 9 1 @ Replace 0 11 0 [1] 1 # moves 6 0"

text \<open>Also a reader of the current epoch may use a freed node: \<^verbatim>\<open>rcu_list_search\<close> gives up
  its place in \<^verbatim>\<open>standing\<close> before it returns the node, so a send frees the node before
  \<^verbatim>\<open>tag_receive\<close> has read its size and message.\<close>

theorem returned_node_freed:
  "\<exists>s. rcu_reach messages_only s \<and> pcs s ! 1 = Reading (Returned (Some 10)) \<and> nodes (shared s) 10 = None"
proof -
  have run: "map_option (\<lambda>s. (pcs s ! 1, nodes (shared s) 10)) (run_events returned_schedule (rcu_boot 2)) =
      Some (Reading (Returned (Some 10)), None)" by code_simp
  have ok: "list_all messages_only returned_schedule" by code_simp
  show ?thesis by (rule evaluated_run [OF run ok]) auto
qed

section \<open>A lost wake-up\<close>

definition parked_schedule :: "event list" where
  "parked_schedule = Insert 0 10 0 [0] 0 # moves 6 0 @ Search 1 0 # moves 7 1"

definition send_schedule :: "event list" where
  "send_schedule = Replace 0 11 0 [1] 1 # moves 6 0 @ [Raise 0 0, Wake 0 0] @ Search 2 0 # moves 7 2 @ moves 3 1"

text \<open>C31: A reader asleep on a level can miss the message sent to it.  Another reader of the
  level that starts between the wake-up and the sleeper's next test clears the flag, and both
  sleep: after the send no thread can move.\<close>

theorem wake_up_lost:
  "\<exists>s s'. rcu_reach messages_only s \<and> pcs s ! 1 = Reading (Parked 0 1) \<and>
     run_events send_schedule s = Some s' \<and> Raise 0 0 \<in> set send_schedule \<and> Wake 0 0 \<in> set send_schedule \<and>
     pcs s' = [Idle, Reading (Parked 0 1), Reading (Parked 0 0)] \<and> (\<forall>t. run_event (Move t) s' = None)"
proof -
  have run: "map_option (\<lambda>s. pcs s ! 1) (run_events parked_schedule (rcu_boot 3)) =
      Some (Reading (Parked 0 1))" by code_simp
  have ok: "list_all messages_only parked_schedule" by code_simp
  from evaluated_run [OF run ok] obtain s where s: "rcu_reach messages_only s"
    "pcs s ! 1 = Reading (Parked 0 1)" "run_events parked_schedule (rcu_boot 3) = Some s" by blast
  have "map_option (\<lambda>s. (pcs s, map (\<lambda>t. run_event (Move t) s = None) [0, 1, 2]))
      (run_events (parked_schedule @ send_schedule) (rcu_boot 3)) =
    Some ([Idle, Reading (Parked 0 1), Reading (Parked 0 0)], [True, True, True])" by code_simp
  with s(3) obtain s' where s': "run_events send_schedule s = Some s'"
    "pcs s' = [Idle, Reading (Parked 0 1), Reading (Parked 0 0)]"
    "run_event (Move 0) s' = None" "run_event (Move 1) s' = None" "run_event (Move 2) s' = None"
    by (auto simp: run_events_append simp del: run_event.simps)
  have "run_event (Move t) s' = None" for t
  proof (cases "t < 3")
    case True
    then have "t = 0 \<or> t = 1 \<or> t = 2" by auto
    with s'(3-5) show ?thesis by auto
  next
    case False
    with s'(2) show ?thesis by simp
  qed
  with s s'(1,2) show ?thesis by (fastforce simp: send_schedule_def)
qed

section \<open>A replacement seen half done\<close>

definition three_levels :: "event list" where
  "three_levels = Insert 0 12 2 [2] 1 # moves 6 0 @ Insert 0 11 1 [1] 1 # moves 6 0 @
     Insert 0 10 0 [0] 1 # moves 6 0 @ Search 1 2 # moves 7 1 @ [Raise 0 2, Wake 0 2] @ moves 5 1"

definition half_done :: "event list" where
  "half_done = Replace 0 13 1 [3] 1 # moves 2 0 @ moves 3 1"

text \<open>\<^verbatim>\<open>rcu_list_replace\<close> publishes the new node (line 188) before it links it to the rest of
  the list (line 189): a current reader of another level that passes in between reaches the end
  of the list and finds nothing, although the node of its level is in the list before and after,
  untouched.\<close>

theorem replace_hides_levels:
  "\<exists>s s' s''. rcu_reach messages_only s \<and> pcs s ! 1 = Reading (Walking 2 1 True (head (rlist (shared s)))) \<and>
     find_level (nodes (shared s)) 2 (head (rlist (shared s))) = Some (Inr (Some 12)) \<and>
     run_events half_done s = Some s' \<and> pcs s' ! 1 = Reading (Uncounting 2 1 True None) \<and>
     run_events [Move 0] s' = Some s'' \<and>
     find_level (nodes (shared s'')) 2 (head (rlist (shared s''))) = Some (Inr (Some 12))"
proof -
  have run: "map_option (\<lambda>s. (pcs s ! 1, head (rlist (shared s)),
        find_level (nodes (shared s)) 2 (head (rlist (shared s))))) (run_events three_levels (rcu_boot 2)) =
      Some (Reading (Walking 2 1 True (Some 10)), Some 10, Some (Inr (Some 12)))" by code_simp
  have ok: "list_all messages_only three_levels" by code_simp
  from evaluated_run [OF run ok] obtain s where s: "rcu_reach messages_only s"
    "pcs s ! 1 = Reading (Walking 2 1 True (Some 10))" "head (rlist (shared s)) = Some 10"
    "find_level (nodes (shared s)) 2 (head (rlist (shared s))) = Some (Inr (Some 12))"
    "run_events three_levels (rcu_boot 2) = Some s" by blast
  have "map_option (\<lambda>s. pcs s ! 1) (run_events (three_levels @ half_done) (rcu_boot 2)) =
      Some (Reading (Uncounting 2 1 True None))" by code_simp
  with s(5) obtain s' where s': "run_events half_done s = Some s'"
    "pcs s' ! 1 = Reading (Uncounting 2 1 True None)"
    by (auto simp: run_events_append simp del: run_event.simps)
  have "map_option (\<lambda>s. find_level (nodes (shared s)) 2 (head (rlist (shared s))))
      (run_events (three_levels @ half_done @ [Move 0]) (rcu_boot 2)) =
      Some (Some (Inr (Some 12)))" by code_simp
  with s(5) s'(1) obtain s'' where "run_events [Move 0] s' = Some s''"
    "find_level (nodes (shared s'')) 2 (head (rlist (shared s''))) = Some (Inr (Some 12))"
    by (auto simp: run_events_append simp del: run_event.simps)
  with s s' show ?thesis by metis
qed

section \<open>A lost count\<close>

definition counting_schedule :: "event list" where
  "counting_schedule = Insert 0 10 0 [0] 0 # moves 6 0 @ [Search 1 0, Search 2 0] @
     moves 3 1 @ moves 3 2 @ moves 4 1 @ moves 4 2 @ [Raise 0 0, Wake 0 0] @ moves 10 1 @ moves 10 2"

text \<open>The counter \<^verbatim>\<open>waiters\<close> is not updated atomically: two readers that start together are
  counted once and leave it at -1, with no reader in the list.\<close>

theorem waiters_miscounted:
  "\<exists>s. rcu_reach messages_only s \<and> pcs s = [Idle, Idle, Idle] \<and> waiters (rlist (shared s)) ! 0 = -1"
proof -
  have run: "map_option (\<lambda>s. (pcs s, waiters (rlist (shared s)) ! 0)) (run_events counting_schedule (rcu_boot 3)) =
      Some ([Idle, Idle, Idle], -1)" by code_simp
  have ok: "list_all messages_only counting_schedule" by code_simp
  show ?thesis by (rule evaluated_run [OF run ok]) auto
qed

end
