(* ===== verification/ThreadProps.thy ===== *)
theory ThreadProps
  imports Threads CallProps
begin

text \<open>What holds in every state that whole calls, one at a time, and sleeping readers reach, and the
  run in which a woken reader finds its service freed.\<close>

text \<open>C16: The well-formed table, for calls that run one at a time.  Take a table that \<^verbatim>\<open>kmalloc\<close> gave
  cleared, and whole calls one after the other, receivers going to sleep and resuming in between.
  In every state reached this way at most 256 services exist, \<^verbatim>\<open>serviceCount\<close> is their number, the
  service in entry i has tag i, a non-zero key and one of the two permissions, no two services
  share a public key or a list node, and every list of levels ends, with readers counted in no
  epoch and levels between 0 and 31 only.  (\<^verbatim>\<open>initService\<close> does not clear the table; and calls that
  overlap can break the count, \<open>removed_twice\<close>.)\<close>

theorem reachable_table:
  assumes "reach sys_init (sys_step ok) w"
  shows "used (ker w) \<le> min_sys_TAG_Services \<and> unat (serviceCount (ker w)) = used (ker w) \<and>
    (\<forall>i sv. svc_at (ker w) i = Some sv \<longrightarrow>
       i < min_sys_TAG_Services \<and> sv_tag sv = of_nat i \<and> sv_key sv \<noteq> 0 \<and> sv_perm sv \<in> {OPEN_ROOM, PRIVATE_ROOM} \<and>
       (\<exists>as. chain (el_heap (mem (ker w))) (head (levels sv)) as) \<and>
       (\<forall>e < 2. standing (levels sv) ! e \<le> 0) \<and>
       (\<forall>k. rcu_view (mem (ker w)) (levels sv) k \<noteq> None \<longrightarrow> 0 \<le> sint k \<and> sint k < 32)) \<and>
    (\<forall>i j x y. svc_at (ker w) i = Some x \<longrightarrow> svc_at (ker w) j = Some y \<longrightarrow> i \<noteq> j \<longrightarrow>
       (sv_key x = sv_key y \<longrightarrow> sv_key x = TAG_IPC_PRIVATE) \<and>
       rcu_foot (mem (ker w)) (levels x) \<inter> rcu_foot (mem (ker w)) (levels y) = {})"
proof -
  have inv: "kinv (ker w)" using sys.reach_inv [OF assms] by (simp add: sys_inv_def)
  have count: "unat (serviceCount (ker w)) = used (ker w)"
    using kinv_count(1) [OF inv] used_le [OF inv] by (simp add: unat_of_nat min_sys_TAG_Services_def)
  have lev: "0 \<le> sint k \<and> sint k < 32" if "level_ix k \<noteq> None" for k
    using that by (auto simp: level_ix_def levelDeep_def split: if_splits)
  have one: "i < min_sys_TAG_Services \<and> sv_tag sv = of_nat i \<and> sv_key sv \<noteq> 0 \<and> sv_perm sv \<in> {OPEN_ROOM, PRIVATE_ROOM} \<and>
       (\<exists>as. chain (el_heap (mem (ker w))) (head (levels sv)) as) \<and>
       (\<forall>e < 2. standing (levels sv) ! e \<le> 0) \<and>
       (\<forall>k. rcu_view (mem (ker w)) (levels sv) k \<noteq> None \<longrightarrow> 0 \<le> sint k \<and> sint k < 32)"
    if at: "svc_at (ker w) i = Some sv" for i sv
    using kinv_wf [OF inv at] svc_at_bound [OF inv at] lev
    unfolding svc_wf_def rcu_ok_def quiet_def by blast
  show ?thesis using used_le [OF inv] count one kinv_keys [OF inv] kinv_disjoint [OF inv] by blast
qed

definition demo_sys :: sys where
  "demo_sys = \<lparr>ker = demo, asleep = Map.empty\<rparr>"

lemma demo_reached: "reach sys_init (sys_step (\<lambda>_. True)) demo_sys" "reach sys_init (sys_step no_remove) demo_sys"
proof -
  have init: "sys_init \<lparr>ker = empty_table, asleep = Map.empty\<rparr>" by (auto simp: sys_init_def)
  have run: "run_call (plenty 1 10) (ker \<lparr>ker = empty_table, asleep = Map.empty\<rparr>) (Get 7 CREATE OPEN_ROOM) =
      Inr (Inr 0, demo)"
    using one_service(1) [of 7 OPEN_ROOM 10] by (simp add: demo_def)
  have "sys_step ok \<lparr>ker = empty_table, asleep = Map.empty\<rparr> demo_sys" if "ok (Get 7 CREATE OPEN_ROOM)" for ok
    using st_call [where ok = ok, OF plenty_sound that run] by (simp add: demo_sys_def)
  moreover have "reach sys_init step \<lparr>ker = empty_table, asleep = Map.empty\<rparr>" for step
    by (rule reach_init) (rule init)
  ultimately have "reach sys_init (sys_step ok) demo_sys" if "ok (Get 7 CREATE OPEN_ROOM)" for ok
    using that by (blast intro: reach_step)
  then show "reach sys_init (sys_step (\<lambda>_. True)) demo_sys" "reach sys_init (sys_step no_remove) demo_sys"
    by (simp_all add: no_remove_def)
qed

lemma reachable_table_witness:
  "used demo \<le> min_sys_TAG_Services \<and> unat (serviceCount demo) = used demo"
  using reachable_table [OF demo_reached(1)] by (simp add: demo_sys_def)

text \<open>As long as no thread calls \<^verbatim>\<open>REMOVE\<close> and calls run one at a time, every sleeping reader's
  service stays in the table, so that a reader that resumes at once, woken or interrupted, reads
  that service's list.  (A reader that a writer overtakes after it has resumed can still meet a
  freed node, \<open>overtaken_reader_dangles\<close>.)\<close>

lemma sleepers_never_dangle:
  assumes "reach sys_init (sys_step no_remove) w" "asleep w p = Some x"
  shows "\<exists>i sv. slot (ker w) i = Some (at_addr x) \<and> sv_heap (ker w) (at_addr x) = Some sv \<and>
    (\<forall>g. \<exists>e l. search_leave (el_heap (mem (ker w))) (levels sv) (at_epoch x) (at_level x) g = Inr (e, l))"
proof -
  have safe: "sleepers_safe w" by (rule quiet_sys.reach_inv [OF assms(1)])
  with assms(2) obtain i where i: "slot (ker w) i = Some (at_addr x)"
    unfolding sleepers_safe_def by blast
  have x: "kinv (ker w)" "at_epoch x < 2" "level_ix (at_level x) = Some (at_ix x)"
    using safe assms(2) by (simp_all add: sleepers_safe_def sys_inv_def)
  from kinv_slot [OF x(1) i] obtain sv where sv: "sv_heap (ker w) (at_addr x) = Some sv" "svc_at (ker w) i = Some sv"
    by auto
  have "\<exists>e l. search_leave (el_heap (mem (ker w))) (levels sv) (at_epoch x) (at_level x) g = Inr (e, l)" for g
    using search_leave_woken [OF kinv_rcu_ok [OF x(1) sv(2)] x(3,2)] search_leave_signalled [OF x(3)]
    by (cases g) auto
  with i sv show ?thesis by blast
qed

section \<open>A reader in the demonstration table\<close>

definition waiting_sys :: "addr \<Rightarrow> TAG_Service \<Rightarrow> sys" where
  "waiting_sys a sv = \<lparr>ker = queue_reader 5 a 3 (receive_sleep a 3 demo),
     asleep = [5 \<mapsto> \<lparr>at_addr = a, at_ix = 3, at_level = 3, at_epoch = epoch (levels sv)\<rparr>]\<rparr>"

lemma waiting_reached:
  obtains a sv where "slot demo 0 = Some a" "sv_heap demo a = Some sv"
    "reach sys_init (sys_step no_remove) (waiting_sys a sv)"
proof -
  obtain a where a: "slot demo 0 = Some a" using demo_slot by blast
  from kinv_slot [OF demo(1) a] obtain sv where sv: "sv_heap demo a = Some sv" by auto
  have chk: "a_receive_check (plenty 2 20) (rooms_of (ker demo_sys)) 0 3 False 4 = None"
    using demo_check [of 4] by (simp add: MAX_MESSAGE_SIZE_def demo_sys_def)
  have "sys_step no_remove demo_sys (waiting_sys a sv)"
    using st_sleep [of demo_sys 5 "plenty 2 20" 0 3 4 3 a sv, OF _ chk level_3(1)] a sv
    by (simp add: demo_sys_def waiting_sys_def)
  from reach_step [OF demo_reached(2) this] a sv show thesis by (rule_tac that)
qed

lemma sleepers_never_dangle_witness:
  "\<exists>a sv. reach sys_init (sys_step no_remove) (waiting_sys a sv) \<and>
    (\<exists>i sv'. slot (ker (waiting_sys a sv)) i = Some a \<and> sv_heap (ker (waiting_sys a sv)) a = Some sv')"
proof -
  obtain a sv where w: "reach sys_init (sys_step no_remove) (waiting_sys a sv)" by (rule waiting_reached)
  have "asleep (waiting_sys a sv) 5 = Some \<lparr>at_addr = a, at_ix = 3, at_level = 3, at_epoch = epoch (levels sv)\<rparr>"
    by (simp add: waiting_sys_def)
  from sleepers_never_dangle [OF w this] w show ?thesis by auto
qed

text \<open>\<^verbatim>\<open>REMOVE\<close> counts the readers still queued, not those that were woken and have not run
  yet: after \<^verbatim>\<open>AWAKE_ALL\<close> on a service, \<^verbatim>\<open>REMOVE\<close> frees it while a reader still holds the pointer,
  and the reader then resumes on freed memory.\<close>

theorem remove_frees_under_reader:
  fixes tag :: c_int
  assumes "env_sound env" "kinv (ker w)" "complete (ker w)" "budget env (ker w) (2 * levelDeep) 2" "module_live env"
    and "asleep w p = Some x" "slot (ker w) (unat tag) = Some (at_addr x)" "0 \<le> sint tag"
    and "r_allowed env (the (rooms_of (ker w) (unat tag)))"
  shows "\<exists>w1 w2. sys_step (\<lambda>_. True) w w1 \<and> sys_step (\<lambda>_. True) w1 w2 \<and>
    asleep w2 p = Some x \<and> sv_heap (ker w2) (at_addr x) = None"
proof -
  from kinv_slot [OF assms(2,7)] obtain sv where
    sv: "sv_heap (ker w) (at_addr x) = Some sv" "svc_at (ker w) (unat tag) = Some sv" by auto
  have val: "validServiceOperation env sv"
    using assms(9) rooms_at [OF sv(2)] r_allowed_iff [OF kinv_wf [OF assms(2) sv(2)], of env "mem (ker w)"] by simp
  let ?s = "klogs TryModuleGet (ker w)"
  have inv: "kinv ?s" using assms(2) by simp
  from AWAKE_ALL_ok [OF inv _ _ val, of tag "at_addr x"] assms(7) sv obtain s1 where A:
    "tag_ctl_TBDE_AWAKE_ALL env ?s tag = Inr (Inr 0, s1)" "kinv s1"
    "svc_at s1 (unat tag) = Some (sv\<lparr>levels := all_awake (levels sv)\<rparr>)" "budget env s1 = budget env (ker w)"
    by (auto simp: fun_eq_iff)
  have run1: "run_call env (ker w) (Ctl tag AWAKE_ALL) = Inr (Inr 0, s1)"
    using A(1) assms(5,8) by (simp add: tag_ctl_def)
  let ?sv = "sv\<lparr>levels := all_awake (levels sv)\<rparr>"
  have "keeps_slots (ker w) s1" using call_keeps_slots [OF _ assms(2) run1] by (simp add: no_remove_def)
  then have a1: "slot s1 (unat tag) = Some (at_addr x)" using assms(7) by (simp add: keeps_slots_def)
  then have h1: "sv_heap s1 (at_addr x) = Some ?sv" using A(3) by (simp add: svc_at_def)
  have b1: "budget env s1 (levelDeep + levelDeep) (Suc 1)" using assms(4) A(4) by (simp add: mult_2 numeral_2_eq_2)
  from budget_service [OF b1] obtain b where b: "kmalloc_service env (sv_heap (klogs TryModuleGet s1)) = Some b" by auto
  have inv1: "kinv (klogs TryModuleGet s1)" using A(2) by simp
  have val1: "validServiceOperation env ?sv" using val by (simp add: validServiceOperation_def split: if_splits)
  from REMOVE_ok [OF assms(1) inv1 _ _ val1 _ b, of tag "at_addr x"] a1 h1 obtain s2 where R:
    "tag_ctl_TBDE_REMOVE env (klogs TryModuleGet s1) tag = Inr (Inr 0, s2)" "sv_heap s2 (at_addr x) = None" by auto
  have run2: "run_call env s1 (Ctl tag REMOVE) = Inr (Inr 0, s2)"
    using R(1) assms(5,8) by (simp add: tag_ctl_def)
  have "sys_step (\<lambda>_. True) w (w\<lparr>ker := s1\<rparr>)" by (rule st_call [OF assms(1) _ run1]) simp
  moreover have "sys_step (\<lambda>_. True) (w\<lparr>ker := s1\<rparr>) (w\<lparr>ker := s1\<rparr>\<lparr>ker := s2\<rparr>)"
    by (rule st_call [OF assms(1), where c = "Ctl tag REMOVE" and r = "Inr 0"]) (use run2 in simp_all)
  ultimately show ?thesis using assms(6) R(2)
    by (intro exI [of _ "w\<lparr>ker := s1\<rparr>"] exI [of _ "w\<lparr>ker := s2\<rparr>"]) simp
qed

lemma remove_frees_under_reader_witness:
  "\<exists>a sv w1 w2. sys_step (\<lambda>_. True) (waiting_sys a sv) w1 \<and> sys_step (\<lambda>_. True) w1 w2 \<and>
    asleep w2 5 \<noteq> None \<and> sv_heap (ker w2) a = None"
proof -
  obtain a sv where w: "slot demo 0 = Some a" "sv_heap demo a = Some sv"
    "reach sys_init (sys_step no_remove) (waiting_sys a sv)" by (rule waiting_reached)
  let ?k = "ker (waiting_sys a sv)"
  have k: "?k = queue_reader 5 a 3 (receive_sleep a 3 demo)" by (simp add: waiting_sys_def)
  note R = receive_sleep_ok [OF demo(1) w(1), of 3]
  have sl: "slot (receive_sleep a 3 demo) 0 = Some a" using R(2) w(1) by simp
  from kinv_slot [OF R(1) sl] obtain sv1 where sv1: "sv_heap (receive_sleep a 3 demo) a = Some sv1"
    "svc_at (receive_sleep a 3 demo) 0 = Some sv1" by auto
  note Q = queue_reader_ok [OF R(1) sl sv1(1), where pid = 5 and j = 3]
  have "rooms_of (receive_sleep a 3 demo) 0 = rooms_of demo 0" by (simp add: R(3))
  then have "sv_perm sv1 = OPEN_ROOM" using rooms_at [OF sv1(2)] by (simp add: demo(3) room_of_def new_room_def)
  then have al: "r_allowed (plenty 2 20) (the (rooms_of ?k (unat (0 :: c_int))))"
    using Q(3) by (simp add: k rooms_of_def r_allowed_def)
  have "budget (plenty 2 20) (receive_sleep a 3 demo) n m = budget (plenty 2 20) demo n m" for n m
    using w(2) dom_set_levels [of "klog_all receive_prefix demo" a sv "listening 3 (levels sv)"
        "mem (klog_all receive_prefix demo)"]
    by (simp add: budget_def receive_sleep_def alloc_room_def)
  then have b: "budget (plenty 2 20) ?k (2 * levelDeep) 2"
    using Q(6) budget_le [OF demo(4), of "2 * levelDeep" 2] by (simp add: k levelDeep_def)
  have "complete ?k" using Q(5) R(5) demo(2) by (simp add: k)
  moreover have "kinv ?k" "slot ?k (unat (0 :: c_int)) = Some a" using Q(1,2) sl by (simp_all add: k)
  moreover have "asleep (waiting_sys a sv) 5 = Some \<lparr>at_addr = a, at_ix = 3, at_level = 3, at_epoch = epoch (levels sv)\<rparr>"
    by (simp add: waiting_sys_def)
  ultimately show ?thesis
    using remove_frees_under_reader [OF plenty_sound _ _ b, of 5
        "\<lparr>at_addr = a, at_ix = 3, at_level = 3, at_epoch = epoch (levels sv)\<rparr>" 0] al
    by fastforce
qed

end
