(* ===== verification/ServiceSteps.thy ===== *)
theory ServiceSteps
  imports TableOps
begin

text \<open>
  The table of services used by several threads at once.  Each thread is at a point of
  \<^verbatim>\<open>tag_get\<close>, of \<^verbatim>\<open>tag_ctl\<close> with \<^verbatim>\<open>REMOVE\<close>, or of the part of the other calls that finds a
  service and first uses it, and a step is one access to memory that threads share: a load or
  store of an entry of \<^verbatim>\<open>tagServices\<close>, an access to a service through its pointer, an atomic
  addition to \<^verbatim>\<open>serviceCount\<close>, taking or giving back \<^verbatim>\<open>searchLock\<close>.  What a creation does under
  the write lock (\<^verbatim>\<open>new_TAG_Service\<close>) is one step, and so is the building of the service that
  \<^verbatim>\<open>REMOVE\<close> drops, to which nobody else has a pointer.

  \<open>None\<close> as the outcome of a step means that the thread cannot move: it waits for the lock, or
  it would follow a null pointer or one to a service that has been freed.
\<close>

section \<open>Where a thread is\<close>

text \<open>What a thread wants of the table: a new service with a key and a permission, the service
  with a key (\<^verbatim>\<open>tag_get_OPEN\<close>), the one with a tag (\<^verbatim>\<open>tag_send\<close>, \<^verbatim>\<open>tag_receive\<close>, \<^verbatim>\<open>AWAKE_ALL\<close>), or
  to remove the one with a tag.\<close>

datatype errand = New_Service c_int c_int | With_Key c_int | With_Tag c_int | Take_Away c_int

text \<open>\<open>Testing\<close>, \<open>Comparing\<close> and \<open>Fetching\<close> are the three loads of \<^verbatim>\<open>tagServices[i]\<close> in one turn of
  the searches.\<close>

datatype svc_pc =
    Outside
  | Limiting c_int c_int
  | Asking errand
  | Testing errand nat
  | Comparing errand nat
  | Fetching errand nat
  | Missing errand
  | Located errand addr
  | Creating c_int c_int
  | Releasing c_int addr
  | Counting_In c_int addr
  | Telling addr
  | Permitting errand addr
  | Replying addr
  | Using addr
  | Polling addr
  | Emptying addr
  | Picking addr
  | Clearing_Out addr "addr option"
  | Dropping "addr option"
  | Counting_Out
  | Finishing
  | Answered rv

section \<open>The searches\<close>

definition load_entry :: "kstate \<Rightarrow> nat \<Rightarrow> addr option option" where
  "load_entry s i = (case tagServices s of
     None \<Rightarrow> None
   | Some ps \<Rightarrow> if i < length ps then Some (ps ! i) else None)"

fun wanted :: "errand \<Rightarrow> TAG_Service \<Rightarrow> bool" where
  "wanted (New_Service k p) sv \<longleftrightarrow> sv_key sv = k"
| "wanted (With_Key k) sv \<longleftrightarrow> sv_key sv = k"
| "wanted (With_Tag t) sv \<longleftrightarrow> sv_tag sv = t"
| "wanted (Take_Away t) sv \<longleftrightarrow> sv_tag sv = t"

definition next_entry :: "errand \<Rightarrow> nat \<Rightarrow> svc_pc" where
  "next_entry e i = (if Suc i < min_sys_TAG_Services then Testing e (Suc i) else Missing e)"

section \<open>Steps\<close>

type_synonym svc_out = "(svc_pc \<times> kstate \<times> lock_st) option"

definition reply :: "rv \<Rightarrow> kstate \<Rightarrow> lock_st \<Rightarrow> svc_out" where
  "reply r s lk = Some (Answered r, klogs ModulePut s, lk)"

text \<open>A call on \<^verbatim>\<open>searchLock\<close>; to take it may mean to wait.\<close>

definition locking :: "kcall \<Rightarrow> kstate \<Rightarrow> lock_st \<Rightarrow> (kstate \<Rightarrow> lock_st \<Rightarrow> svc_out) \<Rightarrow> svc_out" where
  "locking c s lk f =
     (if lock_step SearchLock lk c = Blocked then None else f (klogs c s) (lock_step SearchLock lk c))"

definition ask_lock :: "errand \<Rightarrow> kcall" where
  "ask_lock e = (case e of New_Service k p \<Rightarrow> WriteLock SearchLock | _ \<Rightarrow> ReadLock SearchLock)"

text \<open>\<^verbatim>\<open>validServiceOperation\<close>; it does not look at the service for root.\<close>

definition permitted :: "kenv \<Rightarrow> kstate \<Rightarrow> addr \<Rightarrow> bool option" where
  "permitted env s a =
     (if cur_uid env = 0 then Some True else map_option (validServiceOperation env) (sv_heap s a))"

fun search_turn :: "errand \<Rightarrow> svc_pc \<Rightarrow> kstate \<Rightarrow> svc_pc option" where
  "search_turn e (Testing _ i) s = (case load_entry s i of
     None \<Rightarrow> None
   | Some None \<Rightarrow> Some (next_entry e i)
   | Some (Some a) \<Rightarrow> Some (Comparing e i))"
| "search_turn e (Comparing _ i) s = (case load_entry s i of
     Some (Some a) \<Rightarrow> (case sv_heap s a of
       None \<Rightarrow> None
     | Some sv \<Rightarrow> Some (if wanted e sv then Fetching e i else next_entry e i))
   | _ \<Rightarrow> None)"
| "search_turn e (Fetching _ i) s = (case load_entry s i of
     None \<Rightarrow> None
   | Some None \<Rightarrow> Some (Missing e)
   | Some (Some a) \<Rightarrow> Some (Located e a))"
| "search_turn e _ s = None"

text \<open>After the search.\<close>

definition not_found :: "errand \<Rightarrow> kstate \<Rightarrow> lock_st \<Rightarrow> svc_out" where
  "not_found e s lk = (case e of
     New_Service k p \<Rightarrow> Some (Creating k p, s, lk)
   | Take_Away t \<Rightarrow> locking (ReadUnlock SearchLock) s lk (reply (Inl ENODATA))
   | _ \<Rightarrow> locking (ReadUnlock SearchLock) s lk (reply (Inl ENOMSG)))"

definition found :: "errand \<Rightarrow> addr \<Rightarrow> kstate \<Rightarrow> lock_st \<Rightarrow> svc_out" where
  "found e a s lk = (case e of
     New_Service k p \<Rightarrow> locking (WriteUnlock SearchLock) s lk (reply (Inl EBADR))
   | Take_Away t \<Rightarrow> Some (Permitting e a, s, lk)
   | _ \<Rightarrow> locking (ReadUnlock SearchLock) s lk (\<lambda>s' lk'. Some (Permitting e a, s', lk')))"

definition allow :: "kenv \<Rightarrow> errand \<Rightarrow> addr \<Rightarrow> kstate \<Rightarrow> lock_st \<Rightarrow> svc_out" where
  "allow env e a s lk = (case permitted env s a of
     None \<Rightarrow> None
   | Some v \<Rightarrow>
       if \<not> v then reply (Inl EBADRQC) s lk
       else (case e of
         New_Service k p \<Rightarrow> None
       | With_Key k \<Rightarrow> Some (Replying a, s, lk)
       | With_Tag t \<Rightarrow> Some (Using a, s, lk)
       | Take_Away t \<Rightarrow> Some (Polling a, s, lk)))"

text \<open>\<^verbatim>\<open>tag_get_CREATE\<close> in the write section; when the array is full it returns and keeps the lock.\<close>

definition create :: "kenv \<Rightarrow> c_int \<Rightarrow> c_int \<Rightarrow> kstate \<Rightarrow> lock_st \<Rightarrow> svc_out" where
  "create env k p s lk = (case new_TAG_Service env s k (cur_tgid env) p of
     Inl e \<Rightarrow> None
   | Inr (None, s') \<Rightarrow> reply (Inl (if k = TAG_IPC_PRIVATE then EBADR else EFAULT)) s' lk
   | Inr (Some a, s') \<Rightarrow>
       Some (if k = TAG_IPC_PRIVATE then Releasing k a else Counting_In k a, s', lk))"

text \<open>\<^verbatim>\<open>emptyService\<close> of \<^verbatim>\<open>REMOVE\<close>.\<close>

definition build_empty :: "kenv \<Rightarrow> kstate \<Rightarrow> kstate option" where
  "build_empty env s = (case kmalloc_service env (sv_heap s) of
     None \<Rightarrow> None
   | Some b \<Rightarrow>
       (case list_fill (rcu_list_insert (kmalloc_element env) (ListLock b)) [0..<levelDeep]
               rcu_list_init (mem s) of
          Inl e \<Rightarrow> None
        | Inr (l, m) \<Rightarrow> Some (s\<lparr>mem := m, sv_heap := (sv_heap s)
            (b \<mapsto> (fresh_service env)\<lparr>sv_key := 0, sv_tag := - 1, levels := l\<rparr>)\<rparr>)))"

text \<open>The entry that the tag of a service names.\<close>

definition own_entry :: "kstate \<Rightarrow> addr \<Rightarrow> (nat \<times> addr option) option" where
  "own_entry s a = (case sv_heap s a of
     None \<Rightarrow> None
   | Some sv \<Rightarrow> map_option (Pair (unat (sv_tag sv))) (load_entry s (unat (sv_tag sv))))"

definition clear_entry :: "nat \<Rightarrow> kstate \<Rightarrow> kstate" where
  "clear_entry i s = s\<lparr>tagServices := map_option (\<lambda>ps. ps[i := None]) (tagServices s)\<rparr>"

definition free_service :: "addr option \<Rightarrow> kstate \<Rightarrow> kstate option" where
  "free_service x s = (case x of
     None \<Rightarrow> Some s
   | Some b \<Rightarrow> if sv_heap s b = None then None else Some (s\<lparr>sv_heap := (sv_heap s)(b := None)\<rparr>))"

definition poll :: "addr \<Rightarrow> kstate \<Rightarrow> svc_pc option" where
  "poll a s = map_option (\<lambda>sv. if list_ex (waitqueue_active (levels sv)) [0..<levelDeep]
     then Answered (Inl EADDRINUSE) else Emptying a) (sv_heap s a)"

fun svc_step :: "kenv \<Rightarrow> svc_pc \<Rightarrow> kstate \<Rightarrow> lock_st \<Rightarrow> svc_out" where
  "svc_step env Outside s lk = None"
| "svc_step env (Limiting k p) s lk =
     (if MAX_SERVICE_NUM s \<le> serviceCount s then reply (Inl ETOOMANYREFS) s lk
      else Some (Asking (New_Service k p), s, lk))"
| "svc_step env (Asking e) s lk = locking (ask_lock e) s lk
     (\<lambda>s' lk'. Some (case e of
        New_Service k p \<Rightarrow> if k = TAG_IPC_PRIVATE then Creating k p else Testing e 0
      | _ \<Rightarrow> Testing e 0, s', lk'))"
| "svc_step env (Testing e i) s lk = map_option (\<lambda>p. (p, s, lk)) (search_turn e (Testing e i) s)"
| "svc_step env (Comparing e i) s lk = map_option (\<lambda>p. (p, s, lk)) (search_turn e (Comparing e i) s)"
| "svc_step env (Fetching e i) s lk = map_option (\<lambda>p. (p, s, lk)) (search_turn e (Fetching e i) s)"
| "svc_step env (Missing e) s lk = not_found e s lk"
| "svc_step env (Located e a) s lk = found e a s lk"
| "svc_step env (Creating k p) s lk = create env k p s lk"
| "svc_step env (Releasing k a) s lk = locking (WriteUnlock SearchLock) s lk
     (\<lambda>s' lk'. Some (if k = TAG_IPC_PRIVATE then Counting_In k a else Telling a, s', lk'))"
| "svc_step env (Counting_In k a) s lk =
     Some (if k = TAG_IPC_PRIVATE then Telling a else Releasing k a,
           s\<lparr>serviceCount := serviceCount s + 1\<rparr>, lk)"
| "svc_step env (Telling a) s lk = (case sv_heap s a of
     None \<Rightarrow> None | Some sv \<Rightarrow> reply (Inr (sv_tag sv)) s lk)"
| "svc_step env (Permitting e a) s lk = allow env e a s lk"
| "svc_step env (Replying a) s lk = map_option (\<lambda>sv. (Answered (Inr (sv_tag sv)), s, lk)) (sv_heap s a)"
| "svc_step env (Using a) s lk = map_option (\<lambda>sv. (Outside, s, lk)) (sv_heap s a)"
| "svc_step env (Polling a) s lk = map_option (\<lambda>p. (p, s, lk)) (poll a s)"
| "svc_step env (Emptying a) s lk = map_option (\<lambda>s'. (Picking a, s', lk)) (build_empty env s)"
| "svc_step env (Picking a) s lk = map_option (\<lambda>(i, x). (Clearing_Out a x, s, lk)) (own_entry s a)"
| "svc_step env (Clearing_Out a x) s lk =
     map_option (\<lambda>(i, y). (Dropping x, clear_entry i s, lk)) (own_entry s a)"
| "svc_step env (Dropping x) s lk = map_option (\<lambda>s'. (Counting_Out, s', lk)) (free_service x s)"
| "svc_step env Counting_Out s lk = Some (Finishing, s\<lparr>serviceCount := serviceCount s - 1\<rparr>, lk)"
| "svc_step env Finishing s lk = locking (ReadUnlock SearchLock) s lk (reply (Inr 0))"
| "svc_step env (Answered r) s lk = Some (Outside, s, lk)"

section \<open>The machine\<close>

record svc_sys =
  table :: kstate
  table_lock :: lock_st
  at_point :: "svc_pc list"

text \<open>A thread enters a call, with the arguments that \<^verbatim>\<open>tag_get\<close> and \<^verbatim>\<open>tag_ctl\<close> accept, or makes its
  next step.\<close>

datatype svc_event = Call nat errand | Step nat

fun enter :: "errand \<Rightarrow> svc_pc option" where
  "enter (New_Service k p) =
     (if permAmmisible p = 0 \<and> keyAmmissible k = 0 then Some (Limiting k p) else None)"
| "enter (With_Key k) =
     (if keyAmmissible k \<noteq> 0 then None
      else if k = TAG_IPC_PRIVATE then Some (Answered (Inl EBADSLT)) else Some (Asking (With_Key k)))"
| "enter (With_Tag t) = Some (Asking (With_Tag t))"
| "enter (Take_Away t) = (if sint t < 0 then None else Some (Asking (Take_Away t)))"

fun svc_do :: "(nat \<Rightarrow> kenv) \<Rightarrow> svc_event \<Rightarrow> svc_sys \<Rightarrow> svc_sys option" where
  "svc_do envs (Call t e) S =
     (if t < length (at_point S) \<and> at_point S ! t = Outside then
        map_option (\<lambda>p. S\<lparr>table := klogs TryModuleGet (table S), at_point := (at_point S)[t := p]\<rparr>) (enter e)
      else None)"
| "svc_do envs (Step t) S =
     (if t < length (at_point S) then
        map_option (\<lambda>(p, s, lk). \<lparr>table = s, table_lock = lk, at_point = (at_point S)[t := p]\<rparr>)
          (svc_step (envs t) (at_point S ! t) (table S) (table_lock S))
      else None)"

text \<open>\<open>ok\<close> restricts what may happen.\<close>

inductive table_step :: "(nat \<Rightarrow> kenv) \<Rightarrow> (svc_event \<Rightarrow> bool) \<Rightarrow> svc_sys \<Rightarrow> svc_sys \<Rightarrow> bool"
  for envs :: "nat \<Rightarrow> kenv" and ok :: "svc_event \<Rightarrow> bool" where
  table_stepI: "ok ev \<Longrightarrow> svc_do envs ev S = Some S' \<Longrightarrow> table_step envs ok S S'"

inductive_cases table_stepE: "table_step envs ok S S'"

text \<open>At first the table is well formed, the lock is free and no thread is inside a call.\<close>

definition table_start :: "svc_sys \<Rightarrow> bool" where
  "table_start S \<longleftrightarrow> kinv (table S) \<and> table_lock S = Readers 0 \<and> (\<forall>p \<in> set (at_point S). p = Outside)"

abbreviation table_reach :: "(nat \<Rightarrow> kenv) \<Rightarrow> (svc_event \<Rightarrow> bool) \<Rightarrow> svc_sys \<Rightarrow> bool" where
  "table_reach envs ok \<equiv> reach table_start (table_step envs ok)"

fun svc_run :: "(nat \<Rightarrow> kenv) \<Rightarrow> svc_event list \<Rightarrow> svc_sys \<Rightarrow> svc_sys option" where
  "svc_run envs [] S = Some S"
| "svc_run envs (ev # evs) S = (case svc_do envs ev S of None \<Rightarrow> None | Some S' \<Rightarrow> svc_run envs evs S')"

abbreviation steps :: "nat \<Rightarrow> nat \<Rightarrow> svc_event list" where
  "steps n t \<equiv> replicate n (Step t)"

lemma svc_run_append:
  "svc_run envs (xs @ ys) S = (case svc_run envs xs S of None \<Rightarrow> None | Some S' \<Rightarrow> svc_run envs ys S')"
  by (induction xs arbitrary: S) (auto split: option.splits)

lemma svc_run_reach:
  assumes "svc_run envs evs S = Some S'" "list_all ok evs" "table_reach envs ok S"
  shows "table_reach envs ok S'"
  using assms
proof (induction evs arbitrary: S)
  case (Cons ev evs)
  then obtain S1 where "svc_do envs ev S = Some S1" "svc_run envs evs S1 = Some S'"
    by (auto split: option.splits)
  moreover from this have "table_reach envs ok S1" using Cons.prems(2,3) by (auto intro: reach_step table_stepI)
  ultimately show ?case using Cons.IH [of S1] Cons.prems(2) by simp
qed simp

lemma start_reach: "table_start S \<Longrightarrow> table_reach envs ok S"
  by (rule reach_init)

end
