(* ===== verification/ServiceSafe.thy ===== *)
theory ServiceSafe
  imports ServiceSteps
begin

text \<open>
  What every interleaving of creations, lookups and removals keeps: the table is well formed up
  to the value of \<^verbatim>\<open>serviceCount\<close>, the lock is held for writing by at most one thread and then
  by no reader, and each thread inside a section relies only on what the others leave.
\<close>

section \<open>The table without its count\<close>

definition settled :: "kstate \<Rightarrow> kstate" where
  "settled s = s\<lparr>serviceCount := of_nat (used s)\<rparr>"

lemma settled_simps [simp]:
  "tagServices (settled s) = tagServices s" "sv_heap (settled s) = sv_heap s" "mem (settled s) = mem s"
  "MAX_SERVICE_NUM (settled s) = MAX_SERVICE_NUM s" "serviceCount (settled s) = of_nat (used s)"
  by (simp_all add: settled_def)

lemma settled_table [simp]:
  "slots (settled s) = slots s" "slot (settled s) = slot s" "svc_at (settled s) = svc_at s"
  "used (settled s) = used s"
  unfolding slots_def slot_def svc_at_def used_def settled_simps by (rule refl)+

lemma settled_klogs [simp]: "settled (klogs c s) = klogs c (settled s)"
  by (simp add: settled_def klogs_def used_def slots_def)

lemma settled_count [simp]: "settled (s\<lparr>serviceCount := n\<rparr>) = settled s"
  by (simp add: settled_def used_def slots_def)

lemma slots_count [simp]:
  "slots (s\<lparr>serviceCount := n\<rparr>) = slots s" "slot (s\<lparr>serviceCount := n\<rparr>) = slot s"
  "svc_at (s\<lparr>serviceCount := n\<rparr>) = svc_at s" "used (s\<lparr>serviceCount := n\<rparr>) = used s"
  by (auto simp: slots_def slot_def svc_at_def used_def fun_eq_iff split: option.split)

lemma settled_id: "kinv s \<Longrightarrow> settled s = s"
  using kinv_count(1) [of s] by (simp add: settled_def)

lemma kinv_settled: "kinv s \<Longrightarrow> kinv (settled s)"
  by (simp add: settled_id)

text \<open>What happens outside the services of the table.\<close>

lemma outside_table:
  assumes inv: "kinv s" and same: "tagServices s' = tagServices s" "serviceCount s' = serviceCount s"
      "MAX_SERVICE_NUM s' = MAX_SERVICE_NUM s"
    and heap: "\<And>i a. slot s i = Some a \<Longrightarrow> sv_heap s' a = sv_heap s a"
    and kept: "others_kept rcu_ok rcu_view rcu_foot (mem s) rcu_list_init (mem s') l'"
  shows "kinv s'" "svc_at s' = svc_at s" "slot s' = slot s"
proof -
  have slots: "slots s' = slots s" "used s' = used s" by (simp_all add: slots_def used_def same)
  show slot: "slot s' = slot s" by (simp add: slot_def slots fun_eq_iff)
  show at: "svc_at s' = svc_at s"
    using heap by (auto simp: svc_at_def slot fun_eq_iff split: option.split)
  note old = init_kept [OF kept kinv_wf [OF inv]]
  show "kinv s'"
  proof (rule kinvI)
    show "sv_heap s' a \<noteq> None" if "slot s' i = Some a" for i a
      using that inv heap unfolding kinv_def slot by metis
    show "rcu_foot (mem s') (levels x) \<inter> rcu_foot (mem s') (levels y) = {}"
      if "svc_at s' i = Some x" "svc_at s' j = Some y" "i < j" for i j x y
      using that old(3) kinv_disjoint [OF inv] unfolding at by (metis less_irrefl)
    show "sv_key x = TAG_IPC_PRIVATE"
      if "svc_at s' i = Some x" "svc_at s' j = Some y" "i < j" "sv_key x = sv_key y" for i j x y
      using that kinv_keys [OF inv] unfolding at by (metis less_irrefl)
  qed (use inv kinv_slots [OF inv] kinv_count [OF inv] slots same old(1) at in auto)
qed

text \<open>An entry cleared.\<close>

lemma clear_entry_table:
  assumes inv: "kinv (settled s)" and i: "i < min_sys_TAG_Services"
  shows "kinv (settled (clear_entry i s))" "svc_at (clear_entry i s) = (svc_at s)(i := None)"
    "slot (clear_entry i s) = (slot s)(i := None)"
    "used (clear_entry i s) + of_bool (slot s i \<noteq> None) = used s"
proof -
  let ?s = "clear_entry i s"
  have ps: "tagServices s = Some (slots s)" "length (slots s) = min_sys_TAG_Services"
    using kinv_slots [OF inv] by simp_all
  from ps(1) have slots: "tagServices ?s = Some ((slots s)[i := None])" by (simp add: clear_entry_def)
  then have slots': "slots ?s = (slots s)[i := None]" by (simp add: slots_def)
  have rest: "sv_heap ?s = sv_heap s" "mem ?s = mem s" "MAX_SERVICE_NUM ?s = MAX_SERVICE_NUM s"
    by (simp_all add: clear_entry_def)
  show slot: "slot ?s = (slot s)(i := None)"
    using i ps by (auto simp: slot_def slots' fun_eq_iff nth_list_update)
  show at: "svc_at ?s = (svc_at s)(i := None)"
    by (auto simp: svc_at_def slot rest fun_eq_iff split: option.split)
  show "used ?s + of_bool (slot s i \<noteq> None) = used s"
    using used_update [OF ps(1) _ slots(1)] i ps(2) by (auto simp: slot_def)
  show "kinv (settled ?s)"
  proof (rule kinvI)
    show "sv_heap (settled ?s) a \<noteq> None" if "slot (settled ?s) j = Some a" for j a
      using that inv unfolding kinv_def by (auto simp: slot rest split: if_splits)
    show "svc_wf (mem (settled ?s)) j x" if "svc_at (settled ?s) j = Some x" for j x
      using that kinv_wf [OF inv] by (auto simp: at rest split: if_splits)
    show "rcu_foot (mem (settled ?s)) (levels x) \<inter> rcu_foot (mem (settled ?s)) (levels y) = {}"
      if "svc_at (settled ?s) j = Some x" "svc_at (settled ?s) k = Some y" "j < k" for j k x y
      using that kinv_disjoint [OF inv, of j x k y] by (auto simp: at rest split: if_splits)
    show "sv_key x = TAG_IPC_PRIVATE"
      if "svc_at (settled ?s) j = Some x" "svc_at (settled ?s) k = Some y" "j < k" "sv_key x = sv_key y" for j k x y
      using that kinv_keys [OF inv, of j x k y] by (auto simp: at split: if_splits)
  qed (use slots slots' ps rest kinv_count(2) [OF inv] in simp_all)
qed

section \<open>What a thread holds\<close>

fun is_new :: "errand \<Rightarrow> bool" where
  "is_new (New_Service k p) = True"
| "is_new _ = False"

fun is_take :: "errand \<Rightarrow> bool" where
  "is_take (Take_Away t) = True"
| "is_take _ = False"

text \<open>The lock, for reading or for writing.\<close>

fun reads :: "svc_pc \<Rightarrow> bool" where
  "reads (Testing e i) = (\<not> is_new e)"
| "reads (Comparing e i) = (\<not> is_new e)"
| "reads (Fetching e i) = (\<not> is_new e)"
| "reads (Missing e) = (\<not> is_new e)"
| "reads (Located e a) = (\<not> is_new e)"
| "reads (Permitting e a) = is_take e"
| "reads (Polling a) = True"
| "reads (Emptying a) = True"
| "reads (Picking a) = True"
| "reads (Clearing_Out a x) = True"
| "reads (Dropping x) = True"
| "reads Counting_Out = True"
| "reads Finishing = True"
| "reads _ = False"

fun writes :: "svc_pc \<Rightarrow> bool" where
  "writes (Testing e i) = is_new e"
| "writes (Comparing e i) = is_new e"
| "writes (Fetching e i) = is_new e"
| "writes (Missing e) = is_new e"
| "writes (Located e a) = is_new e"
| "writes (Creating k p) = True"
| "writes (Releasing k a) = True"
| "writes (Counting_In k a) = (k \<noteq> TAG_IPC_PRIVATE)"
| "writes _ = False"

abbreviation num :: "(svc_pc \<Rightarrow> bool) \<Rightarrow> svc_pc list \<Rightarrow> nat" where
  "num P ps \<equiv> length (filter P ps)"

text \<open>The lock may also be held for calls that have returned.\<close>

definition lock_fits :: "lock_st \<Rightarrow> svc_pc list \<Rightarrow> bool" where
  "lock_fits lk ps = (case lk of
     Readers n \<Rightarrow> num writes ps = 0 \<and> num reads ps \<le> n
   | Writer \<Rightarrow> num reads ps = 0 \<and> num writes ps \<le> 1
   | _ \<Rightarrow> False)"

lemma num_update: "t < length ps \<Longrightarrow> num P (ps[t := p]) + of_bool (P (ps ! t)) = num P ps + of_bool (P p)"
  using length_filter_update [of t ps P p] by (simp split: if_splits)

lemma num_other: "t < length ps \<Longrightarrow> u < length ps \<Longrightarrow> t \<noteq> u \<Longrightarrow> P (ps ! t) \<Longrightarrow> P (ps ! u) \<Longrightarrow>
   \<not> P Outside \<Longrightarrow> 2 \<le> num P ps"
  using num_update [of t ps P Outside] num_update [of u "ps[t := Outside]" P Outside] by (auto split: if_splits)

lemma num_pos: "t < length ps \<Longrightarrow> P (ps ! t) \<Longrightarrow> 0 < num P ps"
  by (auto simp: filter_empty_conv)

text \<open>What a thread may rely on.\<close>

fun errand_ok :: "errand \<Rightarrow> bool" where
  "errand_ok (New_Service k p) \<longleftrightarrow> k \<noteq> 0 \<and> (p = OPEN_ROOM \<or> p = PRIVATE_ROOM)"
| "errand_ok _ \<longleftrightarrow> True"

text \<open>No service below entry \<open>n\<close> has the key of a creation.\<close>

fun unseen :: "kstate \<Rightarrow> errand \<Rightarrow> nat \<Rightarrow> bool" where
  "unseen s (New_Service k p) n \<longleftrightarrow>
     k \<noteq> TAG_IPC_PRIVATE \<and> (\<forall>j < n. \<forall>sv. svc_at s j = Some sv \<longrightarrow> sv_key sv \<noteq> k)"
| "unseen s _ n \<longleftrightarrow> True"

lemma unseen_same: "svc_at s' = svc_at s \<Longrightarrow> unseen s' e n = unseen s e n"
  by (cases e) simp_all

lemma unseen_old: "\<not> is_new e \<Longrightarrow> unseen s e n"
  by (cases e) simp_all

fun point_ok :: "kstate \<Rightarrow> svc_pc \<Rightarrow> bool" where
  "point_ok s (Limiting k p) = errand_ok (New_Service k p)"
| "point_ok s (Asking e) = errand_ok e"
| "point_ok s (Testing e i) = (errand_ok e \<and> unseen s e i \<and> i < min_sys_TAG_Services)"
| "point_ok s (Comparing e i) =
     (errand_ok e \<and> unseen s e i \<and> i < min_sys_TAG_Services \<and> (is_new e \<longrightarrow> slot s i \<noteq> None))"
| "point_ok s (Fetching e i) =
     (errand_ok e \<and> unseen s e i \<and> i < min_sys_TAG_Services \<and> (is_new e \<longrightarrow> slot s i \<noteq> None))"
| "point_ok s (Missing e) = (errand_ok e \<and> unseen s e min_sys_TAG_Services)"
| "point_ok s (Creating k p) =
     (errand_ok (New_Service k p) \<and>
      (k \<noteq> TAG_IPC_PRIVATE \<longrightarrow> unseen s (New_Service k p) min_sys_TAG_Services))"
| "point_ok s (Permitting e a) = (\<not> is_new e)"
| "point_ok s (Clearing_Out a x) =
     (\<forall>b j sv. x = Some b \<longrightarrow> slot s j = Some b \<longrightarrow> sv_heap s a = Some sv \<longrightarrow>
        unat (sv_tag sv) < min_sys_TAG_Services \<longrightarrow> j = unat (sv_tag sv))"
| "point_ok s (Dropping x) = (\<forall>b j. x = Some b \<longrightarrow> slot s j \<noteq> Some b)"
| "point_ok s _ = True"

definition table_inv :: "svc_sys \<Rightarrow> bool" where
  "table_inv S \<longleftrightarrow> kinv (settled (table S)) \<and> lock_fits (table_lock S) (at_point S) \<and>
     (\<forall>t < length (at_point S). point_ok (table S) (at_point S ! t))"

section \<open>What the others leave\<close>

text \<open>Entries are only cleared, and a service that appears at an address that was free is
  one outside the table.\<close>

definition shrinks :: "kstate \<Rightarrow> kstate \<Rightarrow> bool" where
  "shrinks s s' \<longleftrightarrow> (\<forall>j a. slot s' j = Some a \<longrightarrow> slot s j = Some a) \<and>
     (\<forall>a sv. sv_heap s' a = Some sv \<longrightarrow> sv_heap s a = Some sv \<or> min_sys_TAG_Services \<le> unat (sv_tag sv))"

lemma shrinks_refl: "shrinks s s"
  by (simp add: shrinks_def)

lemma point_ok_shrinks: "shrinks s s' \<Longrightarrow> \<not> writes p \<Longrightarrow> point_ok s p \<Longrightarrow> point_ok s' p"
proof (cases p)
  case (Clearing_Out a x)
  assume "shrinks s s'" "point_ok s p"
  with Clearing_Out show ?thesis unfolding shrinks_def by (auto dest!: leD) (metis leD)+
qed (auto simp: shrinks_def unseen_old)

lemma point_ok_same:
  assumes "slot s' = slot s" "sv_heap s' = sv_heap s"
  shows "point_ok s' p = point_ok s p"
proof -
  have "svc_at s' = svc_at s" by (auto simp: svc_at_def assms fun_eq_iff split: option.split)
  note at = this and un = unseen_same [OF this]
  show ?thesis by (cases p) (simp_all add: assms at un)
qed

lemma point_ok_free: "\<not> writes p \<Longrightarrow> \<not> reads p \<Longrightarrow> point_ok s p = point_ok s' p"
  by (cases p) auto

text \<open>A step of the thread \<open>t\<close>, which changes nothing, or changes the table under the write lock,
  or takes something out of it.\<close>

lemma table_inv_step:
  assumes inv: "table_inv S" and t: "t < length (at_point S)"
    and k: "kinv (settled s')" and lk: "lock_fits lk' ((at_point S)[t := p])" and ok: "point_ok s' p"
    and how: "slot s' = slot (table S) \<and> sv_heap s' = sv_heap (table S) \<or> writes (at_point S ! t) \<or>
      reads (at_point S ! t) \<and> shrinks (table S) s'"
  shows "table_inv \<lparr>table = s', table_lock = lk', at_point = (at_point S)[t := p]\<rparr>"
proof -
  let ?ps = "at_point S"
  have fits: "lock_fits (table_lock S) ?ps" using inv by (simp add: table_inv_def)
  have "point_ok s' (?ps ! u)" if u: "u < length ?ps" "u \<noteq> t" for u
  proof -
    have old: "point_ok (table S) (?ps ! u)" using inv u(1) by (simp add: table_inv_def)
    from how show ?thesis
    proof (elim disjE conjE)
      assume w: "writes (?ps ! t)"
      have "num reads ?ps = 0" "num writes ?ps \<le> 1"
        using fits num_pos [where P = writes, OF t w] by (auto simp: lock_fits_def split: lock_st.splits)
      then have "\<not> reads (?ps ! u)" "\<not> writes (?ps ! u)"
        using num_pos [OF u(1), of reads] num_other [where P = writes, OF t u(1) _ w] u(2) by auto
      with old point_ok_free show ?thesis by blast
    next
      assume r: "reads (?ps ! t)" "shrinks (table S) s'"
      have "num writes ?ps = 0"
        using fits num_pos [where P = reads, OF t r(1)] by (auto simp: lock_fits_def split: lock_st.splits)
      then have "\<not> writes (?ps ! u)" using num_pos [OF u(1), of writes] by auto
      with old r(2) point_ok_shrinks show ?thesis by blast
    qed (use old point_ok_same in blast)
  qed
  with k lk ok t show ?thesis by (auto simp: table_inv_def nth_list_update)
qed

section \<open>The lock\<close>

lemma reads_or_writes: "reads p \<Longrightarrow> \<not> writes p"
  by (cases p) auto

lemma fits_keep:
  assumes "lock_fits lk ps" "t < length ps" "reads p \<longrightarrow> reads (ps ! t)" "writes p \<longrightarrow> writes (ps ! t)"
  shows "lock_fits lk (ps[t := p])"
  using assms num_update [OF assms(2), of reads p] num_update [OF assms(2), of writes p]
  by (auto simp: lock_fits_def of_bool_def split: lock_st.splits if_splits)

text \<open>\<open>free p\<close>: at this point the thread does not hold the lock.\<close>

abbreviation free :: "svc_pc \<Rightarrow> bool" where
  "free p \<equiv> \<not> reads p \<and> \<not> writes p"

lemma fits_take:
  assumes "lock_fits lk ps" "t < length ps" "free (ps ! t)"
    and "c = ReadLock SearchLock \<and> reads p \<or> c = WriteLock SearchLock \<and> writes p"
    and "lock_step SearchLock lk c \<noteq> Blocked"
  shows "lock_fits (lock_step SearchLock lk c) (ps[t := p])"
  using assms num_update [OF assms(2), of reads p] num_update [OF assms(2), of writes p] reads_or_writes [of p]
  by (cases lk) (auto simp: lock_fits_def of_bool_def split: if_splits)

lemma fits_give:
  assumes "lock_fits lk ps" "t < length ps" "free p"
    and "c = ReadUnlock SearchLock \<and> reads (ps ! t) \<or> c = WriteUnlock SearchLock \<and> writes (ps ! t)"
  shows "lock_fits (lock_step SearchLock lk c) (ps[t := p])"
  using assms num_update [OF assms(2), of reads p] num_update [OF assms(2), of writes p]
    reads_or_writes [of "ps ! t"]
  by (cases lk) (auto simp: lock_fits_def of_bool_def simp del: length_0_conv split: if_splits)

text \<open>A step that only counts, records or looks.\<close>

lemma local_point:
  assumes inv: "table_inv S" and t: "t < length (at_point S)"
    and same: "settled s' = settled (table S) \<or> (\<exists>c. settled s' = klogs c (settled (table S)))
      \<or> (\<exists>c d. settled s' = klogs c (klogs d (settled (table S))))"
    and lk: "lock_fits lk' ((at_point S)[t := p])" and ok: "point_ok (table S) p"
  shows "table_inv \<lparr>table = s', table_lock = lk', at_point = (at_point S)[t := p]\<rparr>"
proof -
  have "slot (settled s') = slot (settled (table S))" "sv_heap (settled s') = sv_heap (settled (table S))"
    and k: "kinv (settled s')"
    using same inv by (auto simp: table_inv_def simp del: settled_table settled_simps)
  then have eq: "slot s' = slot (table S)" "sv_heap s' = sv_heap (table S)" by simp_all
  show ?thesis
    by (rule table_inv_step [OF inv t k lk]) (use eq ok point_ok_same [OF eq, of p] in auto)
qed

section \<open>The searches\<close>

lemma load_entry_slot:
  "kinv (settled s) \<Longrightarrow> i < min_sys_TAG_Services \<Longrightarrow> load_entry s i = Some (slot s i)"
  "kinv (settled s) \<Longrightarrow> load_entry s i = Some x \<Longrightarrow> i < min_sys_TAG_Services \<and> x = slot s i"
  using kinv_slots [of "settled s"] by (auto simp: load_entry_def slot_def split: if_splits)

lemma unseen_Suc:
  "unseen s e i \<Longrightarrow> (\<And>sv. svc_at s i = Some sv \<Longrightarrow> \<not> wanted e sv) \<Longrightarrow> unseen s e (Suc i)"
  by (cases e) (auto simp: less_Suc_eq)

lemma next_entry_ok:
  assumes "errand_ok e" "unseen s e (Suc i)" "i < min_sys_TAG_Services"
  shows "point_ok s (next_entry e i)"
proof (cases "Suc i < min_sys_TAG_Services")
  case False
  with assms(3) have "min_sys_TAG_Services = Suc i" by simp
  with assms(1,2) show ?thesis by (simp add: next_entry_def)
qed (use assms in \<open>simp add: next_entry_def\<close>)

lemma next_entry_lock [simp]:
  "reads (next_entry e i) = (\<not> is_new e)" "writes (next_entry e i) = is_new e"
  by (simp_all add: next_entry_def)

lemma search_turn_lock:
  "search_turn e q s = Some p \<Longrightarrow> reads p = (\<not> is_new e) \<and> writes p = is_new e"
  by (cases q) (auto split: option.splits if_splits)

lemma search_turn_ok:
  assumes k: "kinv (settled s)" and q: "point_ok s q" "q = Testing e i \<or> q = Comparing e i \<or> q = Fetching e i"
    and st: "search_turn e q s = Some p"
  shows "point_ok s p"
  using q(2)
proof (elim disjE)
  assume e: "q = Testing e i"
  with q st k have i: "errand_ok e" "unseen s e i" "i < min_sys_TAG_Services" "load_entry s i = Some (slot s i)"
    by (auto intro: load_entry_slot)
  show ?thesis
  proof (cases "slot s i")
    case None
    then have "unseen s e (Suc i)" using i(2) by (intro unseen_Suc) (auto simp: svc_at_def)
    with None st e i next_entry_ok show ?thesis by auto
  qed (use st e i in auto)
next
  assume e: "q = Comparing e i"
  with q st k have i: "errand_ok e" "unseen s e i" "i < min_sys_TAG_Services" "load_entry s i = Some (slot s i)"
    "is_new e \<longrightarrow> slot s i \<noteq> None"
    by (auto intro: load_entry_slot)
  from st e i(4) obtain a sv where a: "slot s i = Some a" "sv_heap s a = Some sv"
    and p: "p = (if wanted e sv then Fetching e i else next_entry e i)"
    by (auto split: option.splits)
  show ?thesis
  proof (cases "wanted e sv")
    case False
    then have "unseen s e (Suc i)" using i(2) a by (intro unseen_Suc) (auto simp: svc_at_def)
    with False i(1,3) p next_entry_ok show ?thesis by simp
  qed (use i p in auto)
next
  assume e: "q = Fetching e i"
  with q st k have i: "errand_ok e" "load_entry s i = Some (slot s i)" "is_new e \<longrightarrow> slot s i \<noteq> None"
    by (auto intro: load_entry_slot)
  with st e show ?thesis by (cases "slot s i") (auto simp: unseen_old)
qed

section \<open>Creation\<close>

lemma new_TAG_Service_count:
  "new_TAG_Service env (s\<lparr>serviceCount := n\<rparr>) k u p =
   map_sum id (map_prod id (\<lambda>s'. s'\<lparr>serviceCount := n\<rparr>)) (new_TAG_Service env s k u p)"
  by (auto simp: new_TAG_Service_def rbind_def split: option.splits sum.splits)

lemma create_cases:
  assumes snd: "env_sound env" and inv: "kinv (settled s)" and ok: "point_ok s (Creating k p)"
    and st: "create env k p s lk = Some (q, s', lk')"
  obtains (full) "used s = min_sys_TAG_Services"
      "q = Answered (Inl (if k = TAG_IPC_PRIVATE then EBADR else EFAULT))" "s' = klogs ModulePut s" "lk' = lk"
  | (made) i a new where "free_slot s = Some i" "sv_heap s a = None" "lk' = lk"
      "q = (if k = TAG_IPC_PRIVATE then Releasing k a else Counting_In k a)"
      "kinv (settled s')" "svc_at s' = (svc_at s)(i \<mapsto> new)" "slot s' = (slot s)(i \<mapsto> a)"
      "sv_heap s' = (sv_heap s)(a \<mapsto> new)" "used s' = Suc (used s)" "serviceCount s' = serviceCount s"
      "sv_key new = k" "sv_perm new = p" "uid_Creator new = cur_tgid env" "sv_tag new = of_nat i"
proof -
  have free: "free_slot (settled s) = free_slot s" by (simp add: free_slot_def)
  have uncounted: "new_TAG_Service env s k u p = map_sum id (map_prod id (\<lambda>s'. s'\<lparr>serviceCount := serviceCount s\<rparr>))
      (new_TAG_Service env (settled s) k u p)" for u
    using new_TAG_Service_count [where s = "settled s" and n = "serviceCount s"] by (simp add: settled_def)
  show thesis
  proof (cases "free_slot s")
    case None
    then have u: "used s = min_sys_TAG_Services" using free_slot_None [OF inv] free by simp
    with new_TAG_Service_full [OF inv] have "new_TAG_Service env s k (cur_tgid env) p = Inr (None, s)"
      unfolding uncounted by (simp add: settled_def)
    with st u show thesis by (intro full) (simp_all add: create_def reply_def)
  next
    case (Some i)
    then have i: "free_slot (settled s) = Some i" by (simp only: free)
    show thesis
    proof (cases "kmalloc_service env (sv_heap s)")
      case None
      with st Some kinv_slots(1) [OF inv] show thesis
        by (simp add: create_def new_TAG_Service_def free_slot_def)
    next
      case al: (Some a)
      have kp: "k \<noteq> 0" "p = OPEN_ROOM \<or> p = PRIVATE_ROOM" using ok by auto
      obtain new m' where new: "new_TAG_Service env (settled s) k (cur_tgid env) p = Inr (Some a,
          (settled s)\<lparr>mem := m', sv_heap := (sv_heap s)(a \<mapsto> new), tagServices := Some ((slots s)[i := Some a])\<rparr>)"
        "sv_key new = k" "sv_tag new = of_nat i" "uid_Creator new = cur_tgid env" "sv_perm new = p"
        "svc_wf m' i new" "others_kept rcu_ok rcu_view rcu_foot (mem s) rcu_list_init m' (levels new)"
        by (rule new_TAG_Service_spec [OF snd inv i _ kp, of a "cur_tgid env"]) (simp add: al, rule that, simp_all)
      let ?s1 = "(settled s)\<lparr>mem := m', sv_heap := (sv_heap s)(a \<mapsto> new), tagServices := Some ((slots s)[i := Some a])\<rparr>"
      let ?s2 = "?s1\<lparr>serviceCount := of_nat (used s) + 1\<rparr>"
      have s': "s' = ?s1\<lparr>serviceCount := serviceCount s\<rparr>" "lk' = lk"
        "q = (if k = TAG_IPC_PRIVATE then Releasing k a else Counting_In k a)"
        using st unfolding create_def uncounted new(1) by simp_all
      have fr: "sv_heap (settled s) a = None" using snd al by (auto simp: env_sound_def alloc_sound_def)
      have sl: "slot (settled s) i = None" "i < min_sys_TAG_Services" using free_slot_Some [OF inv i] by auto
      have key: "sv_key new = TAG_IPC_PRIVATE \<or> (\<forall>j x. svc_at (settled s) j = Some x \<longrightarrow> sv_key x \<noteq> sv_key new)"
        using ok svc_at_slot [of "settled s"] slot_bound [OF inv] new(2) by fastforce
      have A: "kinv ?s2" "svc_at ?s2 = (svc_at (settled s))(i \<mapsto> new)" "used ?s2 = Suc (used (settled s))"
        "slot ?s2 = (slot (settled s))(i \<mapsto> a)"
        by (rule add_service [OF inv sl fr _ new(6) key, where s' = "?s2"]; use new(7) in simp)+
      have eq: "settled s' = ?s2" using A(3) by (simp add: s'(1) settled_def used_def slots_def)
      then have "slot s' = slot ?s2" "svc_at s' = svc_at ?s2" "used s' = used ?s2" by (metis settled_table)+
      with A have B: "svc_at s' = (svc_at s)(i \<mapsto> new)" "slot s' = (slot s)(i \<mapsto> a)" "used s' = Suc (used s)"
        by (simp_all only: settled_table)
      have C: "kinv (settled s')" using A(1) eq by (simp only: eq)
      have D: "sv_heap s' = (sv_heap s)(a \<mapsto> new)" "serviceCount s' = serviceCount s" by (simp_all add: s'(1))
      from fr have "sv_heap s a = None" by simp
      from made [OF Some this s'(2,3) C B(1,2) D(1) B(3) D(2) new(2,5,4,3)] show thesis .
    qed
  qed
qed

section \<open>Removal\<close>

lemma build_empty_table:
  assumes snd: "env_sound env" and inv: "kinv (settled s)" and st: "build_empty env s = Some s'"
  obtains b x where "sv_heap s b = None" "sv_heap s' = (sv_heap s)(b \<mapsto> x)" "sv_tag x = - 1"
    "kinv (settled s')" "svc_at s' = svc_at s" "slot s' = slot s" "used s' = used s"
    "serviceCount s' = serviceCount s"
proof -
  from st obtain b l m where al: "kmalloc_service env (sv_heap s) = Some b"
    and f: "list_fill (rcu_list_insert (kmalloc_element env) (ListLock b)) [0..<levelDeep]
      rcu_list_init (mem s) = Inr (l, m)"
    and s': "s' = s\<lparr>mem := m, sv_heap := (sv_heap s)
      (b \<mapsto> (fresh_service env)\<lparr>sv_key := 0, sv_tag := - 1, levels := l\<rparr>)\<rparr>"
    by (auto simp: build_empty_def split: option.splits sum.splits)
  have fr: "sv_heap s b = None" and el: "alloc_sound (kmalloc_element env)"
    using snd al by (auto simp: env_sound_def alloc_sound_def)
  have kept: "others_kept rcu_ok rcu_view rcu_foot (mem s) rcu_list_init m l"
    using rcu.init_fill [OF el, of "ListLock b" "[0..<levelDeep]" "mem s"] f by auto
  have heap: "sv_heap (settled s') a = sv_heap (settled s) a" if "slot (settled s) i = Some a" for i a
    using kinv_slot [OF inv that] fr by (auto simp: s')
  have tbl: "tagServices s' = tagServices s" "serviceCount s' = serviceCount s"
    "MAX_SERVICE_NUM s' = MAX_SERVICE_NUM s" "mem s' = m" by (simp_all add: s')
  then have u: "used s' = used s" by (simp add: used_def slots_def)
  have "kinv (settled s')" "svc_at (settled s') = svc_at (settled s)" "slot (settled s') = slot (settled s)"
    by (rule outside_table [OF inv _ _ _ heap, where l' = l]; use kept tbl u in simp)+
  then show thesis using fr s' u tbl
    by (intro that [of b "(fresh_service env)\<lparr>sv_key := 0, sv_tag := - 1, levels := l\<rparr>"]) simp_all
qed

lemma free_service_table:
  assumes inv: "kinv (settled s)" and x: "\<And>b j. x = Some b \<Longrightarrow> slot s j \<noteq> Some b"
    and st: "free_service x s = Some s'"
  shows "kinv (settled s')" "svc_at s' = svc_at s" "slot s' = slot s" "used s' = used s"
    "serviceCount s' = serviceCount s" "sv_heap s' = (\<lambda>a. if x = Some a then None else sv_heap s a)"
proof -
  have tbl: "tagServices s' = tagServices s" "serviceCount s' = serviceCount s"
    "MAX_SERVICE_NUM s' = MAX_SERVICE_NUM s" "mem s' = mem s"
    and h: "sv_heap s' = (\<lambda>a. if x = Some a then None else sv_heap s a)"
    using st by (auto simp: free_service_def fun_eq_iff split: option.splits if_splits)
  then have u: "used s' = used s" by (simp add: used_def slots_def)
  have heap: "sv_heap (settled s') a = sv_heap (settled s) a" if "slot (settled s) i = Some a" for i a
    using that x by (auto simp: h)
  have "kinv (settled s')" "svc_at (settled s') = svc_at (settled s)" "slot (settled s') = slot (settled s)"
    by (rule outside_table [OF inv _ _ _ heap, where l' = rcu_list_init]; use tbl u in simp)+
  then show "kinv (settled s')" "svc_at s' = svc_at s" "slot s' = slot s" "used s' = used s"
    "serviceCount s' = serviceCount s" "sv_heap s' = (\<lambda>a. if x = Some a then None else sv_heap s a)"
    using u tbl h by simp_all
qed

section \<open>Every step\<close>

lemma locking_eq: "locking c s lk f = Some y \<longleftrightarrow>
  lock_step SearchLock lk c \<noteq> Blocked \<and> f (klogs c s) (lock_step SearchLock lk c) = Some y"
  by (simp add: locking_def)

lemma reply_eq: "reply r s lk = Some (p, s', lk') \<longleftrightarrow> p = Answered r \<and> s' = klogs ModulePut s \<and> lk' = lk"
  by (auto simp: reply_def)

lemmas step_eqs = locking_eq reply_eq

lemma settled_two: "settled (klogs c (klogs d s)) = klogs c (klogs d (settled s))"
  by simp

lemma asking_keeps:
  assumes inv: "table_inv S" and t: "t < length (at_point S)" "at_point S ! t = Asking e"
    and st: "svc_step env (Asking e) (table S) (table_lock S) = Some (p, s', lk')"
  shows "table_inv \<lparr>table = s', table_lock = lk', at_point = (at_point S)[t := p]\<rparr>"
proof -
  have ok: "point_ok (table S) (Asking e)" and fits: "lock_fits (table_lock S) (at_point S)"
    using inv t by (auto simp: table_inv_def)
  from st have s: "s' = klogs (ask_lock e) (table S)" "lk' = lock_step SearchLock (table_lock S) (ask_lock e)"
    "lock_step SearchLock (table_lock S) (ask_lock e) \<noteq> Blocked"
    and p: "p = (case e of New_Service k p \<Rightarrow> if k = TAG_IPC_PRIVATE then Creating k p else Testing e 0
      | _ \<Rightarrow> Testing e 0)"
    by (auto simp: step_eqs)
  have "ask_lock e = ReadLock SearchLock \<and> reads p \<or> ask_lock e = WriteLock SearchLock \<and> writes p"
    by (cases e) (auto simp: p ask_lock_def)
  then have "lock_fits lk' ((at_point S)[t := p])"
    unfolding s(2) by (intro fits_take [OF fits t(1)]) (use t(2) s(3) in simp_all)
  moreover have "point_ok (table S) p"
    using ok by (cases e) (auto simp: p min_sys_TAG_Services_def)
  ultimately show ?thesis by (intro local_point [OF inv t(1)]) (auto simp: s(1))
qed

lemma turn_keeps:
  assumes inv: "table_inv S" and t: "t < length (at_point S)" "at_point S ! t = q"
    and q: "q = Testing e i \<or> q = Comparing e i \<or> q = Fetching e i"
    and st: "search_turn e q (table S) = Some p"
  shows "table_inv \<lparr>table = table S, table_lock = table_lock S, at_point = (at_point S)[t := p]\<rparr>"
proof -
  have k: "kinv (settled (table S))" "point_ok (table S) q" and fits: "lock_fits (table_lock S) (at_point S)"
    using inv t by (auto simp: table_inv_def)
  have "lock_fits (table_lock S) ((at_point S)[t := p])"
    using q search_turn_lock [OF st] by (intro fits_keep [OF fits t(1)]) (auto simp: t(2))
  with search_turn_ok [OF k q st] show ?thesis by (intro local_point [OF inv t(1)]) auto
qed

text \<open>The steps that leave the entries and the services as they are.\<close>

lemma quiet_keeps:
  assumes inv: "table_inv S" and t: "t < length (at_point S)" "at_point S ! t = q"
    and st: "svc_step env q (table S) (table_lock S) = Some (p, s', lk')"
    and q: "\<forall>k r. q \<noteq> Creating k r" "\<forall>a. q \<noteq> Emptying a" "\<forall>a. q \<noteq> Picking a" "\<forall>a x. q \<noteq> Clearing_Out a x"
      "\<forall>x. q \<noteq> Dropping x"
  shows "table_inv \<lparr>table = s', table_lock = lk', at_point = (at_point S)[t := p]\<rparr>"
proof -
  have ok: "point_ok (table S) q" and fits: "lock_fits (table_lock S) (at_point S)"
    using inv t by (auto simp: table_inv_def)
  note keep = fits_keep [OF fits t(1)] and give = fits_give [OF fits t(1)]
  show ?thesis
  proof (cases q)
    case (Asking e)
    with asking_keeps [OF inv t(1)] t(2) st show ?thesis by simp
  next
    case (Testing e i)
    with turn_keeps [OF inv t, of e i p] st show ?thesis by auto
  next
    case (Comparing e i)
    with turn_keeps [OF inv t, of e i p] st show ?thesis by auto
  next
    case (Fetching e i)
    with turn_keeps [OF inv t, of e i p] st show ?thesis by auto
  next
    case (Missing e)
    show ?thesis
      by (rule local_point [OF inv t(1)])
        (use st ok Missing t(2) in \<open>auto simp: not_found_def step_eqs split: errand.splits
          intro!: keep give\<close>)
  next
    case (Located e a)
    show ?thesis
      by (rule local_point [OF inv t(1)])
        (use st Located t(2) in \<open>auto simp: found_def step_eqs split: errand.splits intro!: keep give\<close>)
  next
    case (Permitting e a)
    show ?thesis
      by (rule local_point [OF inv t(1)])
        (use st Permitting t(2) in \<open>auto simp: allow_def step_eqs split: errand.splits option.splits if_splits
          intro!: keep\<close>)
  next
    case (Polling a)
    show ?thesis
      by (rule local_point [OF inv t(1)])
        (use st Polling t(2) in \<open>auto simp: poll_def split: if_splits intro!: keep\<close>)
  qed (rule local_point [OF inv t(1)];
      use st q ok t(2) in \<open>auto simp: step_eqs split: option.splits if_splits intro!: keep give\<close>)+
qed

lemma table_inv_at:
  "table_inv S \<Longrightarrow> t < length (at_point S) \<Longrightarrow> at_point S ! t = q \<Longrightarrow>
   kinv (settled (table S)) \<and> point_ok (table S) q \<and> lock_fits (table_lock S) (at_point S)"
  unfolding table_inv_def by blast

lemma creating_keeps:
  assumes inv: "table_inv S" and snd: "env_sound env" and t: "t < length (at_point S)" "at_point S ! t = Creating k r"
    and st: "create env k r (table S) (table_lock S) = Some (p, s', lk')"
  shows "table_inv \<lparr>table = s', table_lock = lk', at_point = (at_point S)[t := p]\<rparr>"
proof -
  have k: "kinv (settled (table S))" and ok: "point_ok (table S) (Creating k r)"
    and fits: "lock_fits (table_lock S) (at_point S)"
    using table_inv_at [OF inv t] by blast+
  from snd k ok st show ?thesis
  proof (cases rule: create_cases)
    case full
    then show ?thesis
      by (intro local_point [OF inv t(1)]) (auto intro!: fits_keep [OF fits t(1)] simp: t(2))
  next
    case (made i a new)
    show ?thesis
      by (rule table_inv_step [OF inv t(1) made(5)])
        (use made(3,4) t(2) in \<open>auto intro!: fits_keep [OF fits t(1)]\<close>)
  qed
qed

lemma own_entry_eq:
  assumes "kinv (settled s)"
  shows "own_entry s a = Some (i, x) \<longleftrightarrow>
    (\<exists>sv. sv_heap s a = Some sv \<and> i = unat (sv_tag sv) \<and> i < min_sys_TAG_Services \<and> x = slot s i)"
  using load_entry_slot [OF assms] by (auto simp: own_entry_def split: option.splits)

lemma picking_ok:
  assumes k: "kinv (settled s)" and st: "own_entry s a = Some (i, x)"
  shows "point_ok s (Clearing_Out a x)"
  using st slot_inj [OF k] by (auto simp: own_entry_eq [OF k])

lemma emptying_keeps:
  assumes inv: "table_inv S" and snd: "env_sound env" and t: "t < length (at_point S)" "at_point S ! t = Emptying a"
    and st: "build_empty env (table S) = Some s'"
  shows "table_inv \<lparr>table = s', table_lock = table_lock S, at_point = (at_point S)[t := Picking a]\<rparr>"
proof -
  have k: "kinv (settled (table S))" and fits: "lock_fits (table_lock S) (at_point S)"
    using inv by (auto simp: table_inv_def)
  from snd k st obtain b x where b: "sv_heap (table S) b = None" "sv_heap s' = (sv_heap (table S))(b \<mapsto> x)"
    "sv_tag x = - 1" "kinv (settled s')" "slot s' = slot (table S)"
    by (rule build_empty_table)
  moreover have "min_sys_TAG_Services \<le> unat (- 1 :: c_uint)" by (simp add: min_sys_TAG_Services_def unsigned_minus_1_eq_mask mask_eq_exp_minus_1)
  ultimately have "shrinks (table S) s'" by (auto simp: shrinks_def)
  with b(4) show ?thesis
    by (intro table_inv_step [OF inv t(1)]) (auto intro!: fits_keep [OF fits t(1)] simp: t(2))
qed

lemma clearing_keeps:
  assumes inv: "table_inv S" and t: "t < length (at_point S)" "at_point S ! t = Clearing_Out a x"
    and st: "own_entry (table S) a = Some (i, y)"
  shows "table_inv \<lparr>table = clear_entry i (table S), table_lock = table_lock S,
    at_point = (at_point S)[t := Dropping x]\<rparr>"
proof -
  have k: "kinv (settled (table S))" and ok: "point_ok (table S) (Clearing_Out a x)"
    and fits: "lock_fits (table_lock S) (at_point S)"
    using table_inv_at [OF inv t] by blast+
  from st obtain sv where sv: "sv_heap (table S) a = Some sv" "i = unat (sv_tag sv)" "i < min_sys_TAG_Services"
    by (auto simp: own_entry_eq [OF k])
  note C = clear_entry_table [OF k sv(3)]
  have heap: "sv_heap (clear_entry i (table S)) = sv_heap (table S)" by (simp add: clear_entry_def)
  then have "shrinks (table S) (clear_entry i (table S))"
    by (auto simp: shrinks_def C(3) split: if_splits)
  moreover have "point_ok (clear_entry i (table S)) (Dropping x)"
  proof -
    have "slot (clear_entry i (table S)) j \<noteq> Some b" if b: "x = Some b" for b j
    proof (cases "j = i")
      case True
      then show ?thesis by (simp add: C(3))
    next
      case False
      then have "slot (table S) j \<noteq> Some b" using ok sv b by auto
      with False show ?thesis by (simp add: C(3))
    qed
    then show ?thesis by simp
  qed
  ultimately show ?thesis
    by (intro table_inv_step [OF inv t(1) C(1)]) (auto intro!: fits_keep [OF fits t(1)] simp: t(2))
qed

lemma dropping_keeps:
  assumes inv: "table_inv S" and t: "t < length (at_point S)" "at_point S ! t = Dropping x"
    and st: "free_service x (table S) = Some s'"
  shows "table_inv \<lparr>table = s', table_lock = table_lock S, at_point = (at_point S)[t := Counting_Out]\<rparr>"
proof -
  have k: "kinv (settled (table S))" and x: "\<And>b j. x = Some b \<Longrightarrow> slot (table S) j \<noteq> Some b"
    and fits: "lock_fits (table_lock S) (at_point S)"
    using table_inv_at [OF inv t] by auto
  note F = free_service_table [OF k x st]
  have "shrinks (table S) s'" by (auto simp: shrinks_def F(3,6) split: if_splits)
  with F(1) show ?thesis
    by (intro table_inv_step [OF inv t(1)]) (auto intro!: fits_keep [OF fits t(1)] simp: t(2))
qed

lemma step_keeps:
  assumes inv: "table_inv S" and snd: "env_sound env" and t: "t < length (at_point S)" "at_point S ! t = q"
    and st: "svc_step env q (table S) (table_lock S) = Some (p, s', lk')"
  shows "table_inv \<lparr>table = s', table_lock = lk', at_point = (at_point S)[t := p]\<rparr>"
proof (cases q)
  case (Creating k r)
  with st creating_keeps [OF inv snd t(1)] t(2) show ?thesis by simp
next
  case (Emptying a)
  with st emptying_keeps [OF inv snd t(1)] t(2) show ?thesis by auto
next
  case (Picking a)
  have k: "kinv (settled (table S))" and fits: "lock_fits (table_lock S) (at_point S)"
    using table_inv_at [OF inv t] by blast+
  from st Picking obtain i x where "own_entry (table S) a = Some (i, x)" "p = Clearing_Out a x" "s' = table S"
    "lk' = table_lock S" by auto
  with picking_ok [OF k] show ?thesis
    by (intro local_point [OF inv t(1)]) (auto intro!: fits_keep [OF fits t(1)] simp: t(2) Picking)
next
  case (Clearing_Out a x)
  with st clearing_keeps [OF inv t(1)] t(2) show ?thesis by auto
next
  case (Dropping x)
  with st dropping_keeps [OF inv t(1)] t(2) show ?thesis by auto
qed (use quiet_keeps [OF inv t st] in auto)

lemma enter_ok: "enter e = Some p \<Longrightarrow> free p \<and> point_ok s p"
  by (cases e)
    (auto simp: permAmmisible_def keyAmmissible_def split: if_splits)

lemma event_keeps_table:
  assumes "table_inv S" "\<And>t. env_sound (envs t)" "svc_do envs ev S = Some S'"
  shows "table_inv S'"
proof (cases ev)
  case (Step t)
  with assms step_keeps [OF assms(1,2), of t "at_point S ! t"] show ?thesis by (auto split: if_splits)
next
  case (Call t e)
  with assms(3) obtain p where p: "t < length (at_point S)" "at_point S ! t = Outside" "enter e = Some p"
    "S' = \<lparr>table = klogs TryModuleGet (table S), table_lock = table_lock S, at_point = (at_point S)[t := p]\<rparr>"
    by (cases S) (auto split: if_splits)
  have "lock_fits (table_lock S) (at_point S)" using assms(1) by (simp add: table_inv_def)
  with p(1,2) enter_ok [OF p(3), of "table S"] show ?thesis
    unfolding p(4) by (intro local_point [OF assms(1)] fits_keep) auto
qed

lemma table_inv_start:
  assumes "table_start S"
  shows "table_inv S"
proof -
  have out: "at_point S ! t = Outside" if "t < length (at_point S)" for t
    using assms that by (simp add: table_start_def)
  have none: "num reads (at_point S) = 0" "num writes (at_point S) = 0"
    using assms by (auto simp: table_start_def filter_empty_conv)
  show ?thesis
    unfolding table_inv_def
  proof (intro conjI allI impI)
    show "kinv (settled (table S))" using assms by (simp add: table_start_def kinv_settled)
    show "lock_fits (table_lock S) (at_point S)" using assms none by (simp add: table_start_def lock_fits_def)
  qed (simp add: out)
qed

text \<open>The environments of the threads; their allocators answer free memory only.\<close>

definition sound_envs :: "(nat \<Rightarrow> kenv) \<Rightarrow> bool" where
  "sound_envs envs \<longleftrightarrow> (\<forall>t. env_sound (envs t))"

interpretation table_run: machine_invariant table_start "table_step envs ok" "\<lambda>S. sound_envs envs \<longrightarrow> table_inv S"
  for envs ok
proof
  show "sound_envs envs \<longrightarrow> table_inv S" if "table_start S" for S
    using that table_inv_start by blast
  show "sound_envs envs \<longrightarrow> table_inv S'" if "sound_envs envs \<longrightarrow> table_inv S" "table_step envs ok S S'" for S S'
    using that event_keeps_table [of S envs] by (auto simp: sound_envs_def elim: table_stepE)
qed

lemma reach_table_inv: "table_reach envs ok S \<Longrightarrow> sound_envs envs \<Longrightarrow> table_inv S"
  using table_run.reach_inv by blast

end
