(* ===== verification/ServiceProps.thy ===== *)
theory ServiceProps
  imports ServiceSafe Boot
begin

text \<open>
  Properties of the service table in every interleaving of the steps of \<open>ServiceSteps\<close>: it stays
  well formed and changes at one step per call; without removals no search of it, and no first use
  of the service found, follows a bad pointer.
\<close>

section \<open>Outcomes of a step\<close>

text \<open>What a step of a thread does to the table.\<close>

lemma search_turn_quiet:
  "search_turn e q s = Some p \<Longrightarrow> \<exists>i a. p \<in> {Testing e i, Comparing e i, Fetching e i, Missing e, Located e a}"
  by (cases q) (auto simp: next_entry_def split: option.splits if_splits)

definition same_table :: "kstate \<Rightarrow> kstate \<Rightarrow> bool" where
  "same_table s s' \<longleftrightarrow> slot s' = slot s \<and> sv_heap s' = sv_heap s \<and> used s' = used s"

lemma same_table_simps [simp]:
  "same_table s s" "same_table s (klogs c s)" "same_table s (s\<lparr>serviceCount := n\<rparr>)"
  "same_table s (klogs c (klogs d s))"
  by (simp_all add: same_table_def)

lemma same_table_svc_at: "same_table s s' \<Longrightarrow> svc_at s' = svc_at s"
  by (auto simp: same_table_def svc_at_def fun_eq_iff split: option.split)

fun changes :: "svc_pc \<Rightarrow> bool" where
  "changes (Creating k p) = True"
| "changes (Emptying a) = True"
| "changes (Clearing_Out a x) = True"
| "changes (Dropping x) = True"
| "changes _ = False"

lemma unchanged:
  assumes "svc_step env q s lk = Some (p, s', lk')" "\<not> changes q"
  shows "same_table s s'"
  using assms
  by (cases q)
    (auto simp: step_eqs not_found_def found_def allow_def split: errand.splits option.splits if_splits)

section \<open>No change is seen half done\<close>

type_synonym entry_info = "c_int \<times> c_int \<times> c_int"

text \<open>Key, permission and creator of the service in each entry.\<close>

definition info :: "TAG_Service \<Rightarrow> entry_info" where
  "info sv = (sv_key sv, sv_perm sv, uid_Creator sv)"

definition directory :: "kstate \<Rightarrow> nat \<Rightarrow> entry_info option" where
  "directory s i = map_option info (svc_at s i)"

definition dir_add :: "entry_info \<Rightarrow> (nat \<Rightarrow> entry_info option) \<Rightarrow> nat \<Rightarrow> entry_info option" where
  "dir_add x d = (case find (\<lambda>i. d i = None) [0..<min_sys_TAG_Services] of
     None \<Rightarrow> d | Some i \<Rightarrow> d(i \<mapsto> x))"

definition key_taken :: "c_int \<Rightarrow> (nat \<Rightarrow> entry_info option) \<Rightarrow> bool" where
  "key_taken k d \<longleftrightarrow> (\<exists>i x. d i = Some x \<and> fst x = k)"

text \<open>The change an event makes: one entry at the creation, one at the removal.\<close>

definition dir_effect ::
  "(nat \<Rightarrow> kenv) \<Rightarrow> svc_event \<Rightarrow> svc_sys \<Rightarrow> (nat \<Rightarrow> entry_info option) \<Rightarrow> nat \<Rightarrow> entry_info option" where
  "dir_effect envs ev S d = (case ev of
     Call t e \<Rightarrow> d
   | Step t \<Rightarrow> (case at_point S ! t of
       Creating k p \<Rightarrow> dir_add (k, p, cur_tgid (envs t)) d
     | Clearing_Out a x \<Rightarrow> d(unat (sv_tag (the (sv_heap (table S) a))) := None)
     | _ \<Rightarrow> d))"

lemma directory_same: "same_table s s' \<Longrightarrow> directory s' = directory s"
  by (auto simp: directory_def same_table_svc_at fun_eq_iff)

lemma find_first_index: "find P [n..<n + length xs] = map_option ((+) n) (first_index Q xs)"
  if "\<And>i. i < length xs \<Longrightarrow> P (n + i) = Q (xs ! i)"
  using that
proof (induction xs arbitrary: n)
  case Nil
  then show ?case by simp
next
  case (Cons x xs)
  have "find P [Suc n..<Suc n + length xs] = map_option ((+) (Suc n)) (first_index Q xs)"
    using Cons.prems [of "Suc i" for i] by (intro Cons.IH) simp
  moreover have "P n = Q x" using Cons.prems [of 0] by simp
  ultimately show ?case
    by (cases "first_index Q xs") (auto simp: upt_conv_Cons simp del: upt_Suc)
qed

lemma directory_free:
  assumes "kinv (settled s)"
  shows "find (\<lambda>i. directory s i = None) [0..<min_sys_TAG_Services] = free_slot s"
proof -
  have len: "length (slots s) = min_sys_TAG_Services" using kinv_slots [OF assms] by simp
  have "directory s i = None \<longleftrightarrow> slots s ! i = None" if "i < length (slots s)" for i
    using that kinv_slot [OF assms, of i] by (auto simp: directory_def slot_def svc_at_def split: option.splits)
  moreover have "map_option ((+) 0) x = x" for x :: "nat option" by (cases x) simp_all
  ultimately show ?thesis
    using find_first_index [of "slots s" "\<lambda>i. directory s i = None" 0 "\<lambda>x. x = None"]
    by (simp add: len free_slot_def)
qed

lemma step_directory:
  assumes inv: "table_inv S" and snd: "env_sound env" and t: "t < length (at_point S)" "at_point S ! t = q"
    and st: "svc_step env q (table S) (table_lock S) = Some (p, s', lk')"
  shows "directory s' = (case q of
      Creating k r \<Rightarrow> dir_add (k, r, cur_tgid env) (directory (table S))
    | Clearing_Out a x \<Rightarrow> (directory (table S))(unat (sv_tag (the (sv_heap (table S) a))) := None)
    | _ \<Rightarrow> directory (table S))"
proof (cases "changes q")
  case False
  with directory_same [OF unchanged [OF st False]] show ?thesis by (cases q) auto
next
  case True
  have k: "kinv (settled (table S))" and ok: "point_ok (table S) q" using table_inv_at [OF inv t] by auto
  show ?thesis
  proof (cases q)
    case (Creating key r)
    with ok st have c: "point_ok (table S) (Creating key r)"
      "create env key r (table S) (table_lock S) = Some (p, s', lk')" by simp_all
    from snd k c show ?thesis
    proof (cases rule: create_cases)
      case full
      then have "free_slot (table S) = None"
        using free_slot_None [OF k] by (simp add: free_slot_def)
      with full Creating directory_free [OF k] show ?thesis by (simp add: dir_add_def directory_same)
    next
      case (made i a new)
      then have "directory s' = (directory (table S))(i \<mapsto> info new)"
        by (auto simp: directory_def fun_eq_iff)
      with made Creating directory_free [OF k] show ?thesis by (simp add: dir_add_def info_def)
    qed
  next
    case (Emptying a)
    with st have "build_empty env (table S) = Some s'" by auto
    from snd k this have "svc_at s' = svc_at (table S)" by (rule build_empty_table)
    with Emptying show ?thesis by (simp add: directory_def fun_eq_iff)
  next
    case (Clearing_Out a x)
    with st obtain i y where "own_entry (table S) a = Some (i, y)" "s' = clear_entry i (table S)" by auto
    moreover from this obtain sv where "sv_heap (table S) a = Some sv" "i = unat (sv_tag sv)" "i < min_sys_TAG_Services"
      by (auto simp: own_entry_eq [OF k])
    ultimately show ?thesis using clear_entry_table(2) [OF k] Clearing_Out
      by (simp add: directory_def fun_eq_iff)
  next
    case (Dropping x)
    with st have "free_service x (table S) = Some s'" by auto
    with free_service_table(2) [OF k _ this] ok Dropping show ?thesis by (simp add: directory_def fun_eq_iff)
  qed (use True in simp_all)
qed

text \<open>C5: However creations, lookups and removals interleave, the table of services changes at one
  step of each call and all at once: a creation writes its service into the first free entry, and
  then no entry has its key unless it is the private one; a removal clears one entry; every other
  step leaves keys, permissions and creators of all entries as they are.\<close>

theorem table_changes_at_once:
  assumes "table_reach envs ok S" "sound_envs envs" "svc_do envs ev S = Some S'"
  shows "directory (table S') = dir_effect envs ev S (directory (table S)) \<and>
    (\<forall>t k p. ev = Step t \<longrightarrow> at_point S ! t = Creating k p \<longrightarrow> k \<noteq> TAG_IPC_PRIVATE \<longrightarrow>
       \<not> key_taken k (directory (table S)))"
proof -
  have inv: "table_inv S" by (rule reach_table_inv [OF assms(1,2)])
  have snd: "env_sound (envs t)" for t using assms(2) by (simp add: sound_envs_def)
  have "directory (table S') = dir_effect envs ev S (directory (table S))"
  proof (cases ev)
    case (Step t)
    with assms(3) obtain p s' lk' where p: "t < length (at_point S)"
      "svc_step (envs t) (at_point S ! t) (table S) (table_lock S) = Some (p, s', lk')" "table S' = s'"
      by (auto split: if_splits)
    from step_directory [OF inv snd p(1) refl p(2)] show ?thesis by (simp add: Step dir_effect_def p(3))
  next
    case (Call t e)
    with assms(3) have "table S' = klogs TryModuleGet (table S)" by (auto split: if_splits)
    with Call show ?thesis by (simp add: dir_effect_def directory_same)
  qed
  moreover have "\<not> key_taken k (directory (table S))"
    if "ev = Step t" "at_point S ! t = Creating k p" "k \<noteq> TAG_IPC_PRIVATE" for t k p
  proof -
    from that assms(3) have "t < length (at_point S)" by (auto split: if_splits)
    from table_inv_at [OF inv this that(2)] that(3)
    have "\<forall>j < min_sys_TAG_Services. \<forall>sv. svc_at (table S) j = Some sv \<longrightarrow> sv_key sv \<noteq> k"
      and k: "kinv (settled (table S))" by auto
    moreover have "j < min_sys_TAG_Services" if "svc_at (table S) j = Some sv" for j sv
      using that svc_at_slot [of "settled (table S)"] slot_bound [OF k] by fastforce
    ultimately show ?thesis by (auto simp: key_taken_def directory_def info_def)
  qed
  ultimately show ?thesis by blast
qed

section \<open>Without removals\<close>

definition grows :: "kstate \<Rightarrow> kstate \<Rightarrow> bool" where
  "grows s s' \<longleftrightarrow> (\<forall>i a. slot s i = Some a \<longrightarrow> slot s' i = Some a) \<and>
     (\<forall>a sv. sv_heap s a = Some sv \<longrightarrow> sv_heap s' a = Some sv)"

lemma grows_same: "same_table s s' \<Longrightarrow> grows s s'"
  by (simp add: same_table_def grows_def)

fun removes :: "svc_pc \<Rightarrow> bool" where
  "removes (Asking e) = is_take e"
| "removes (Testing e i) = is_take e"
| "removes (Comparing e i) = is_take e"
| "removes (Fetching e i) = is_take e"
| "removes (Missing e) = is_take e"
| "removes (Located e a) = is_take e"
| "removes (Permitting e a) = is_take e"
| "removes (Polling a) = True"
| "removes (Emptying a) = True"
| "removes (Picking a) = True"
| "removes (Clearing_Out a x) = True"
| "removes (Dropping x) = True"
| "removes Counting_Out = True"
| "removes Finishing = True"
| "removes _ = False"

lemma removes_step:
  assumes "svc_step env q s lk = Some (p, s', lk')" "removes p"
  shows "removes q"
  using assms
  by (cases q)
    (auto simp: step_eqs not_found_def found_def allow_def create_def poll_def next_entry_def
      split: errand.splits option.splits if_splits sum.splits)

lemma free_slot_empty: "kinv (settled s) \<Longrightarrow> free_slot s = Some i \<Longrightarrow> slot s i = None"
  using free_slot_Some [of "settled s" i] by (simp add: free_slot_def)

lemma step_grows:
  assumes inv: "table_inv S" and snd: "env_sound env" and t: "t < length (at_point S)" "at_point S ! t = q"
    and st: "svc_step env q (table S) (table_lock S) = Some (p, s', lk')"
    and q: "\<And>a x. q \<noteq> Clearing_Out a x" "\<And>x. q \<noteq> Dropping x"
  shows "grows (table S) s'"
proof (cases "changes q")
  case False
  show ?thesis by (rule grows_same [OF unchanged [OF st False]])
next
  case True
  have k: "kinv (settled (table S))" and ok: "point_ok (table S) q" using table_inv_at [OF inv t] by auto
  show ?thesis
  proof (cases q)
    case (Creating key r)
    with ok st have c: "point_ok (table S) (Creating key r)"
      "create env key r (table S) (table_lock S) = Some (p, s', lk')" by simp_all
    from snd k c show ?thesis
    proof (cases rule: create_cases)
      case (made i a new)
      with free_slot_empty [OF k made(1)] show ?thesis by (auto simp: grows_def)
    qed (simp add: grows_same)
  next
    case (Emptying a)
    with st have "build_empty env (table S) = Some s'" by auto
    from snd k this obtain b x where "sv_heap (table S) b = None" "sv_heap s' = (sv_heap (table S))(b \<mapsto> x)"
      "slot s' = slot (table S)" by (rule build_empty_table)
    then show ?thesis by (auto simp: grows_def)
  qed (use True q in simp_all)
qed

text \<open>The services a thread has a pointer to.\<close>

fun holds :: "svc_pc \<Rightarrow> addr set" where
  "holds (Located e a) = {a}"
| "holds (Releasing k a) = {a}"
| "holds (Counting_In k a) = {a}"
| "holds (Telling a) = {a}"
| "holds (Permitting e a) = {a}"
| "holds (Replying a) = {a}"
| "holds (Using a) = {a}"
| "holds _ = {}"

fun under_test :: "svc_pc \<Rightarrow> nat set" where
  "under_test (Comparing e i) = {i}"
| "under_test (Fetching e i) = {i}"
| "under_test _ = {}"

lemma next_entry_nothing [simp]:
  "holds (next_entry e i) = {}" "under_test (next_entry e i) = {}" "removes (next_entry e i) = is_take e"
  by (simp_all add: next_entry_def)

definition live :: "kstate \<Rightarrow> svc_pc \<Rightarrow> bool" where
  "live s p \<longleftrightarrow> \<not> removes p \<and> (\<forall>a \<in> holds p. sv_heap s a \<noteq> None) \<and> (\<forall>i \<in> under_test p. slot s i \<noteq> None)"

lemma live_grows: "grows s s' \<Longrightarrow> live s p \<Longrightarrow> live s' p"
  by (fastforce simp: live_def grows_def)

lemma step_live:
  assumes inv: "table_inv S" and snd: "env_sound env" and t: "t < length (at_point S)" "at_point S ! t = q"
    and st: "svc_step env q (table S) (table_lock S) = Some (p, s', lk')" and l: "live (table S) q"
  shows "live s' p"
proof -
  have k: "kinv (settled (table S))" and ok: "point_ok (table S) q" using table_inv_at [OF inv t] by auto
  have nr: "\<not> removes p" using removes_step [OF st] l by (auto simp: live_def)
  have entry: "slot (table S) i = Some a" if "load_entry (table S) i = Some (Some a)" for i a
    using load_entry_slot(2) [OF k that] by simp
  have heap: "\<exists>sv. sv_heap (table S) a = Some sv" if "load_entry (table S) i = Some (Some a)" for i a
    using kinv_slot [OF k, of i a] entry [OF that] by auto
  show ?thesis
  proof (cases q)
    case (Creating key r)
    with ok st have c: "point_ok (table S) (Creating key r)"
      "create env key r (table S) (table_lock S) = Some (p, s', lk')" by simp_all
    from snd k c show ?thesis by (cases rule: create_cases) (auto simp: live_def)
  next
    case (Testing e i)
    with st nr show ?thesis by (auto simp: live_def split: option.splits dest: entry)
  next
    case (Comparing e i)
    with st nr l show ?thesis by (auto simp: live_def split: option.splits if_splits)
  next
    case (Fetching e i)
    with st nr show ?thesis by (auto simp: live_def split: option.splits dest: heap)
  next
    case (Missing e)
    with st nr show ?thesis by (auto simp: live_def not_found_def step_eqs split: errand.splits)
  next
    case (Located e a)
    with st nr l show ?thesis by (auto simp: live_def found_def step_eqs split: errand.splits)
  next
    case (Permitting e a)
    with st nr l show ?thesis by (auto simp: live_def allow_def step_eqs split: errand.splits option.splits if_splits)
  qed (use st nr l in \<open>auto simp: live_def step_eqs split: errand.splits option.splits if_splits\<close>)
qed

definition no_removal :: "svc_event \<Rightarrow> bool" where
  "no_removal ev = (case ev of Call t e \<Rightarrow> \<not> is_take e | Step t \<Rightarrow> True)"

definition all_live :: "svc_sys \<Rightarrow> bool" where
  "all_live S \<longleftrightarrow> table_inv S \<and> (\<forall>t < length (at_point S). live (table S) (at_point S ! t))"

lemma enter_live: "enter e = Some p \<Longrightarrow> \<not> is_take e \<Longrightarrow> live s p"
  by (cases e) (auto simp: live_def split: if_splits)

lemma event_live:
  assumes al: "all_live S" and snd: "sound_envs envs" and ok: "no_removal ev" and st: "svc_do envs ev S = Some S'"
  shows "all_live S'"
proof -
  have inv: "table_inv S" and l: "\<And>u. u < length (at_point S) \<Longrightarrow> live (table S) (at_point S ! u)"
    using al by (auto simp: all_live_def)
  have sn: "env_sound (envs t)" for t using snd by (simp add: sound_envs_def)
  have inv': "table_inv S'" by (rule event_keeps_table [OF inv sn st])
  have "\<exists>t p. t < length (at_point S) \<and> at_point S' = (at_point S)[t := p] \<and> live (table S') p \<and>
    grows (table S) (table S')"
  proof (cases ev)
    case (Step t)
    with st obtain p s' lk' where p: "t < length (at_point S)" "S' = \<lparr>table = s', table_lock = lk', at_point = (at_point S)[t := p]\<rparr>"
      "svc_step (envs t) (at_point S ! t) (table S) (table_lock S) = Some (p, s', lk')"
      by (auto split: if_splits)
    have "\<not> removes (at_point S ! t)" using l [OF p(1)] by (simp add: live_def)
    then have "\<And>a x. at_point S ! t \<noteq> Clearing_Out a x" "\<And>x. at_point S ! t \<noteq> Dropping x" by auto
    with step_grows [OF inv sn p(1) refl p(3)] step_live [OF inv sn p(1) refl p(3) l [OF p(1)]] p(1,2)
    show ?thesis by auto
  next
    case (Call t e)
    with st obtain p where "t < length (at_point S)" "enter e = Some p"
      "S' = S\<lparr>table := klogs TryModuleGet (table S), at_point := (at_point S)[t := p]\<rparr>"
      by (auto split: if_splits)
    with Call ok enter_live [of e p] show ?thesis by (auto simp: no_removal_def grows_same)
  qed
  then obtain t p where "t < length (at_point S)" "at_point S' = (at_point S)[t := p]" "live (table S') p"
    "grows (table S) (table S')" by blast
  with inv' l live_grows show ?thesis by (auto simp: all_live_def nth_list_update)
qed

lemma all_live_start:
  assumes "table_start S"
  shows "all_live S"
proof -
  have "at_point S ! t = Outside" if "t < length (at_point S)" for t
    using assms that by (simp add: table_start_def)
  with table_inv_start [OF assms] show ?thesis by (simp add: all_live_def live_def)
qed

interpretation live_run: machine_invariant table_start "table_step envs no_removal"
  "\<lambda>S. sound_envs envs \<longrightarrow> all_live S" for envs
proof
  show "sound_envs envs \<longrightarrow> all_live S" if "table_start S" for S
    using that all_live_start by blast
  show "sound_envs envs \<longrightarrow> all_live S'" if "sound_envs envs \<longrightarrow> all_live S" "table_step envs no_removal S S'" for S S'
    using that event_live [of S envs] by (auto elim: table_stepE)
qed

lemma unlock_goes_on:
  "lock_fits lk ps \<Longrightarrow> c = ReadUnlock SearchLock \<or> c = WriteUnlock SearchLock \<Longrightarrow> lock_step SearchLock lk c \<noteq> Blocked"
  by (cases lk) (auto simp: lock_fits_def split: if_splits)

lemma unlocking_some:
  assumes "lock_fits lk ps" "c = ReadUnlock SearchLock \<or> c = WriteUnlock SearchLock" "\<And>s' lk'. f s' lk' \<noteq> None"
  shows "locking c s lk f \<noteq> None"
  using unlock_goes_on [OF assms(1,2)] assms(3) by (auto simp: locking_def)

lemma reply_some: "reply r s lk \<noteq> None"
  by (simp add: reply_def)

lemma create_some:
  assumes snd: "env_sound env" and inv: "kinv (settled s)" and ok: "point_ok s (Creating k p)"
    and al: "kmalloc_service env (sv_heap s) = Some a"
  shows "create env k p s lk \<noteq> None"
proof -
  have ex: "\<exists>r. new_TAG_Service env (settled s) k (cur_tgid env) p = Inr r"
  proof (cases "free_slot (settled s)")
    case None
    with new_TAG_Service_full [OF inv] free_slot_None [OF inv] show ?thesis by blast
  next
    case (Some i)
    have kp: "k \<noteq> 0" "p = OPEN_ROOM \<or> p = PRIVATE_ROOM" using ok by auto
    show ?thesis
      by (rule new_TAG_Service_spec [OF snd inv Some _ kp, of a "cur_tgid env"]) (simp add: al, blast)
  qed
  have "new_TAG_Service env s k (cur_tgid env) p =
      map_sum id (map_prod id (\<lambda>s'. s'\<lparr>serviceCount := serviceCount s\<rparr>))
        (new_TAG_Service env (settled s) k (cur_tgid env) p)"
    using new_TAG_Service_count [where s = "settled s" and n = "serviceCount s"] by (simp add: settled_def)
  with ex show ?thesis by (auto simp: create_def reply_def split: option.splits)
qed

text \<open>Where a thread may have to wait, or the kernel may have no memory for it.\<close>

definition may_stop :: "kenv \<Rightarrow> kstate \<Rightarrow> svc_pc \<Rightarrow> bool" where
  "may_stop env s q \<longleftrightarrow> (case q of
     Asking e \<Rightarrow> True
   | Creating k p \<Rightarrow> kmalloc_service env (sv_heap s) = None
   | Emptying a \<Rightarrow> kmalloc_service env (sv_heap s) = None
   | _ \<Rightarrow> False)"

lemma live_goes_on:
  assumes inv: "table_inv S" and snd: "env_sound env" and t: "t < length (at_point S)" "at_point S ! t = q"
    and l: "live (table S) q" and q: "q \<noteq> Outside" "\<not> may_stop env (table S) q"
  shows "svc_step env q (table S) (table_lock S) \<noteq> None"
proof -
  have k: "kinv (settled (table S))" and ok: "point_ok (table S) q" and fits: "lock_fits (table_lock S) (at_point S)"
    using table_inv_at [OF inv t] by auto
  note unl = unlocking_some [OF fits]
  show ?thesis
  proof (cases q)
    case (Creating key r)
    with ok q(2) create_some [OF snd k, of key r] show ?thesis by (auto simp: may_stop_def)
  next
    case (Testing e i)
    with ok load_entry_slot(1) [OF k, of i] show ?thesis by (auto split: option.splits)
  next
    case (Comparing e i)
    with ok l load_entry_slot(1) [OF k, of i] kinv_slot [OF k, of i] show ?thesis
      by (auto simp: live_def split: option.splits)
  next
    case (Fetching e i)
    with ok load_entry_slot(1) [OF k, of i] show ?thesis by (auto split: option.splits)
  next
    case (Missing e)
    then show ?thesis by (cases e) (simp_all add: not_found_def unl reply_some)
  next
    case (Located e a)
    then show ?thesis by (cases e) (simp_all add: found_def unl reply_some)
  next
    case (Permitting e a)
    with ok l show ?thesis by (auto simp: live_def allow_def permitted_def reply_def split: errand.splits)
  qed (use q l in \<open>auto simp: may_stop_def live_def unl reply_def\<close>)
qed

text \<open>C6: The searches of the table of services, with creations and lookups only.  In every
  interleaving without removals, a thread inside \<^verbatim>\<open>tag_get\<close>, or inside \<^verbatim>\<open>tag_send\<close>, \<^verbatim>\<open>tag_receive\<close>
  or \<^verbatim>\<open>AWAKE_ALL\<close> up to its first use of the service it found, after \<^verbatim>\<open>searchLock\<close> has been given
  back, never follows a null entry or a pointer to a freed service: it can make its next step,
  unless it waits for the lock or the kernel has no memory.  What these calls then do with the
  nodes of the service's own list is not part of this claim (\<open>current_reader_safe\<close>,
  \<open>overtaken_reader_dangles\<close>).\<close>

theorem lookups_are_safe:
  assumes "table_reach envs no_removal S" "sound_envs envs" "t < length (at_point S)"
    and "at_point S ! t \<noteq> Outside" "\<not> may_stop (envs t) (table S) (at_point S ! t)"
  shows "svc_do envs (Step t) S \<noteq> None"
proof -
  have "all_live S" using live_run.reach_inv [OF assms(1)] assms(2) by blast
  then have "table_inv S" "live (table S) (at_point S ! t)" using assms(3) by (auto simp: all_live_def)
  with live_goes_on [of S "envs t" t "at_point S ! t"] assms(2-5) show ?thesis by (simp add: sound_envs_def)
qed

section \<open>At a concrete state\<close>

text \<open>\<open>k\<close> threads outside the calls, on a table of \<open>n\<close> services that everybody may use.\<close>

definition crowd_sys :: "nat \<Rightarrow> nat \<Rightarrow> svc_sys" where
  "crowd_sys n k = \<lparr>table = crowd n, table_lock = Readers 0, at_point = replicate k Outside\<rparr>"

definition ready_envs :: "nat \<Rightarrow> kenv" where
  "ready_envs t = plenty 1 10"

lemma ready_sound [simp]: "sound_envs ready_envs" "env_sound (ready_envs t)"
  by (simp_all add: sound_envs_def ready_envs_def)

lemma crowd_start: "n \<le> min_sys_TAG_Services \<Longrightarrow> table_start (crowd_sys n k)"
  by (simp add: table_start_def crowd_sys_def crowd)

lemma crowd_sys_simps [simp]:
  "table (crowd_sys n k) = crowd n" "table_lock (crowd_sys n k) = Readers 0"
  "at_point (crowd_sys n k) = replicate k Outside"
  by (simp_all add: crowd_sys_def)

lemma crowd_heap [simp]: "sv_heap (crowd n) = (\<lambda>a. if a < n then Some (crowd_service a) else None)"
  by (simp add: crowd_def)

lemma crowd_slot: "n \<le> min_sys_TAG_Services \<Longrightarrow> slot (crowd n) i = (if i < n then Some i else None)"
  by (auto simp: slot_def slots_def crowd_def)

lemma crowd_alloc: "n < 300 \<Longrightarrow> kmalloc_service (ready_envs t) (sv_heap (crowd n)) \<noteq> None"
  by (auto simp: ready_envs_def arena_def find_None_iff intro!: bexI [of _ n])

text \<open>A thread that has entered a call, and one that has the lock.\<close>

lemma entered:
  assumes "enter e = Some p" "n \<le> min_sys_TAG_Services" "ok (Call 0 e)"
  shows "table_reach ready_envs ok \<lparr>table = klogs TryModuleGet (crowd n), table_lock = Readers 0, at_point = [p]\<rparr>"
proof (rule svc_run_reach [OF _ _ start_reach [OF crowd_start [OF assms(2), of 1]]])
  show "svc_run ready_envs [Call 0 e] (crowd_sys n 1) =
      Some \<lparr>table = klogs TryModuleGet (crowd n), table_lock = Readers 0, at_point = [p]\<rparr>"
    using assms(1) by (simp add: crowd_sys_def)
qed (use assms(3) in simp)

lemma searching:
  assumes "enter e = Some (Asking e)" "\<not> is_new e" "n \<le> min_sys_TAG_Services" "ok (Call 0 e)" "ok (Step 0)"
  shows "table_reach ready_envs ok \<lparr>table = klogs (ReadLock SearchLock) (klogs TryModuleGet (crowd n)),
    table_lock = Readers 1, at_point = [Testing e 0]\<rparr>"
proof (rule svc_run_reach [OF _ _ entered [where ok = ok, OF assms(1,3,4)]])
  show "svc_run ready_envs [Step 0] \<lparr>table = klogs TryModuleGet (crowd n), table_lock = Readers 0, at_point = [Asking e]\<rparr> =
      Some \<lparr>table = klogs (ReadLock SearchLock) (klogs TryModuleGet (crowd n)), table_lock = Readers 1,
        at_point = [Testing e 0]\<rparr>"
    using assms(2) by (cases e) (simp_all add: locking_def ask_lock_def)
qed (use assms(5) in simp)

theorem table_changes_at_once_witness:
  "\<exists>S S'. table_reach ready_envs (\<lambda>_. True) S \<and> at_point S = [Creating TAG_IPC_PRIVATE OPEN_ROOM] \<and>
     svc_do ready_envs (Step 0) S = Some S' \<and>
     directory (table S') = dir_add (TAG_IPC_PRIVATE, OPEN_ROOM, 10) (directory (table S))"
proof -
  let ?s = "klogs (WriteLock SearchLock) (klogs TryModuleGet (crowd 2))" and ?p = "Creating TAG_IPC_PRIVATE OPEN_ROOM"
  let ?S = "\<lparr>table = ?s, table_lock = Writer, at_point = [?p]\<rparr>"
  have n: "2 \<le> min_sys_TAG_Services" by (simp add: min_sys_TAG_Services_def)
  have e: "enter (New_Service TAG_IPC_PRIVATE OPEN_ROOM) = Some (Limiting TAG_IPC_PRIVATE OPEN_ROOM)"
    by (simp add: permAmmisible_def keyAmmissible_def tag_macros)
  have "\<not> MAX_SERVICE_NUM (crowd 2) \<le> serviceCount (crowd 2)"
    using count_full [OF crowd(1) [OF n]] crowd(2) [OF n] by (simp add: min_sys_TAG_Services_def)
  then have "svc_run ready_envs [Step 0, Step 0] \<lparr>table = klogs TryModuleGet (crowd 2), table_lock = Readers 0,
      at_point = [Limiting TAG_IPC_PRIVATE OPEN_ROOM]\<rparr> = Some ?S"
    by (simp add: locking_def ask_lock_def)
  then have r: "table_reach ready_envs (\<lambda>_. True) ?S"
    by (rule svc_run_reach) (use entered [OF e n] in simp_all)
  have "create (ready_envs 0) TAG_IPC_PRIVATE OPEN_ROOM ?s Writer \<noteq> None"
  proof (rule create_some)
    show "kinv (settled ?s)" using crowd(1) [OF n] by (simp add: kinv_settled)
    show "kmalloc_service (ready_envs 0) (sv_heap ?s) = Some (the (kmalloc_service (ready_envs 0) (sv_heap (crowd 2))))"
      using crowd_alloc [of 2 0] by simp
  qed (simp_all add: tag_macros)
  then obtain S' where st: "svc_do ready_envs (Step 0) ?S = Some S'" by auto
  from table_changes_at_once [OF r _ st]
  have "directory (table S') = dir_effect ready_envs (Step 0) ?S (directory ?s)" by simp
  with r st show ?thesis
    by (intro exI [of _ ?S] exI [of _ S']) (simp add: dir_effect_def ready_envs_def)
qed

theorem lookups_are_safe_witness:
  "\<exists>S. table_reach ready_envs no_removal S \<and> at_point S = [Testing (With_Tag 0) 0] \<and>
     svc_do ready_envs (Step 0) S \<noteq> None"
proof -
  let ?S = "\<lparr>table = klogs (ReadLock SearchLock) (klogs TryModuleGet (crowd 1)), table_lock = Readers 1,
    at_point = [Testing (With_Tag 0) 0]\<rparr>"
  have r: "table_reach ready_envs no_removal ?S"
    by (rule searching) (simp_all add: no_removal_def min_sys_TAG_Services_def)
  from lookups_are_safe [OF r, of 0] have "svc_do ready_envs (Step 0) ?S \<noteq> None" by (simp add: may_stop_def)
  with r show ?thesis by (intro exI [of _ ?S]) simp
qed

end
