(* ===== verification/ServiceRuns.thy ===== *)
theory ServiceRuns
  imports ServiceProps CtlCorrect
begin

text \<open>
  A call that runs alone, step by step, does what the whole function of \<open>TagMessaging\<close> computes;
  and in every interleaving the lock is in the state that the recorded calls have left it in.
\<close>

section \<open>One thread alone\<close>

text \<open>\<open>gets env q s lk q' s' lk'\<close>: steps of one thread lead from the first point to the second.\<close>

inductive gets :: "kenv \<Rightarrow> svc_pc \<Rightarrow> kstate \<Rightarrow> lock_st \<Rightarrow> svc_pc \<Rightarrow> kstate \<Rightarrow> lock_st \<Rightarrow> bool" for env :: kenv where
  gets_refl: "gets env q s lk q s lk"
| gets_step: "svc_step env q s lk = Some (q1, s1, lk1) \<Longrightarrow> gets env q1 s1 lk1 q' s' lk' \<Longrightarrow> gets env q s lk q' s' lk'"

lemma gets_one: "svc_step env q s lk = Some (q', s', lk') \<Longrightarrow> gets env q s lk q' s' lk'"
  by (blast intro: gets.intros)

lemma gets_trans: "gets env q s lk q1 s1 lk1 \<Longrightarrow> gets env q1 s1 lk1 q' s' lk' \<Longrightarrow> gets env q s lk q' s' lk'"
  by (induction rule: gets.induct) (auto intro: gets_step)

lemma gets_run:
  assumes "gets (envs t) q s lk q' s' lk'" "t < length ps" "ps ! t = q"
  shows "\<exists>n. svc_run envs (steps n t) \<lparr>table = s, table_lock = lk, at_point = ps\<rparr> =
    Some \<lparr>table = s', table_lock = lk', at_point = ps[t := q']\<rparr>"
  using assms
proof (induction arbitrary: ps rule: gets.induct)
  case (gets_refl q s lk)
  then have "svc_run envs (steps 0 t) \<lparr>table = s, table_lock = lk, at_point = ps\<rparr> =
    Some \<lparr>table = s, table_lock = lk, at_point = ps[t := q]\<rparr>" by auto
  then show ?case by blast
next
  case (gets_step q s lk q1 s1 lk1 q' s' lk')
  from gets_step.IH [of "ps[t := q1]"] gets_step.prems obtain n where
    n: "svc_run envs (steps n t) \<lparr>table = s1, table_lock = lk1, at_point = ps[t := q1]\<rparr> =
      Some \<lparr>table = s', table_lock = lk', at_point = ps[t := q']\<rparr>" by auto
  have "svc_run envs (steps (Suc n) t) \<lparr>table = s, table_lock = lk, at_point = ps\<rparr> =
      Some \<lparr>table = s', table_lock = lk', at_point = ps[t := q']\<rparr>"
    using gets_step n by simp
  then show ?case by blast
qed

text \<open>A search.\<close>

definition search_end :: "errand \<Rightarrow> addr option \<Rightarrow> svc_pc" where
  "search_end e r = (case r of None \<Rightarrow> Missing e | Some a \<Rightarrow> Located e a)"

lemma scan_alone:
  assumes "tagServices s = Some ps" "length ps = min_sys_TAG_Services" "i < min_sys_TAG_Services"
    and "scan_services (wanted e) (sv_heap s) (drop i ps) = Inr r"
  shows "gets env (Testing e i) s lk (search_end e r) s lk"
  using assms(3,4)
proof (induction "min_sys_TAG_Services - i" arbitrary: i)
  case (Suc n)
  have entry: "load_entry s i = Some (ps ! i)" using assms(1,2) Suc.prems(1) by (simp add: load_entry_def)
  have scan: "scan_services (wanted e) (sv_heap s) (ps ! i # drop (Suc i) ps) = Inr r"
    using Suc.prems assms(2) by (simp add: Cons_nth_drop_Suc)
  have rest: "gets env (next_entry e i) s lk (search_end e r) s lk"
    if "scan_services (wanted e) (sv_heap s) (drop (Suc i) ps) = Inr r"
  proof (cases "Suc i < min_sys_TAG_Services")
    case True
    with Suc.hyps that show ?thesis by (simp add: next_entry_def)
  next
    case False
    with that assms(2) show ?thesis by (auto simp: next_entry_def search_end_def intro: gets_refl)
  qed
  show ?case
  proof (cases "ps ! i")
    case None
    with scan rest entry show ?thesis by - (rule gets_step [of env _ s lk "next_entry e i" s lk], simp_all)
  next
    case (Some a)
    with scan obtain sv where sv: "sv_heap s a = Some sv" by (cases "sv_heap s a") auto
    have "gets env (Comparing e i) s lk (search_end e r) s lk"
    proof (cases "wanted e sv")
      case True
      with scan Some sv have r: "r = Some a" by simp
      have "svc_step env (Fetching e i) s lk = Some (Located e a, s, lk)" using entry Some by simp
      with True sv entry Some show ?thesis
        by - (rule gets_step [of env _ s lk "Fetching e i" s lk], (auto simp: r search_end_def intro: gets_one))
    next
      case False
      with rest scan Some sv entry show ?thesis
        by - (rule gets_step [of env _ s lk "next_entry e i" s lk], simp_all)
    qed
    with entry Some show ?thesis by - (rule gets_step [of env _ s lk "Comparing e i" s lk], simp_all)
  qed
qed simp

lemma settled_slots:
  "kinv (settled s) \<Longrightarrow> tagServices s = Some (slots s)" "kinv (settled s) \<Longrightarrow> length (slots s) = min_sys_TAG_Services"
  using kinv_slots [of "settled s"] by simp_all

lemma search_alone:
  assumes "kinv (settled s)" "scan_services (wanted e) (sv_heap s) (slots s) = Inr r"
  shows "gets env (Testing e 0) s lk (search_end e r) s lk"
  by (rule scan_alone [OF settled_slots [OF assms(1)]]) (use assms(2) in \<open>simp_all add: min_sys_TAG_Services_def\<close>)

section \<open>The whole calls\<close>

definition whole_errand :: "kenv \<Rightarrow> kstate \<Rightarrow> errand \<Rightarrow> (rv \<times> kstate) res" where
  "whole_errand env s e = (case e of
     New_Service k p \<Rightarrow> tag_get env s k CREATE p
   | With_Key k \<Rightarrow> tag_get env s k OPEN OPEN_ROOM
   | Take_Away t \<Rightarrow> tag_ctl env s t REMOVE
   | With_Tag t \<Rightarrow> Inl Fault)"

lemma wanted_key: "wanted (New_Service k p) = (\<lambda>sv. sv_key sv = k)" "wanted (With_Key k) = (\<lambda>sv. sv_key sv = k)"
  and wanted_tag: "wanted (Take_Away t) = (\<lambda>sv. sv_tag sv = t)" "wanted (With_Tag t) = (\<lambda>sv. sv_tag sv = t)"
  by (auto simp: fun_eq_iff)

lemma searches:
  assumes "kinv s"
  shows "searchTAG_Service_withKey s k = scan_services (\<lambda>sv. sv_key sv = k) (sv_heap s) (slots s)"
    "searchTAG_Service_withTag s t = scan_services (\<lambda>sv. sv_tag sv = t) (sv_heap s) (slots s)"
  by (simp_all add: searchTAG_Service_withKey_def searchTAG_Service_withTag_def kinv_slots(1) [OF assms])

lemma open_alone:
  assumes inv: "kinv s" and run: "tag_get_OPEN env s k = Inr (r, s')" and k: "k \<noteq> TAG_IPC_PRIVATE"
  shows "\<exists>lk'. gets env (Asking (With_Key k)) s (Readers 0) (Answered r) s' lk'"
proof -
  let ?s = "klogs (ReadLock SearchLock) s"
  have inv': "kinv ?s" using inv by simp
  from run k obtain x where x: "searchTAG_Service_withKey ?s k = Inr x"
    by (cases "searchTAG_Service_withKey ?s k") (auto simp: tag_get_OPEN_def Let_def)
  have go: "gets env (Asking (With_Key k)) s (Readers 0) (search_end (With_Key k) x) ?s (Readers (Suc 0))"
    by (rule gets_step [of env _ s _ "Testing (With_Key k) 0" ?s "Readers (Suc 0)"])
      (use search_alone [OF kinv_settled [OF inv'], of "With_Key k"] x searches [OF inv'] in
        \<open>simp_all add: locking_def ask_lock_def wanted_key\<close>)
  have "\<exists>lk'. gets env (search_end (With_Key k) x) ?s (Readers (Suc 0)) (Answered r) s' lk'"
  proof (cases x)
    case None
    with run k x show ?thesis
      by (intro exI [of _ "Readers 0"] gets_one)
        (simp add: tag_get_OPEN_def Let_def search_end_def not_found_def locking_def reply_def put_return_def)
  next
    case (Some a)
    let ?s1 = "klogs (ReadUnlock SearchLock) ?s"
    from run k x Some obtain sv where sv: "sv_heap s a = Some sv"
      and r: "(if validServiceOperation env sv then Inr (Inr (sv_tag sv), ?s1) else put_return (Inl EBADRQC) ?s1) = Inr (r, s')"
      by (auto simp: tag_get_OPEN_def Let_def case_stuck split: if_splits)
    have 1: "svc_step env (Located (With_Key k) a) ?s (Readers (Suc 0)) =
        Some (Permitting (With_Key k) a, ?s1, Readers 0)" by (simp add: found_def locking_def)
    have v: "permitted env ?s1 a = Some (validServiceOperation env sv)"
      by (simp add: permitted_def sv validServiceOperation_def)
    have "gets env (Permitting (With_Key k) a) ?s1 (Readers 0) (Answered r) s' (Readers 0)"
    proof (cases "validServiceOperation env sv")
      case True
      with r sv v show ?thesis
        by - (rule gets_step [of env _ ?s1 _ "Replying a" ?s1 "Readers 0"], (auto simp: allow_def intro: gets_one))
    next
      case False
      with r v show ?thesis by (auto simp: allow_def reply_def put_return_def intro: gets_one)
    qed
    with gets_step [OF 1] Some show ?thesis by (auto simp: search_end_def)
  qed
  with gets_trans [OF go] show ?thesis by blast
qed

text \<open>A creation from the write section on.\<close>

lemma creating_alone:
  assumes c: "new_TAG_Service env s k (cur_tgid env) p = Inr (x, s1)"
    and r: "(case x of
        None \<Rightarrow> put_return (Inl (if k = TAG_IPC_PRIVATE then EBADR else EFAULT)) s1
      | Some a \<Rightarrow>
          let s2 = klogs (WriteUnlock SearchLock) s1; s3 = s2\<lparr>serviceCount := serviceCount s2 + 1\<rparr>
          in (case sv_heap s3 a of None \<Rightarrow> Inl Fault | Some sv \<Rightarrow> put_return (Inr (sv_tag sv)) s3)) = Inr (r, s')"
  shows "\<exists>lk'. gets env (Creating k p) s Writer (Answered r) s' lk'"
proof (cases x)
  case None
  with c r have "svc_step env (Creating k p) s Writer = Some (Answered r, s', Writer)"
    by (simp add: create_def reply_def put_return_def)
  then show ?thesis by (blast intro: gets_one)
next
  case (Some a)
  let ?s2 = "klogs (WriteUnlock SearchLock) s1"
  let ?s3 = "?s2\<lparr>serviceCount := serviceCount ?s2 + 1\<rparr>"
  from r Some obtain sv where sv: "sv_heap s1 a = Some sv" "put_return (Inr (sv_tag sv)) ?s3 = Inr (r, s')"
    by (auto simp: Let_def case_stuck)
  then have last: "svc_step env (Telling a) ?s3 (Readers 0) = Some (Answered r, s', Readers 0)"
    by (simp add: reply_def put_return_def)
  have "gets env (Creating k p) s Writer (Answered r) s' (Readers 0)"
  proof (cases "k = TAG_IPC_PRIVATE")
    case True
    with c Some have "svc_step env (Creating k p) s Writer = Some (Releasing k a, s1, Writer)"
      by (simp add: create_def)
    moreover have "svc_step env (Releasing k a) s1 Writer = Some (Counting_In k a, ?s2, Readers 0)"
      "svc_step env (Counting_In k a) ?s2 (Readers 0) = Some (Telling a, ?s3, Readers 0)"
      using True by (simp_all add: locking_def)
    ultimately show ?thesis using last by (blast intro: gets.intros)
  next
    case False
    let ?s4 = "s1\<lparr>serviceCount := serviceCount s1 + 1\<rparr>"
    have "svc_step env (Creating k p) s Writer = Some (Counting_In k a, s1, Writer)"
      using c Some False by (simp add: create_def)
    moreover have "svc_step env (Counting_In k a) s1 Writer = Some (Releasing k a, ?s4, Writer)"
      using False by simp
    moreover have "svc_step env (Releasing k a) ?s4 Writer = Some (Telling a, ?s3, Readers 0)"
      using False by (simp add: locking_def klogs_def)
    ultimately show ?thesis using last by (blast intro: gets.intros)
  qed
  then show ?thesis by blast
qed

lemma klogs_count: "klogs c (s\<lparr>serviceCount := n\<rparr>) = (klogs c s)\<lparr>serviceCount := n\<rparr>"
  by (simp add: klogs_def)

lemma create_alone:
  assumes inv: "kinv s" and run: "tag_get_CREATE env s k p = Inr (r, s')"
  shows "\<exists>lk'. gets env (Limiting k p) s (Readers 0) (Answered r) s' lk'"
proof (cases "MAX_SERVICE_NUM s \<le> serviceCount s")
  case True
  with run have "svc_step env (Limiting k p) s (Readers 0) = Some (Answered r, s', Readers 0)"
    by (simp add: tag_get_CREATE_def reply_def put_return_def)
  then show ?thesis by (blast intro: gets_one)
next
  case False
  let ?e = "New_Service k p" and ?s = "klogs (WriteLock SearchLock) s"
  have 1: "svc_step env (Limiting k p) s (Readers 0) = Some (Asking ?e, s, Readers 0)" using False by simp
  have 2: "svc_step env (Asking ?e) s (Readers 0) =
      Some (if k = TAG_IPC_PRIVATE then Creating k p else Testing ?e 0, ?s, Writer)"
    by (simp add: locking_def ask_lock_def)
  have inv': "kinv ?s" using inv by simp
  have "\<exists>lk'. gets env (if k = TAG_IPC_PRIVATE then Creating k p else Testing ?e 0) ?s Writer (Answered r) s' lk'"
  proof (cases "k = TAG_IPC_PRIVATE")
    case True
    with run False obtain x s1 where n: "new_TAG_Service env ?s k (cur_tgid env) p = Inr (x, s1)"
      by (auto simp: tag_get_CREATE_def)
    have "\<exists>lk'. gets env (Creating k p) ?s Writer (Answered r) s' lk'"
      by (rule creating_alone [OF n]) (use run False True n in \<open>simp add: tag_get_CREATE_def\<close>)
    with True show ?thesis by simp
  next
    case False
    note pub = this
    from run \<open>\<not> MAX_SERVICE_NUM s \<le> serviceCount s\<close> pub obtain x where
      x: "searchTAG_Service_withKey ?s k = Inr x" by (auto simp: tag_get_CREATE_def Let_def)
    have go: "gets env (Testing ?e 0) ?s Writer (search_end ?e x) ?s Writer"
      using search_alone [OF kinv_settled [OF inv'], of ?e] x searches [OF inv'] by (simp add: wanted_key)
    have "\<exists>lk'. gets env (search_end ?e x) ?s Writer (Answered r) s' lk'"
    proof (cases x)
      case (Some a)
      with run \<open>\<not> MAX_SERVICE_NUM s \<le> serviceCount s\<close> pub x show ?thesis
        by (intro exI [of _ "Readers 0"] gets_one)
          (simp add: tag_get_CREATE_def Let_def search_end_def found_def locking_def reply_def put_return_def)
    next
      case None
      with run \<open>\<not> MAX_SERVICE_NUM s \<le> serviceCount s\<close> pub x obtain y s1 where
        n: "new_TAG_Service env ?s k (cur_tgid env) p = Inr (y, s1)"
        by (auto simp: tag_get_CREATE_def Let_def)
      have "\<exists>lk'. gets env (Creating k p) ?s Writer (Answered r) s' lk'"
        using run \<open>\<not> MAX_SERVICE_NUM s \<le> serviceCount s\<close> pub x None n
        by (intro creating_alone [OF n]) (auto simp: tag_get_CREATE_def Let_def klogs_count split: option.splits)
      moreover have "svc_step env (Missing ?e) ?s Writer = Some (Creating k p, ?s, Writer)"
        by (simp add: not_found_def)
      ultimately have "\<exists>lk'. gets env (Missing ?e) ?s Writer (Answered r) s' lk'" by (blast intro: gets_step)
      with None show ?thesis by (simp add: search_end_def)
    qed
    with gets_trans [OF go] pub show ?thesis by auto
  qed
  with gets_step [OF 1 gets_step [OF 2]] show ?thesis by blast
qed

text \<open>A removal after the check of the sleepers.\<close>

lemma emptying_alone:
  assumes inv: "kinv s" and snd: "env_sound env" and sl: "slot s i = Some a" and sv: "sv_heap s a = Some sv"
    and al: "kmalloc_service env (sv_heap s) = Some b"
    and f: "list_fill (rcu_list_insert (kmalloc_element env) (ListLock b)) [0..<levelDeep] rcu_list_init (mem s) = Inr (l, m)"
    and e: "e = (fresh_service env)\<lparr>sv_key := 0, sv_tag := - 1, levels := l\<rparr>"
    and s': "s' = klogs (ReadUnlock SearchLock) (s\<lparr>mem := m, sv_heap := (sv_heap s)(b \<mapsto> e, a := None),
        tagServices := Some ((slots s)[i := None]), serviceCount := serviceCount s - 1\<rparr>)"
  shows "gets env (Emptying a) s (Readers (Suc 0)) (Answered (Inr 0)) (klogs ModulePut s') (Readers 0)"
proof -
  have fr: "sv_heap s b = None" using snd al by (auto simp: env_sound_def alloc_sound_def)
  have ab: "a \<noteq> b" using fr sv by auto
  have "svc_at s i = Some sv" using sl sv by (simp add: svc_at_def)
  with kinv_wf [OF inv] slot_bound [OF inv sl] have tag: "unat (sv_tag sv) = i"
    by (auto simp: svc_wf_def unat_of_nat min_sys_TAG_Services_def)
  have i: "i < length (slots s)" "slots s ! i = Some a" using sl by (auto simp: slot_def split: if_splits)
  note T = kinv_slots(1) [OF inv]
  let ?s1 = "s\<lparr>mem := m, sv_heap := (sv_heap s)(b \<mapsto> e)\<rparr>"
  let ?s2 = "?s1\<lparr>tagServices := Some ((slots s)[i := None])\<rparr>"
  let ?s3 = "?s2\<lparr>sv_heap := (sv_heap s)(b \<mapsto> e, a := None)\<rparr>"
  let ?s4 = "?s3\<lparr>serviceCount := serviceCount s - 1\<rparr>"
  let ?lk = "Readers (Suc 0)"
  have own: "own_entry ?s1 a = Some (i, Some a)"
    using sv ab tag i T by (simp add: own_entry_def load_entry_def)
  have "svc_step env (Emptying a) s ?lk = Some (Picking a, ?s1, ?lk)"
    using al f by (simp add: build_empty_def e)
  moreover have "svc_step env (Picking a) ?s1 ?lk = Some (Clearing_Out a (Some a), ?s1, ?lk)" using own by simp
  moreover have "svc_step env (Clearing_Out a (Some a)) ?s1 ?lk = Some (Dropping (Some a), ?s2, ?lk)"
    using own T by (simp add: clear_entry_def)
  moreover have "svc_step env (Dropping (Some a)) ?s2 ?lk = Some (Counting_Out, ?s3, ?lk)"
    using sv ab by (simp add: free_service_def)
  moreover have "svc_step env Counting_Out ?s3 ?lk = Some (Finishing, ?s4, ?lk)" by simp
  moreover have "svc_step env Finishing ?s4 ?lk = Some (Answered (Inr 0), klogs ModulePut s', Readers 0)"
    by (simp add: locking_def reply_def s')
  ultimately show ?thesis by (blast intro: gets.intros)
qed

lemma removal_alone:
  assumes inv: "kinv s" and snd: "env_sound env" and run: "tag_ctl_TBDE_REMOVE env s t = Inr (r, s')"
  shows "\<exists>lk'. gets env (Asking (Take_Away t)) s (Readers 0) (Answered r) s' lk'"
proof -
  let ?e = "Take_Away t" and ?s = "klogs (ReadLock SearchLock) s" and ?lk = "Readers (Suc 0)"
  have inv': "kinv ?s" using inv by simp
  have x: "searchTAG_Service_withTag ?s t = Inr (slot s (unat t))" by (rule search_tag_klogs(1) [OF inv])
  have go: "gets env (Asking ?e) s (Readers 0) (search_end ?e (slot s (unat t))) ?s ?lk"
    by (rule gets_step [of env _ s _ "Testing ?e 0" ?s ?lk])
      (use search_alone [OF kinv_settled [OF inv'], of ?e] x searches [OF inv'] in \<open>simp_all add: locking_def ask_lock_def wanted_tag\<close>)
  have "\<exists>lk'. gets env (search_end ?e (slot s (unat t))) ?s ?lk (Answered r) s' lk'"
  proof (cases "slot s (unat t)")
    case None
    with run x show ?thesis
      by (intro exI [of _ "Readers 0"] gets_one)
        (simp add: tag_ctl_TBDE_REMOVE_def Let_def search_end_def not_found_def locking_def reply_def put_return_def)
  next
    case (Some a)
    then obtain sv where sv: "sv_heap s a = Some sv" using kinv_slot [OF inv] by blast
    have 1: "svc_step env (Located ?e a) ?s ?lk = Some (Permitting ?e a, ?s, ?lk)" by (simp add: found_def)
    have v: "permitted env ?s a = Some (validServiceOperation env sv)"
      by (simp add: permitted_def sv validServiceOperation_def)
    have "\<exists>lk'. gets env (Permitting ?e a) ?s ?lk (Answered r) s' lk'"
    proof (cases "validServiceOperation env sv")
      case False
      with run x Some sv v show ?thesis
        by (intro exI [of _ ?lk] gets_one)
          (simp add: tag_ctl_TBDE_REMOVE_def Let_def allow_def reply_def put_return_def)
    next
      case True
      with v have 2: "svc_step env (Permitting ?e a) ?s ?lk = Some (Polling a, ?s, ?lk)" by (simp add: allow_def)
      show ?thesis
      proof (cases "list_ex (waitqueue_active (levels sv)) [0..<levelDeep]")
        case sleep: True
        with sv have "svc_step env (Polling a) ?s ?lk = Some (Answered (Inl EADDRINUSE), ?s, ?lk)"
          by (simp add: poll_def)
        moreover have "r = Inl EADDRINUSE" "s' = ?s"
          using run x Some sv True sleep by (simp_all add: tag_ctl_TBDE_REMOVE_def Let_def)
        ultimately show ?thesis using 2 by (blast intro: gets.intros)
      next
        case awake: False
        with sv have 3: "svc_step env (Polling a) ?s ?lk = Some (Emptying a, ?s, ?lk)" by (simp add: poll_def)
        have tag: "unat (sv_tag sv) = unat t"
          using kinv_wf [OF inv, of "unat t" sv] Some sv slot_bound [OF inv Some]
          by (auto simp: svc_wf_def svc_at_def)
        from run x Some sv True awake obtain b l m where
          al: "kmalloc_service env (sv_heap ?s) = Some b"
          and f: "list_fill (rcu_list_insert (kmalloc_element env) (ListLock b)) [0..<levelDeep] rcu_list_init (mem ?s) = Inr (l, m)"
          by (auto simp: tag_ctl_TBDE_REMOVE_def Let_def case_stuck simp del: klogs_simps(5))
        have sl: "slot ?s (unat t) = Some a" "sv_heap ?s a = Some sv" using Some sv by simp_all
        have i: "unat t < length (slots s)" "slots s ! unat t = Some a"
          using Some by (auto simp: slot_def split: if_splits)
        from run x Some sv True awake al f tag i kinv_slots(1) [OF inv]
        have "r = Inr 0" "s' = klogs ModulePut (klogs (ReadUnlock SearchLock)
          (?s\<lparr>mem := m, sv_heap := (sv_heap ?s)(b \<mapsto> (fresh_service env)\<lparr>sv_key := 0, sv_tag := - 1, levels := l\<rparr>, a := None),
            tagServices := Some ((slots ?s)[unat t := None]), serviceCount := serviceCount ?s - 1\<rparr>))"
          by (auto simp: tag_ctl_TBDE_REMOVE_def Let_def put_return_def simp del: klogs_simps(5))
        with emptying_alone [OF inv' snd sl al f refl refl] gets_step [OF 2 gets_step [OF 3]] show ?thesis by blast
      qed
    qed
    with gets_step [OF 1] Some show ?thesis by (auto simp: search_end_def)
  qed
  with gets_trans [OF go] show ?thesis by blast
qed

text \<open>C9: A call of \<^verbatim>\<open>tag_get\<close> or a removal that runs alone, step by step, from any well-formed
  table with the lock free, ends with the answer and the state that the whole function computes.\<close>

theorem calls_alone:
  assumes start: "table_start S" and t: "t < length (at_point S)" "enter e \<noteq> None" and snd: "env_sound (envs t)"
    and live: "module_live (envs t)" and run: "whole_errand (envs t) (table S) e = Inr (r, s')"
  shows "\<exists>n S'. svc_run envs (Call t e # steps n t) S = Some S' \<and> table S' = s' \<and>
    at_point S' = (at_point S)[t := Answered r]"
proof -
  have out: "at_point S ! t = Outside" using start t(1) by (simp add: table_start_def)
  let ?s = "klogs TryModuleGet (table S)"
  have inv: "kinv ?s" using start by (simp add: table_start_def)
  from t(2) obtain p where p: "enter e = Some p" by blast
  have "\<exists>lk'. gets (envs t) p ?s (Readers 0) (Answered r) s' lk'"
  proof (cases e)
    case (New_Service k q)
    with p run live have "tag_get_CREATE (envs t) ?s k q = Inr (r, s')" "p = Limiting k q"
      by (auto simp: whole_errand_def tag_get_def Let_def split: if_splits)
    with create_alone [OF inv] show ?thesis by blast
  next
    case (With_Key k)
    with p run live have o: "tag_get_OPEN (envs t) ?s k = Inr (r, s')"
      by (auto simp: whole_errand_def tag_get_def Let_def permAmmisible_def tag_macros split: if_splits)
    show ?thesis
    proof (cases "k = TAG_IPC_PRIVATE")
      case True
      with o p With_Key have "p = Answered r" "s' = ?s" by (auto simp: tag_get_OPEN_def split: if_splits)
      then show ?thesis by (auto intro: gets_refl)
    next
      case False
      with open_alone [OF inv o] p With_Key show ?thesis by (auto split: if_splits)
    qed
  next
    case (Take_Away q)
    with p run live have "tag_ctl_TBDE_REMOVE (envs t) ?s q = Inr (r, s')" "p = Asking (Take_Away q)"
      by (auto simp: whole_errand_def tag_ctl_def Let_def tag_macros split: if_splits)
    with removal_alone [OF inv snd] show ?thesis by blast
  qed (use run in \<open>simp add: whole_errand_def\<close>)
  then obtain lk' where go: "gets (envs t) p ?s (Readers 0) (Answered r) s' lk'" by blast
  from gets_run [where envs = envs and t = t, OF go, of "(at_point S)[t := p]"] t(1) obtain n where
    "svc_run envs (steps n t) \<lparr>table = ?s, table_lock = Readers 0, at_point = (at_point S)[t := p]\<rparr> =
      Some \<lparr>table = s', table_lock = lk', at_point = (at_point S)[t := Answered r]\<rparr>" by auto
  moreover have "S\<lparr>table := ?s, at_point := (at_point S)[t := p]\<rparr> =
      \<lparr>table = ?s, table_lock = Readers 0, at_point = (at_point S)[t := p]\<rparr>"
    using start by (cases S) (simp add: table_start_def)
  ultimately have "svc_run envs (Call t e # steps n t) S =
      Some \<lparr>table = s', table_lock = lk', at_point = (at_point S)[t := Answered r]\<rparr>"
    using t(1) out p by simp
  then show ?thesis by fastforce
qed

section \<open>The lock and the log\<close>

definition records :: "kstate \<Rightarrow> lock_st \<Rightarrow> kstate \<Rightarrow> lock_st \<Rightarrow> bool" where
  "records s lk s' lk' \<longleftrightarrow>
     (\<exists>cs. klog (mem s') = klog (mem s) @ cs \<and> foldl (lock_step SearchLock) lk cs = lk')"

lemma records_refl: "records s lk s lk"
  by (auto simp: records_def)

lemma records_trans: "records s lk s1 lk1 \<Longrightarrow> records s1 lk1 s' lk' \<Longrightarrow> records s lk s' lk'"
  by (auto simp: records_def)

lemma records_klogs: "records s lk s' lk' \<Longrightarrow> records s lk (klogs c s') (lock_step SearchLock lk' c)"
  by (auto simp: records_def)

lemma records_mem: "mem s' = mem s \<Longrightarrow> records s lk s' lk"
  by (auto simp: records_def)

lemma fill_log:
  assumes "env_sound env"
    and "list_fill (rcu_list_insert (kmalloc_element env) (ListLock a)) [0..<levelDeep] rcu_list_init m = Inr (l, m')"
  shows "\<exists>n. klog m' = klog m @ write_sections (ListLock a) n"
  using assms rcu.init_fill [of "kmalloc_element env" "ListLock a" "[0..<levelDeep]" m]
  by (auto simp: env_sound_def)

lemma new_TAG_Service_log:
  assumes "env_sound env" "new_TAG_Service env s k u p = Inr (x, s')"
  shows "\<exists>a n. klog (mem s') = klog (mem s) @ write_sections (ListLock a) n"
proof (cases x)
  case None
  with assms(2) have "s' = s" by (auto simp: new_TAG_Service_def split: option.splits)
  then have "klog (mem s') = klog (mem s) @ write_sections (ListLock a) 0" for a by simp
  then show ?thesis by blast
next
  case (Some a)
  with assms(2) obtain l where "list_fill (rcu_list_insert (kmalloc_element env) (ListLock a)) [0..<levelDeep]
      rcu_list_init (mem s) = Inr (l, mem s')"
    by (auto simp: new_TAG_Service_def split: option.splits)
  from fill_log [OF assms(1) this] show ?thesis by blast
qed

lemma build_empty_log:
  assumes "env_sound env" "build_empty env s = Some s'"
  shows "\<exists>a n. klog (mem s') = klog (mem s) @ write_sections (ListLock a) n"
proof -
  from assms(2) obtain b l where "list_fill (rcu_list_insert (kmalloc_element env) (ListLock b)) [0..<levelDeep]
      rcu_list_init (mem s) = Inr (l, mem s')"
    by (auto simp: build_empty_def split: option.splits sum.splits)
  from fill_log [OF assms(1) this] show ?thesis by blast
qed

lemma records_sections:
  "\<exists>a n. klog (mem s') = klog (mem s) @ write_sections (ListLock a) n \<Longrightarrow> records s lk s' lk"
  by (auto simp: records_def)

lemma step_records:
  assumes snd: "env_sound env" and st: "svc_step env q s lk = Some (p, s', lk')"
  shows "records s lk s' lk'"
proof -
  note klogs = records_klogs [OF records_refl] records_klogs [OF records_klogs [OF records_refl]]
  have put: "records s lk (klogs ModulePut s1) lk1" if "records s lk s1 lk1" for s1 lk1
    using records_klogs [OF that, of ModulePut] by simp
  show ?thesis
  proof (cases q)
    case (Creating k r)
    with st obtain x s1 where n: "new_TAG_Service env s k (cur_tgid env) r = Inr (x, s1)"
      and s': "s' = s1 \<or> s' = klogs ModulePut s1" "lk' = lk"
      by (auto simp: create_def reply_def split: sum.splits option.splits)
    have "records s lk s1 lk" by (rule records_sections [OF new_TAG_Service_log [OF snd n]])
    with s' put show ?thesis by blast
  next
    case (Emptying a)
    with st have "build_empty env s = Some s'" "lk' = lk" by auto
    with records_sections [OF build_empty_log [OF snd]] show ?thesis by blast
  next
    case (Missing e)
    with st show ?thesis by (cases e) (auto simp: not_found_def step_eqs intro: put klogs records_refl)
  next
    case (Located e a)
    with st show ?thesis by (cases e) (auto simp: found_def step_eqs intro: put klogs records_refl)
  next
    case (Permitting e a)
    with st show ?thesis
      by (auto simp: allow_def step_eqs split: errand.splits option.splits if_splits intro: put records_refl)
  next
    case (Dropping x)
    with st show ?thesis
      by (auto simp: free_service_def split: option.splits if_splits intro: records_mem)
  qed (use st in \<open>auto simp: step_eqs clear_entry_def split: option.splits if_splits
    intro: put klogs records_refl records_mem\<close>)
qed

lemma event_records:
  assumes "sound_envs envs" "svc_do envs ev S = Some S'"
  shows "records (table S) (table_lock S) (table S') (table_lock S')"
proof (cases ev)
  case (Step t)
  with assms show ?thesis by (auto simp: sound_envs_def split: if_splits intro: step_records)
next
  case (Call t e)
  with assms(2) records_klogs [OF records_refl, of "table S" "table_lock S" TryModuleGet] show ?thesis
    by (auto split: if_splits)
qed

lemma run_records:
  "svc_run envs evs S = Some S' \<Longrightarrow> sound_envs envs \<Longrightarrow> records (table S) (table_lock S) (table S') (table_lock S')"
proof (induction evs arbitrary: S)
  case (Cons ev evs)
  then obtain S1 where S1: "svc_do envs ev S = Some S1" "svc_run envs evs S1 = Some S'"
    by (auto split: option.splits)
  from records_trans [OF event_records [OF Cons.prems(2) S1(1)] Cons.IH [OF S1(2) Cons.prems(2)]] show ?case .
qed (simp add: records_refl)

text \<open>C10: \<^verbatim>\<open>searchLock\<close> in the interleavings of creations, lookups and removals, each lookup by tag up
  to the first use of the service it found.  The lock is in the state in which the calls recorded
  so far have left it, under the protocol of a reader-writer lock, and these calls never release a
  hold that is not there nor take the lock while another thread excludes it.  The one use of the
  lock that comes later, the \<^verbatim>\<open>write_unlock_irqrestore\<close> at the end of \<^verbatim>\<open>AWAKE_ALL\<close> (line 377), would
  break this in every state reached: with no writer it is a misuse, and with a writer inside it
  takes that thread's hold away.\<close>

theorem lock_follows_log:
  assumes "table_start S" "sound_envs envs" "svc_run envs evs S = Some S'"
  shows "\<exists>cs. klog (mem (table S')) = klog (mem (table S)) @ cs \<and> table_lock S' = lock_use SearchLock cs \<and>
    lock_use SearchLock cs \<noteq> Misused \<and> lock_use SearchLock cs \<noteq> Blocked \<and>
    lock_use SearchLock (cs @ [WriteUnlock SearchLock]) =
      (if table_lock S' = Writer then Readers 0 else Misused)"
proof -
  have free: "table_lock S = Readers 0" using assms(1) by (simp add: table_start_def)
  from run_records [OF assms(3,2)] obtain cs where
    cs: "klog (mem (table S')) = klog (mem (table S)) @ cs" "table_lock S' = lock_use SearchLock cs"
    by (auto simp: records_def free lock_use_def)
  have "table_reach envs (\<lambda>_. True) S'"
    by (rule svc_run_reach [OF assms(3) _ start_reach [OF assms(1)]]) (simp add: list_all_iff)
  then have "lock_fits (table_lock S') (at_point S')" using reach_table_inv assms(2) by (auto simp: table_inv_def)
  with cs show ?thesis
    by (intro exI [of _ cs]; cases "lock_use SearchLock cs") (auto simp: lock_fits_def lock_use_append)
qed

section \<open>At a concrete state\<close>

theorem calls_alone_witness:
  "\<exists>n S'. svc_run ready_envs (Call 0 (Take_Away 0) # steps n 0) (crowd_sys 1 1) = Some S' \<and>
     at_point S' = [Answered (Inr 0)] \<and> svc_at (table S') 0 = None"
proof -
  let ?s = "klogs TryModuleGet (crowd 1)" and ?env = "ready_envs 0"
  have n: "1 \<le> min_sys_TAG_Services" by (simp add: min_sys_TAG_Services_def)
  have sl: "slot ?s (unat (0 :: c_int)) = Some 0" "sv_heap ?s 0 = Some (crowd_service 0)"
    "validServiceOperation ?env (crowd_service 0)" "sleepers (levels (crowd_service 0)) = []"
    using crowd_slot [OF n, of 0]
    by (simp_all add: crowd_service_def validServiceOperation_def sleepers_def waitqueue_active_def rcu_list_init_def)
  obtain b where "kmalloc_service ?env (sv_heap ?s) = Some b" using crowd_alloc [of 1 0] by auto
  from REMOVE_ok [OF ready_sound(2) _ sl this] crowd(1) [OF n] obtain s' where
    s': "tag_ctl_TBDE_REMOVE ?env ?s 0 = Inr (Inr 0, s')" "svc_at s' = (svc_at ?s)(0 := None)" by auto
  have live: "module_live ?env" by (simp add: ready_envs_def)
  have w: "whole_errand ?env (table (crowd_sys 1 1)) (Take_Away 0) = Inr (Inr 0, s')"
    using s'(1) live by (simp add: whole_errand_def tag_ctl_def tag_macros)
  from calls_alone [where envs = ready_envs and t = 0 and S = "crowd_sys 1 1", OF crowd_start [OF n] _ _ _ live w]
  obtain k S' where k: "svc_run ready_envs (Call 0 (Take_Away 0) # steps k 0) (crowd_sys 1 1) = Some S'"
    "table S' = s'" "at_point S' = [Answered (Inr 0)]" by (auto simp del: svc_run.simps)
  with s'(2) have "svc_at (table S') 0 = None" by simp
  with k show ?thesis by blast
qed

theorem lock_follows_log_witness:
  "\<exists>S' cs. svc_run ready_envs [Call 0 (With_Tag 0), Step 0] (crowd_sys 1 1) = Some S' \<and>
     klog (mem (table S')) = klog (mem (crowd 1)) @ cs \<and> lock_use SearchLock cs = Readers 1 \<and>
     lock_use SearchLock (cs @ [WriteUnlock SearchLock]) = Misused"
proof -
  let ?S = "\<lparr>table = klogs (ReadLock SearchLock) (klogs TryModuleGet (crowd 1)), table_lock = Readers 1,
    at_point = [Testing (With_Tag 0) 0]\<rparr>"
  have run: "svc_run ready_envs [Call 0 (With_Tag 0), Step 0] (crowd_sys 1 1) = Some ?S"
    by (simp add: crowd_sys_def locking_def ask_lock_def)
  have "1 \<le> min_sys_TAG_Services" by (simp add: min_sys_TAG_Services_def)
  from lock_follows_log [OF crowd_start [OF this] ready_sound(1) run] run show ?thesis
    by (intro exI [of _ ?S]) auto
qed

end
