(* ===== verification/ServiceRemoval.thy ===== *)
theory ServiceRemoval
  imports ServiceProps ServiceRuns
begin

text \<open>
  One thread removes services while any number of others create and look up: its removals
  never follow a bad pointer nor free a service twice, and \<^verbatim>\<open>serviceCount\<close> counts the used
  entries whenever no call is running.
\<close>

section \<open>The thread that removes\<close>

definition removals_by :: "nat \<Rightarrow> svc_event \<Rightarrow> bool" where
  "removals_by r ev = (case ev of Call t e \<Rightarrow> is_take e \<longrightarrow> t = r | Step t \<Rightarrow> True)"

definition in_table :: "kstate \<Rightarrow> addr \<Rightarrow> bool" where
  "in_table s a \<longleftrightarrow> (\<exists>i. slot s i = Some a)"

fun removal_ok :: "kstate \<Rightarrow> svc_pc \<Rightarrow> bool" where
  "removal_ok s (Comparing e i) = (slot s i \<noteq> None)"
| "removal_ok s (Fetching e i) = (slot s i \<noteq> None)"
| "removal_ok s (Located e a) = in_table s a"
| "removal_ok s (Permitting e a) = in_table s a"
| "removal_ok s (Polling a) = in_table s a"
| "removal_ok s (Emptying a) = in_table s a"
| "removal_ok s (Picking a) = in_table s a"
| "removal_ok s (Clearing_Out a x) = (x = Some a \<and> in_table s a)"
| "removal_ok s (Dropping x) = (\<exists>b. x = Some b \<and> sv_heap s b \<noteq> None)"
| "removal_ok s _ = True"

lemma in_table_grows: "grows s s' \<Longrightarrow> in_table s a \<Longrightarrow> in_table s' a"
  by (auto simp: grows_def in_table_def)

lemma removal_ok_grows: "grows s s' \<Longrightarrow> removal_ok s p \<Longrightarrow> removal_ok s' p"
  by (cases p) (auto simp: in_table_grows, auto simp: grows_def)

lemma in_table_heap:
  assumes "kinv (settled s)" "in_table s a"
  obtains i sv where "slot s i = Some a" "sv_heap s a = Some sv" "unat (sv_tag sv) = i" "i < min_sys_TAG_Services"
    "own_entry s a = Some (i, Some a)"
proof -
  from assms(2) obtain i where i: "slot s i = Some a" by (auto simp: in_table_def)
  with kinv_slot [OF assms(1), of i a] obtain sv where sv: "sv_heap s a = Some sv" "svc_at s i = Some sv" by auto
  have b: "i < min_sys_TAG_Services" using slot_bound [OF assms(1)] i by simp
  have "unat (sv_tag sv) = i"
    using kinv_wf [OF assms(1), of i sv] sv(2) b
    by (simp add: svc_wf_def unat_of_nat min_sys_TAG_Services_def)
  with i sv(1) b show thesis using own_entry_eq [OF assms(1), of a i "Some a"] by (intro that) auto
qed

lemma step_removal:
  assumes k: "kinv (settled s)" and snd: "env_sound env" and st: "svc_step env q s lk = Some (p, s', lk')"
    and ok: "removal_ok s q" and r: "removes p"
  shows "removal_ok s' p"
proof -
  have q: "removes q" by (rule removes_step [OF st r])
  have entry: "slot s i = Some a" if "load_entry s i = Some (Some a)" for i a
    using load_entry_slot(2) [OF k that] by simp
  have loc: "in_table s a" if "load_entry s i = Some (Some a)" for i a
    using entry [OF that] by (auto simp: in_table_def)
  show ?thesis
  proof (cases q)
    case (Testing e i)
    with st have "s' = s" by auto
    with Testing st show ?thesis by (auto split: option.splits dest: entry simp: next_entry_def)
  next
    case (Comparing e i)
    with st ok show ?thesis by (auto split: option.splits if_splits simp: next_entry_def)
  next
    case (Fetching e i)
    with st have "s' = s" by auto
    with Fetching st show ?thesis by (auto split: option.splits dest: loc)
  next
    case (Asking e)
    with st show ?thesis by (auto simp: step_eqs split: errand.splits if_splits)
  next
    case (Missing e)
    with st r q show ?thesis by (cases e) (auto simp: not_found_def step_eqs)
  next
    case (Located e a)
    with st r q ok show ?thesis by (cases e) (auto simp: found_def step_eqs)
  next
    case (Permitting e a)
    with st q ok show ?thesis by (cases e) (auto simp: allow_def step_eqs split: option.splits if_splits)
  next
    case (Polling a)
    with st ok show ?thesis by (auto simp: poll_def)
  next
    case (Emptying a)
    with st have "build_empty env s = Some s'" "p = Picking a" by auto
    moreover from snd k this(1) have "slot s' = slot s" by (rule build_empty_table)
    ultimately show ?thesis using ok Emptying by (simp add: in_table_def)
  next
    case (Picking a)
    from ok Picking have "in_table s a" by simp
    with k obtain i where "own_entry s a = Some (i, Some a)" by (rule in_table_heap)
    with st ok Picking show ?thesis by auto
  next
    case (Clearing_Out a x)
    with ok have x: "x = Some a" "in_table s a" by auto
    from in_table_heap [OF k x(2)] obtain sv where "sv_heap s a = Some sv" by blast
    with st Clearing_Out x show ?thesis by (auto simp: clear_entry_def)
  qed (use st q r in \<open>auto simp: step_eqs\<close>)
qed

section \<open>The count\<close>

fun to_count :: "svc_pc \<Rightarrow> bool" where
  "to_count (Releasing k a) = (k = TAG_IPC_PRIVATE)"
| "to_count (Counting_In k a) = True"
| "to_count _ = False"

fun to_discount :: "svc_pc \<Rightarrow> bool" where
  "to_discount (Dropping x) = True"
| "to_discount Counting_Out = True"
| "to_discount _ = False"

definition balance :: "kstate \<Rightarrow> svc_pc \<Rightarrow> c_uint" where
  "balance s p = serviceCount s + of_bool (to_count p) - of_nat (used s) - of_bool (to_discount p)"

text \<open>\<^verbatim>\<open>serviceCount\<close> lags behind the used entries by the calls that have not counted yet.\<close>

definition count_right :: "svc_sys \<Rightarrow> bool" where
  "count_right S \<longleftrightarrow> serviceCount (table S) + of_nat (num to_count (at_point S)) =
     of_nat (used (table S)) + of_nat (num to_discount (at_point S))"

lemma next_entry_counts [simp]: "\<not> to_count (next_entry e i)" "\<not> to_discount (next_entry e i)"
  by (simp_all add: next_entry_def)

lemma quiet_balance:
  assumes st: "svc_step env q s lk = Some (p, s', lk')" and q: "\<not> changes q"
  shows "balance s' p = balance s q"
proof -
  have u: "used s' = used s" using unchanged [OF st q] by (simp add: same_table_def)
  from st q show ?thesis
    by (cases q)
      (auto simp: balance_def step_eqs not_found_def found_def allow_def poll_def
        split: errand.splits option.splits if_splits)
qed

lemma step_balance:
  assumes inv: "table_inv S" and snd: "env_sound env" and t: "t < length (at_point S)" "at_point S ! t = q"
    and st: "svc_step env q (table S) (table_lock S) = Some (p, s', lk')"
    and ok: "removes q \<Longrightarrow> removal_ok (table S) q"
  shows "balance s' p = balance (table S) q"
proof (cases "changes q")
  case False
  from quiet_balance [OF st this] show ?thesis .
next
  case True
  have k: "kinv (settled (table S))" and pt: "point_ok (table S) q" using table_inv_at [OF inv t] by auto
  show ?thesis
  proof (cases q)
    case (Creating key r)
    with pt st have c: "point_ok (table S) (Creating key r)"
      "create env key r (table S) (table_lock S) = Some (p, s', lk')" by simp_all
    from snd k c show ?thesis by (cases rule: create_cases) (auto simp: balance_def Creating)
  next
    case (Emptying a)
    with st have b: "build_empty env (table S) = Some s'" "p = Picking a" by auto
    from snd k b(1) have "used s' = used (table S)" "serviceCount s' = serviceCount (table S)"
      by (auto elim: build_empty_table)
    with Emptying b show ?thesis by (simp add: balance_def)
  next
    case (Clearing_Out a x)
    with ok have "in_table (table S) a" by simp
    from k this obtain i where i: "slot (table S) i = Some a" "i < min_sys_TAG_Services"
      "own_entry (table S) a = Some (i, Some a)" by (rule in_table_heap)
    with st Clearing_Out have s': "s' = clear_entry i (table S)" "p = Dropping x" by auto
    from clear_entry_table(4) [OF k i(2)] i(1) have u: "Suc (used s') = used (table S)" by (simp add: s')
    have "serviceCount s' = serviceCount (table S)" by (simp add: s' clear_entry_def)
    then show ?thesis by (simp add: balance_def Clearing_Out s'(2) u [symmetric])
  next
    case (Dropping x)
    with st have f: "free_service x (table S) = Some s'" "p = Counting_Out" by auto
    from free_service_table [OF k _ f(1)] pt Dropping have "used s' = used (table S)"
      "serviceCount s' = serviceCount (table S)" by auto
    with Dropping f(2) show ?thesis by (simp add: balance_def)
  qed (use True in simp_all)
qed

lemma num_word:
  "t < length ps \<Longrightarrow> (of_nat (num P (ps[t := p])) :: c_uint) = of_nat (num P ps) + of_bool (P p) - of_bool (P (ps ! t))"
  using arg_cong [OF num_update [of t ps P p], of "of_nat :: nat \<Rightarrow> c_uint"] by (simp add: algebra_simps)

lemma count_step:
  assumes "count_right S" "t < length (at_point S)" "balance s' p = balance (table S) (at_point S ! t)"
  shows "count_right \<lparr>table = s', table_lock = lk', at_point = (at_point S)[t := p]\<rparr>"
proof -
  have sum: "c' + (C + x - y) = u' + (D + v - w)" if "c + C = u + D" "c' + x - u' - v = c + y - u - w"
    for c c' u u' x y v w C D :: c_uint
  proof -
    from that(1) have c: "c = u + D - C" by (simp add: algebra_simps)
    from that(2) have "c' = c + y - u - w - x + u' + v" by (simp add: algebra_simps)
    then show ?thesis by (simp add: c)
  qed
  from assms(1,3) show ?thesis
    unfolding count_right_def balance_def by (simp only: num_word [OF assms(2)] svc_sys.simps) (erule (1) sum)
qed

section \<open>One remover\<close>

definition removal_inv :: "nat \<Rightarrow> svc_sys \<Rightarrow> bool" where
  "removal_inv r S \<longleftrightarrow> table_inv S \<and> count_right S \<and>
     (\<forall>t < length (at_point S). removes (at_point S ! t) \<longrightarrow> t = r \<and> removal_ok (table S) (at_point S ! t))"

lemma enter_removes: "enter e = Some p \<Longrightarrow> removes p \<Longrightarrow> is_take e \<and> (\<forall>s. removal_ok s p)"
  by (cases e) (auto split: if_splits)

lemma enter_counts: "enter e = Some p \<Longrightarrow> balance (klogs c s) p = balance s Outside"
  by (cases e) (auto simp: balance_def split: if_splits)

lemma removal_step:
  assumes inv: "removal_inv r S" and sn: "\<And>t. env_sound (envs t)" and st: "svc_do envs (Step t) S = Some S'"
  shows "removal_inv r S'"
proof -
  have tb: "table_inv S" and cr: "count_right S"
    and rm: "\<And>u. u < length (at_point S) \<Longrightarrow> removes (at_point S ! u) \<Longrightarrow> u = r \<and> removal_ok (table S) (at_point S ! u)"
    using inv by (auto simp: removal_inv_def)
  from st obtain p s' lk' where p: "t < length (at_point S)"
    "svc_step (envs t) (at_point S ! t) (table S) (table_lock S) = Some (p, s', lk')"
    and S': "S' = \<lparr>table = s', table_lock = lk', at_point = (at_point S)[t := p]\<rparr>"
    by (auto split: if_splits)
  have k: "kinv (settled (table S))" using tb by (simp add: table_inv_def)
  have cnt: "count_right S'"
    unfolding S' using rm p step_balance [OF tb sn p(1) refl p(2)] by (intro count_step [OF cr p(1)]) blast
  have "u = r \<and> removal_ok s' ((at_point S)[t := p] ! u)"
    if u: "u < length (at_point S)" "removes ((at_point S)[t := p] ! u)" for u
  proof (cases "u = t")
    case True
    with u p(1) have "removes p" by simp
    moreover from removes_step [OF p(2) this] rm p(1) have "t = r" "removal_ok (table S) (at_point S ! t)" by auto
    ultimately show ?thesis using step_removal [OF k sn p(2)] True p(1) by simp
  next
    case False
    then have ur: "u = r" "removal_ok (table S) (at_point S ! u)" using u rm by auto
    with False rm [OF p(1)] have "\<not> removes (at_point S ! t)" by auto
    then have "\<And>a x. at_point S ! t \<noteq> Clearing_Out a x" "\<And>x. at_point S ! t \<noteq> Dropping x" by auto
    with step_grows [OF tb sn p(1) refl p(2)] have "grows (table S) s'" by blast
    with ur False removal_ok_grows show ?thesis by auto
  qed
  with cnt event_keeps_table [OF tb sn st] show ?thesis by (simp add: removal_inv_def S')
qed

lemma removal_call:
  assumes inv: "removal_inv r S" and sn: "\<And>t. env_sound (envs t)" and ok: "is_take e \<longrightarrow> t = r"
    and st: "svc_do envs (Call t e) S = Some S'"
  shows "removal_inv r S'"
proof -
  have tb: "table_inv S" and cr: "count_right S" using inv by (auto simp: removal_inv_def)
  from st obtain p where p: "t < length (at_point S)" "at_point S ! t = Outside" "enter e = Some p"
    and S': "S' = \<lparr>table = klogs TryModuleGet (table S), table_lock = table_lock S, at_point = (at_point S)[t := p]\<rparr>"
    by (cases S) (auto split: if_splits)
  have "count_right S'"
    unfolding S' using enter_counts [OF p(3)] p(2) by (intro count_step [OF cr p(1)]) simp
  moreover have "grows (table S) (klogs TryModuleGet (table S))" by (simp add: grows_same)
  ultimately show ?thesis
    using event_keeps_table [OF tb sn st] inv p enter_removes [OF p(3)] ok removal_ok_grows
    by (auto simp: removal_inv_def S' nth_list_update)
qed

lemma removal_inv_start:
  assumes "table_start S"
  shows "removal_inv r S"
proof -
  have out: "at_point S ! t = Outside" if "t < length (at_point S)" for t
    using assms that by (simp add: table_start_def)
  have "num to_count (at_point S) = 0" "num to_discount (at_point S) = 0"
    using assms by (auto simp: table_start_def filter_empty_conv)
  moreover have "serviceCount (table S) = of_nat (used (table S))"
    using assms by (auto simp: table_start_def intro: kinv_count)
  ultimately show ?thesis
    using table_inv_start [OF assms] out by (simp add: removal_inv_def count_right_def)
qed

interpretation removal_run: machine_invariant table_start "table_step envs (removals_by r)"
  "\<lambda>S. sound_envs envs \<longrightarrow> removal_inv r S" for envs r
proof
  show "sound_envs envs \<longrightarrow> removal_inv r S" if "table_start S" for S
    using that removal_inv_start by blast
  show "sound_envs envs \<longrightarrow> removal_inv r S'"
    if "sound_envs envs \<longrightarrow> removal_inv r S" "table_step envs (removals_by r) S S'" for S S'
  proof
    assume "sound_envs envs"
    with that obtain ev where "removal_inv r S" "\<And>t. env_sound (envs t)" "removals_by r ev"
      "svc_do envs ev S = Some S'" by (auto simp: sound_envs_def elim: table_stepE)
    then show "removal_inv r S'"
      by (cases ev) (auto simp only: removals_by_def svc_event.simps intro: removal_step removal_call)
  qed
qed

lemma reach_removal_inv: "table_reach envs (removals_by r) S \<Longrightarrow> sound_envs envs \<Longrightarrow> removal_inv r S"
  using removal_run.reach_inv by blast

section \<open>Its removals are safe\<close>

lemma build_empty_some:
  assumes "env_sound env" "kmalloc_service env (sv_heap s) = Some b"
  shows "build_empty env s \<noteq> None"
proof -
  from assms(1) have "alloc_sound (kmalloc_element env)" by (simp add: env_sound_def)
  from rcu.init_fill [OF this, of "ListLock b" "[0..<levelDeep]" "mem s"] assms(2) show ?thesis
    by (auto simp: build_empty_def)
qed

lemma removal_goes_on:
  assumes inv: "table_inv S" and snd: "env_sound env" and t: "t < length (at_point S)" "at_point S ! t = q"
    and r: "removes q" "removal_ok (table S) q" and stop: "\<not> may_stop env (table S) q"
  shows "svc_step env q (table S) (table_lock S) \<noteq> None"
proof -
  have k: "kinv (settled (table S))" and ok: "point_ok (table S) q" and fits: "lock_fits (table_lock S) (at_point S)"
    using table_inv_at [OF inv t] by auto
  have heap: "sv_heap (table S) a \<noteq> None" if "in_table (table S) a" for a
    by (rule in_table_heap [OF k that]) simp
  have own: "own_entry (table S) a \<noteq> None" if "in_table (table S) a" for a
    by (rule in_table_heap [OF k that]) simp
  note unl = unlocking_some [OF fits]
  show ?thesis
  proof (cases q)
    case (Testing e i)
    with ok load_entry_slot(1) [OF k, of i] show ?thesis by (auto split: option.splits)
  next
    case (Comparing e i)
    with ok r load_entry_slot(1) [OF k, of i] kinv_slot [OF k, of i] show ?thesis by (auto split: option.splits)
  next
    case (Fetching e i)
    with ok load_entry_slot(1) [OF k, of i] show ?thesis by (auto split: option.splits)
  next
    case (Missing e)
    then show ?thesis by (cases e) (simp_all add: not_found_def unl reply_some)
  next
    case (Located e a)
    then show ?thesis by (cases e) (simp_all add: found_def unl reply_some)
  next
    case (Permitting e a)
    with r heap [of a] show ?thesis by (cases e) (auto simp: allow_def permitted_def reply_def)
  next
    case (Polling a)
    with r heap [of a] show ?thesis by (auto simp: poll_def)
  next
    case (Emptying a)
    with stop build_empty_some [OF snd] show ?thesis by (auto simp: may_stop_def)
  next
    case (Dropping x)
    with r show ?thesis by (auto simp: free_service_def)
  qed (use r stop own in \<open>auto simp: may_stop_def unl reply_some\<close>)
qed



section \<open>At a concrete state\<close>



end
