(* ===== verification/ServiceRaces.thy ===== *)
theory ServiceRaces
  imports ServiceRemoval ServiceRuns
begin

text \<open>
  What goes wrong when calls on the service table overlap.  The runs start from any well-formed
  table that meets the stated conditions.
\<close>

section \<open>A hold that nobody gives back\<close>

text \<open>The lock is held for a call that has returned.\<close>

definition lost :: "svc_sys \<Rightarrow> bool" where
  "lost S \<longleftrightarrow> (case table_lock S of
     Readers n \<Rightarrow> num reads (at_point S) < n
   | Writer \<Rightarrow> num writes (at_point S) = 0
   | _ \<Rightarrow> False)"

text \<open>A step keeps the lock, takes it or gives it back.\<close>

definition keeps_lock :: "svc_pc \<Rightarrow> lock_st \<Rightarrow> svc_pc \<Rightarrow> lock_st \<Rightarrow> bool" where
  "keeps_lock q lk p lk' \<longleftrightarrow> lk' = lk \<and> (reads p \<longrightarrow> reads q) \<and> (writes p \<longrightarrow> writes q)"

definition takes_lock :: "svc_pc \<Rightarrow> lock_st \<Rightarrow> svc_pc \<Rightarrow> lock_st \<Rightarrow> bool" where
  "takes_lock q lk p lk' \<longleftrightarrow> free q \<and> lk' \<noteq> Blocked \<and>
     (reads p \<and> lk' = lock_step SearchLock lk (ReadLock SearchLock) \<or>
      writes p \<and> lk' = lock_step SearchLock lk (WriteLock SearchLock))"

definition gives_lock :: "svc_pc \<Rightarrow> lock_st \<Rightarrow> svc_pc \<Rightarrow> lock_st \<Rightarrow> bool" where
  "gives_lock q lk p lk' \<longleftrightarrow> free p \<and>
     (reads q \<and> lk' = lock_step SearchLock lk (ReadUnlock SearchLock) \<or>
      writes q \<and> lk' = lock_step SearchLock lk (WriteUnlock SearchLock))"

lemma asking_takes:
  assumes "svc_step env (Asking e) s lk = Some (p, s', lk')"
  shows "takes_lock (Asking e) lk p lk'"
  using assms by (cases e) (auto simp: takes_lock_def step_eqs ask_lock_def split: if_splits)

lemma step_lock:
  assumes "svc_step env q s lk = Some (p, s', lk')" "point_ok s q"
  shows "keeps_lock q lk p lk' \<or> takes_lock q lk p lk' \<or> gives_lock q lk p lk'"
proof (cases q)
  case (Asking e)
  with asking_takes assms(1) show ?thesis by blast
next
  case (Testing e i)
  with assms(1) search_turn_lock [of e q s p] show ?thesis by (auto simp: keeps_lock_def)
next
  case (Comparing e i)
  with assms(1) search_turn_lock [of e q s p] show ?thesis by (auto simp: keeps_lock_def)
next
  case (Fetching e i)
  with assms(1) search_turn_lock [of e q s p] show ?thesis by (auto simp: keeps_lock_def)
next
  case (Missing e)
  with assms(1) show ?thesis by (cases e) (auto simp: not_found_def step_eqs keeps_lock_def gives_lock_def)
next
  case (Located e a)
  with assms(1) show ?thesis by (cases e) (auto simp: found_def step_eqs keeps_lock_def gives_lock_def)
next
  case (Permitting e a)
  with assms show ?thesis
    by (cases e) (auto simp: allow_def step_eqs keeps_lock_def split: option.splits if_splits)
next
  case (Creating k r)
  with assms(1) show ?thesis
    by (auto simp: create_def reply_def keeps_lock_def split: sum.splits option.splits if_splits)
next
  case (Polling a)
  with assms(1) show ?thesis by (auto simp: poll_def keeps_lock_def)
qed (use assms(1) in \<open>auto simp: step_eqs keeps_lock_def gives_lock_def split: option.splits if_splits\<close>)

lemma lost_update:
  assumes lost: "lost S" and fits: "lock_fits (table_lock S) (at_point S)" and t: "t < length (at_point S)"
    and how: "keeps_lock (at_point S ! t) (table_lock S) p lk' \<or> takes_lock (at_point S ! t) (table_lock S) p lk' \<or>
      gives_lock (at_point S ! t) (table_lock S) p lk'"
  shows "lost \<lparr>table = s', table_lock = lk', at_point = (at_point S)[t := p]\<rparr>"
proof -
  let ?q = "at_point S ! t"
  have r: "num reads ((at_point S)[t := p]) + of_bool (reads ?q) = num reads (at_point S) + of_bool (reads p)"
    and w: "num writes ((at_point S)[t := p]) + of_bool (writes ?q) = num writes (at_point S) + of_bool (writes p)"
    by (rule num_update [OF t])+
  have ex: "reads p \<Longrightarrow> \<not> writes p" "reads ?q \<Longrightarrow> \<not> writes ?q" by (rule reads_or_writes, assumption)+
  show ?thesis
  proof (cases "table_lock S")
    case (Readers n)
    then have n: "num reads (at_point S) < n" "num writes (at_point S) = 0"
      using lost fits by (simp_all add: lost_def lock_fits_def)
    with w have "\<not> writes ?q" using num_pos [of t "at_point S" writes] t by auto
    with n r w ex how Readers show ?thesis
      by (auto simp: lost_def keeps_lock_def takes_lock_def gives_lock_def of_bool_def split: if_splits)
  next
    case Writer
    then have n: "num writes (at_point S) = 0" "num reads (at_point S) = 0"
      using lost fits by (simp_all add: lost_def lock_fits_def)
    then have "free ?q" using num_pos [of t "at_point S" writes] num_pos [of t "at_point S" reads] t by auto
    with n w how Writer show ?thesis
      by (auto simp: lost_def keeps_lock_def takes_lock_def gives_lock_def simp del: length_0_conv)
  qed (use lost in \<open>simp_all add: lost_def\<close>)
qed

lemma lost_event:
  assumes inv: "table_inv S" and lost: "lost S" and st: "svc_do envs ev S = Some S'"
  shows "lost S'"
proof (cases ev)
  case (Step t)
  with st obtain p s' lk' where p: "t < length (at_point S)"
    "svc_step (envs t) (at_point S ! t) (table S) (table_lock S) = Some (p, s', lk')"
    "S' = \<lparr>table = s', table_lock = lk', at_point = (at_point S)[t := p]\<rparr>" by (auto split: if_splits)
  from table_inv_at [OF inv p(1) refl] show ?thesis
    unfolding p(3) using step_lock [OF p(2)] by (intro lost_update [OF lost _ p(1)]) auto
next
  case (Call t e)
  with st obtain p where p: "t < length (at_point S)" "at_point S ! t = Outside" "enter e = Some p"
    "S' = \<lparr>table = klogs TryModuleGet (table S), table_lock = table_lock S, at_point = (at_point S)[t := p]\<rparr>"
    by (cases S) (auto split: if_splits)
  have "lock_fits (table_lock S) (at_point S)" using inv by (simp add: table_inv_def)
  with enter_ok [OF p(3)] show ?thesis
    unfolding p(4) by (intro lost_update [OF lost _ p(1)]) (auto simp: keeps_lock_def)
qed

lemma lost_stays:
  assumes "(table_step envs ok)\<^sup>*\<^sup>* S S'" "table_inv S" "lost S" "sound_envs envs"
  shows "table_inv S' \<and> lost S'"
  using assms(1)
proof (induction rule: rtranclp_induct)
  case (step S1 S2)
  then show ?case using event_keeps_table [of S1 envs] lost_event [of S1 envs] assms(4)
    by (auto simp: sound_envs_def elim!: table_stepE)
qed (use assms in simp)

lemma lost_writer_event:
  assumes inv: "table_inv S" and lost: "lost S" "table_lock S = Writer" and st: "svc_do envs ev S = Some S'"
  shows "table_lock S' = Writer"
proof (cases ev)
  case (Step t)
  with st obtain p s' lk' where p: "t < length (at_point S)"
    "svc_step (envs t) (at_point S ! t) (table S) (table_lock S) = Some (p, s', lk')" "table_lock S' = lk'"
    by (auto split: if_splits)
  have n: "num writes (at_point S) = 0" "num reads (at_point S) = 0"
    using lost inv by (auto simp: lost_def table_inv_def lock_fits_def)
  then have "free (at_point S ! t)"
    using num_pos [of t "at_point S" writes] num_pos [of t "at_point S" reads] p(1) by auto
  with step_lock [OF p(2)] table_inv_at [OF inv p(1) refl] lost(2) p(3) show ?thesis
    by (auto simp: keeps_lock_def takes_lock_def gives_lock_def)
next
  case (Call t e)
  with st lost(2) show ?thesis by (auto split: if_splits)
qed

text \<open>A write hold that is lost stays one.\<close>

lemma lost_writer:
  assumes "(table_step envs ok)\<^sup>*\<^sup>* S S'" "table_inv S" "lost S" "sound_envs envs" "table_lock S = Writer"
  shows "lost S' \<and> table_lock S' = Writer"
  using assms(1)
proof (induction rule: rtranclp_induct)
  case (step S1 S2)
  then have inv: "table_inv S1" and l: "lost S1" "table_lock S1 = Writer"
    using lost_stays [OF _ assms(2-4), of ok S1] assms(1) by auto
  from step(2) obtain ev where ev: "svc_do envs ev S1 = Some S2" by (auto elim: table_stepE)
  have "lost S2" by (rule lost_event [OF inv l(1) ev])
  moreover have "table_lock S2 = Writer" by (rule lost_writer_event [OF inv l ev])
  ultimately show ?case by blast
qed (use assms in simp)

lemma lost_blocks:
  assumes "lost S" "at_point S ! t = Asking e" "is_new e \<or> table_lock S = Writer"
  shows "svc_do envs (Step t) S = None"
  using assms by (cases "table_lock S"; cases e) (auto simp: lost_def locking_def ask_lock_def)

text \<open>C27: A hold on \<^verbatim>\<open>searchLock\<close> that belongs to no running call.  Whatever creations, removals and
  lookups the threads run afterwards, each lookup by tag up to the first use of the service it
  found, the hold is not given back: no creation of a service ever gets the lock, and if it is
  held for writing no other call either.  What these interleavings leave out is the release at
  the end of an \<^verbatim>\<open>AWAKE_ALL\<close> that had already passed its search (line 377): made in any state
  reached, it gives a lost write hold back, though it belongs to another call, and is a misuse
  when the lost hold is for reading.\<close>

theorem lost_hold_stays:
  assumes "table_reach envs ok S" "sound_envs envs" "lost S" "(table_step envs ok)\<^sup>*\<^sup>* S S'"
    and "at_point S' ! t = Asking e" "is_new e \<or> table_lock S = Writer"
  shows "svc_do envs (Step t) S' = None \<and>
    lock_step SearchLock (table_lock S') (WriteUnlock SearchLock) = (if table_lock S' = Writer then Readers 0 else Misused) \<and>
    (table_lock S = Writer \<longrightarrow> table_lock S' = Writer)"
proof -
  have inv: "table_inv S" by (rule reach_table_inv [OF assms(1,2)])
  have l: "lost S'" using lost_stays [OF assms(4) inv assms(3,2)] by simp
  have W: "table_lock S = Writer \<longrightarrow> table_lock S' = Writer" using lost_writer [OF assms(4) inv assms(3,2)] by blast
  with assms(6) have "is_new e \<or> table_lock S' = Writer" by blast
  then have "svc_do envs (Step t) S' = None" by (rule lost_blocks [OF l assms(5)])
  with W l show ?thesis by (cases "table_lock S'") (simp_all add: lost_def)
qed

section \<open>Runs of several threads\<close>

definition may_run :: "(nat \<Rightarrow> kenv) \<Rightarrow> svc_sys \<Rightarrow> svc_sys \<Rightarrow> bool" where
  "may_run envs S S' \<longleftrightarrow> (\<exists>evs. svc_run envs evs S = Some S')"

lemma may_run_trans: "may_run envs S S1 \<Longrightarrow> may_run envs S1 S' \<Longrightarrow> may_run envs S S'"
proof -
  assume "may_run envs S S1" "may_run envs S1 S'"
  then obtain xs ys where "svc_run envs xs S = Some S1" "svc_run envs ys S1 = Some S'" by (auto simp: may_run_def)
  then have "svc_run envs (xs @ ys) S = Some S'" by (simp add: svc_run_append)
  then show ?thesis unfolding may_run_def by blast
qed

lemma may_run_refl: "may_run envs S S"
proof -
  have "svc_run envs [] S = Some S" by simp
  then show ?thesis unfolding may_run_def by blast
qed

lemma then_gets:
  assumes "may_run envs S \<lparr>table = s, table_lock = lk, at_point = ps\<rparr>"
    and "gets (envs t) q s lk q' s' lk'" "t < length ps" "ps ! t = q"
  shows "may_run envs S \<lparr>table = s', table_lock = lk', at_point = ps[t := q']\<rparr>"
  using may_run_trans [OF assms(1)] gets_run [where envs = envs and t = t, OF assms(2-4)]
  unfolding may_run_def by blast

lemma then_call:
  assumes "may_run envs S \<lparr>table = s, table_lock = lk, at_point = ps\<rparr>"
    and "enter e = Some p" "t < length ps" "ps ! t = Outside"
  shows "may_run envs S \<lparr>table = klogs TryModuleGet s, table_lock = lk, at_point = ps[t := p]\<rparr>"
proof -
  have "svc_run envs [Call t e] \<lparr>table = s, table_lock = lk, at_point = ps\<rparr> =
      Some \<lparr>table = klogs TryModuleGet s, table_lock = lk, at_point = ps[t := p]\<rparr>"
    using assms(2-4) by simp
  with may_run_trans [OF assms(1)] show ?thesis unfolding may_run_def by blast
qed

text \<open>Only two threads have left their place outside the calls.\<close>

lemma two_threads:
  assumes "\<forall>v < length ps. v \<noteq> t \<longrightarrow> v \<noteq> u \<longrightarrow> ps ! v = Outside" "\<not> P Outside" "\<not> P (ps ! t)" "\<not> P (ps ! u)"
  shows "num P ps = 0"
  using assms by (fastforce simp: filter_empty_conv in_set_conv_nth)

lemma may_run_reach: "may_run envs S S' \<Longrightarrow> table_reach envs (\<lambda>_. True) S \<Longrightarrow> table_reach envs (\<lambda>_. True) S'"
  unfolding may_run_def by (auto intro: svc_run_reach simp: list_all_iff)

section \<open>The last free entry\<close>

text \<open>Two creations pass the check of \<^verbatim>\<open>serviceCount\<close> before either has the lock.\<close>

lemma private_limit:
  assumes "serviceCount s < MAX_SERVICE_NUM s"
  shows "gets env (Limiting TAG_IPC_PRIVATE p) s lk (Asking (New_Service TAG_IPC_PRIVATE p)) s lk"
  by (rule gets_one) (use assms in \<open>auto dest: leD\<close>)

lemma private_create:
  assumes inv: "kinv (settled s)" and snd: "env_sound env" and p: "p = OPEN_ROOM \<or> p = PRIVATE_ROOM"
    and al: "kmalloc_service env (sv_heap s) \<noteq> None" and u: "used s < min_sys_TAG_Services"
  obtains a s' where "gets env (Asking (New_Service TAG_IPC_PRIVATE p)) s (Readers 0)
      (Counting_In TAG_IPC_PRIVATE a) s' (Readers 0)" "kinv (settled s')" "used s' = Suc (used s)"
proof -
  let ?s = "klogs (WriteLock SearchLock) s" and ?k = TAG_IPC_PRIVATE
  have inv': "kinv (settled ?s)" using inv by simp
  have ok: "point_ok ?s (Creating ?k p)" using p by (auto simp: tag_macros)
  from al obtain b where b: "kmalloc_service env (sv_heap ?s) = Some b" by auto
  have "create env ?k p ?s Writer \<noteq> None" by (rule create_some [OF snd inv' ok b])
  then obtain q s1 lk1 where c: "create env ?k p ?s Writer = Some (q, s1, lk1)" by auto
  from snd inv' ok c show thesis
  proof (cases rule: create_cases)
    case full
    with u show thesis by simp
  next
    case (made i a new)
    have "svc_step env (Asking (New_Service ?k p)) s (Readers 0) = Some (Creating ?k p, ?s, Writer)"
      by (simp add: locking_def ask_lock_def)
    moreover have "svc_step env (Creating ?k p) ?s Writer = Some (Releasing ?k a, s1, Writer)"
      using c made(3,4) by simp
    moreover have "svc_step env (Releasing ?k a) s1 Writer =
        Some (Counting_In ?k a, klogs (WriteUnlock SearchLock) s1, Readers 0)" by (simp add: locking_def)
    ultimately have "gets env (Asking (New_Service ?k p)) s (Readers 0)
        (Counting_In ?k a) (klogs (WriteUnlock SearchLock) s1) (Readers 0)" by (blast intro: gets.intros)
    with made(5,9) show thesis by (intro that [of a "klogs (WriteUnlock SearchLock) s1"]) simp_all
  qed
qed

lemma private_create_full:
  assumes inv: "kinv (settled s)" and u: "used s = min_sys_TAG_Services"
  shows "gets env (Asking (New_Service TAG_IPC_PRIVATE p)) s (Readers 0) (Answered (Inl EBADR))
    (klogs ModulePut (klogs (WriteLock SearchLock) s)) Writer"
proof -
  let ?s = "klogs (WriteLock SearchLock) s" and ?k = TAG_IPC_PRIVATE
  have "first_index (\<lambda>x. x = None) (slots ?s) = None"
    using free_slot_None [OF inv] u by (simp add: free_slot_def)
  then have "new_TAG_Service env ?s ?k (cur_tgid env) p = Inr (None, ?s)"
    using settled_slots(1) [OF inv] by (simp add: new_TAG_Service_def)
  then have "svc_step env (Creating ?k p) ?s Writer = Some (Answered (Inl EBADR), klogs ModulePut ?s, Writer)"
    by (simp add: create_def reply_def)
  moreover have "svc_step env (Asking (New_Service ?k p)) s (Readers 0) = Some (Creating ?k p, ?s, Writer)"
    by (simp add: locking_def ask_lock_def)
  ultimately show ?thesis by (blast intro: gets.intros)
qed

lemma last_entry_lost:
  assumes start: "table_start S" and snd: "sound_envs envs" and used: "Suc (used (table S)) = min_sys_TAG_Services"
    and tu: "t < length (at_point S)" "u < length (at_point S)" "t \<noteq> u"
    and al: "kmalloc_service (envs t) (sv_heap (table S)) \<noteq> None"
  shows "\<exists>S'. may_run envs S S' \<and> at_point S' ! u = Answered (Inl EBADR) \<and> lost S' \<and> table_lock S' = Writer \<and>
    (\<forall>v < length (at_point S). v \<noteq> t \<longrightarrow> v \<noteq> u \<longrightarrow> at_point S' ! v = Outside) \<and> length (at_point S') = length (at_point S)"
proof -
  let ?k = TAG_IPC_PRIVATE and ?ps = "at_point S" and ?s = "klogs TryModuleGet (klogs TryModuleGet (table S))"
  have inv: "kinv (table S)" and S: "S = \<lparr>table = table S, table_lock = Readers 0, at_point = ?ps\<rparr>"
    and out: "?ps ! t = Outside" "?ps ! u = Outside"
    using start tu by (cases S; simp add: table_start_def)+
  have e: "enter (New_Service ?k OPEN_ROOM) = Some (Limiting ?k OPEN_ROOM)"
    by (simp add: permAmmisible_def keyAmmissible_def tag_macros)
  have room: "serviceCount ?s < MAX_SERVICE_NUM ?s"
    using count_full [OF inv] used by (simp add: not_le [symmetric])
  obtain a s1 where 1: "gets (envs t) (Asking (New_Service ?k OPEN_ROOM)) ?s (Readers 0)
      (Counting_In ?k a) s1 (Readers 0)" "kinv (settled s1)" "used s1 = min_sys_TAG_Services"
    by (rule private_create [of ?s "envs t" OPEN_ROOM])
      (use inv kinv_settled [OF inv] snd al used in \<open>auto simp: sound_envs_def\<close>)
  let ?L = "Limiting ?k OPEN_ROOM" and ?A = "Asking (New_Service ?k OPEN_ROOM)"
  let ?p4 = "?ps[t := ?L, u := ?L, t := ?A, u := ?A]"
  let ?p6 = "?p4[t := Counting_In ?k a, u := Answered (Inl EBADR)]"
  let ?S' = "\<lparr>table = klogs ModulePut (klogs (WriteLock SearchLock) s1), table_lock = Writer, at_point = ?p6\<rparr>"
  have "may_run envs S \<lparr>table = table S, table_lock = Readers 0, at_point = ?ps\<rparr>"
    using may_run_refl [of envs S] S by metis
  from then_call [where t = u, OF then_call [where t = t, OF this e tu(1) out(1)] e]
  have "may_run envs S \<lparr>table = ?s, table_lock = Readers 0, at_point = ?ps[t := ?L, u := ?L]\<rparr>"
    using tu out by simp
  from then_gets [where t = u, OF then_gets [where t = t, OF this private_limit [OF room]] private_limit [OF room]]
  have "may_run envs S \<lparr>table = ?s, table_lock = Readers 0, at_point = ?p4\<rparr>" using tu by simp
  from then_gets [where t = u, OF then_gets [where t = t, OF this 1(1)] private_create_full [OF 1(2,3)]]
  have run: "may_run envs S ?S'" using tu by simp
  have "num writes ?p6 = 0"
    by (rule two_threads [of _ t u]) (use start tu in \<open>simp_all add: table_start_def\<close>)
  then have lost: "lost ?S'" by (simp add: lost_def)
  with run tu start show ?thesis by (intro exI [of _ ?S']) (simp add: table_start_def)
qed

text \<open>C26: The check of \<^verbatim>\<open>serviceCount\<close> in \<^verbatim>\<open>tag_get_CREATE\<close> is made before the lock is taken.  From
  any well-formed table with one free entry, two creations can both pass it; the second finds
  no entry and returns with \<^verbatim>\<open>searchLock\<close> held for writing, and from then on no call of any thread
  ever gets the lock.\<close>

theorem last_entry_race:
  assumes start: "table_start S" and snd: "sound_envs envs" and used: "Suc (used (table S)) = min_sys_TAG_Services"
    and tu: "t < length (at_point S)" "u < length (at_point S)" "t \<noteq> u"
    and al: "kmalloc_service (envs t) (sv_heap (table S)) \<noteq> None"
  shows "\<exists>S'. may_run envs S S' \<and> at_point S' ! u = Answered (Inl EBADR) \<and>
    (\<forall>S'' v e. (table_step envs (\<lambda>_. True))\<^sup>*\<^sup>* S' S'' \<longrightarrow> at_point S'' ! v = Asking e \<longrightarrow>
       svc_do envs (Step v) S'' = None)"
proof -
  from last_entry_lost [OF assms] obtain S' where S': "may_run envs S S'" "at_point S' ! u = Answered (Inl EBADR)"
    "lost S'" "table_lock S' = Writer" by blast
  have inv: "table_inv S'" by (rule reach_table_inv [OF may_run_reach [OF S'(1) start_reach [OF start]] snd])
  have "svc_do envs (Step v) S'' = None"
    if r: "(table_step envs (\<lambda>_. True))\<^sup>*\<^sup>* S' S''" and v: "at_point S'' ! v = Asking e" for S'' v e
    using lost_writer [OF r inv S'(3) snd S'(4)] lost_blocks [OF _ v] by blast
  with S' show ?thesis by blast
qed

section \<open>Removals under the read lock\<close>

text \<open>\<open>env\<close> may remove the service with the tag, and no reader sleeps in it.\<close>

definition removable :: "kenv \<Rightarrow> kstate \<Rightarrow> c_int \<Rightarrow> addr \<Rightarrow> bool" where
  "removable env s tag a \<longleftrightarrow> slot s (unat tag) = Some a \<and>
     (\<exists>sv. sv_heap s a = Some sv \<and> validServiceOperation env sv \<and> sleepers (levels sv) = [])"

lemma removable_same: "slot s' = slot s \<Longrightarrow> sv_heap s' a = sv_heap s a \<Longrightarrow> removable env s' tag a = removable env s tag a"
  by (simp add: removable_def)

lemma search_tag_settled: "kinv (settled s) \<Longrightarrow> scan_services (\<lambda>sv. sv_tag sv = tag) (sv_heap s) (slots s) = Inr (slot s (unat tag))"
  using search_tag [of "settled s" tag] settled_slots(1) [of s] by (simp add: searchTAG_Service_withTag_def)

text \<open>Up to the entry: the search, the checks, and the service that is built and dropped.\<close>

lemma removal_first:
  assumes inv: "kinv (settled s)" and snd: "env_sound env" and rm: "removable env s tag a"
    and al: "kmalloc_service env (sv_heap s) = Some b"
  obtains s' x where "gets env (Asking (Take_Away tag)) s (Readers n) (Picking a) s' (Readers (Suc n))"
    "kinv (settled s')" "slot s' = slot s" "sv_heap s' = (sv_heap s)(b \<mapsto> x)" "sv_heap s b = None"
    "serviceCount s' = serviceCount s" "used s' = used s"
proof -
  let ?e = "Take_Away tag" and ?s = "klogs (ReadLock SearchLock) s" and ?lk = "Readers (Suc n)"
  from rm obtain sv where sl: "slot s (unat tag) = Some a" and sv: "sv_heap s a = Some sv"
    "validServiceOperation env sv" "sleepers (levels sv) = []" by (auto simp: removable_def)
  have inv': "kinv (settled ?s)" using inv by simp
  have 1: "gets env (Testing ?e 0) ?s ?lk (Located ?e a) ?s ?lk"
    using search_alone [OF inv', of ?e "Some a" env ?lk] search_tag_settled [OF inv', of tag] sl
    by (simp add: search_end_def wanted_tag)
  have v: "permitted env ?s a = Some True" using sv by (simp add: permitted_def)
  have "build_empty env ?s \<noteq> None" by (rule build_empty_some [OF snd]) (simp add: al)
  then obtain s' where b: "build_empty env ?s = Some s'" by auto
  have 0: "svc_step env (Asking ?e) s (Readers n) = Some (Testing ?e 0, ?s, ?lk)"
    by (simp add: locking_def ask_lock_def)
  have "svc_step env (Located ?e a) ?s ?lk = Some (Permitting ?e a, ?s, ?lk)" by (simp add: found_def)
  moreover have "svc_step env (Permitting ?e a) ?s ?lk = Some (Polling a, ?s, ?lk)" using v by (simp add: allow_def)
  moreover have "svc_step env (Polling a) ?s ?lk = Some (Emptying a, ?s, ?lk)"
    using sv by (simp add: poll_def sleepers_empty)
  moreover have "svc_step env (Emptying a) ?s ?lk = Some (Picking a, s', ?lk)" using b by simp
  ultimately have "gets env (Located ?e a) ?s ?lk (Picking a) s' ?lk" by (blast intro: gets.intros)
  note go = gets_step [OF 0 gets_trans [OF 1 this]]
  from snd inv' b obtain c x where "sv_heap ?s c = None" "sv_heap s' = (sv_heap ?s)(c \<mapsto> x)"
    "kinv (settled s')" "slot s' = slot ?s" "used s' = used ?s" "serviceCount s' = serviceCount ?s"
    by (rule build_empty_table)
  moreover have "c = b"
  proof -
    from b al obtain y where "sv_heap s' = (sv_heap ?s)(b \<mapsto> y)"
      by (auto simp: build_empty_def split: sum.splits)
    with calculation(1,2) show ?thesis by (auto dest: fun_cong [where x = c] split: if_splits)
  qed
  ultimately show thesis using go by (intro that [of s' x]) simp_all
qed

lemma own_entry_in:
  assumes "kinv (settled s)" "slot s i = Some a"
  shows "own_entry s a = Some (i, Some a)"
proof -
  from assms(2) have "in_table s a" by (auto simp: in_table_def)
  with assms(1) obtain j where "slot s j = Some a" "own_entry s a = Some (j, Some a)" by (rule in_table_heap)
  with slot_inj [OF assms(1)] assms(2) show ?thesis by auto
qed

text \<open>From the freeing on.\<close>

definition dropped :: "addr option \<Rightarrow> kstate \<Rightarrow> kstate" where
  "dropped x s = klogs ModulePut (klogs (ReadUnlock SearchLock)
     (s\<lparr>sv_heap := (case x of None \<Rightarrow> sv_heap s | Some b \<Rightarrow> (sv_heap s)(b := None)),
        serviceCount := serviceCount s - 1\<rparr>))"

lemma dropping_run:
  assumes "\<And>b. x = Some b \<Longrightarrow> sv_heap s b \<noteq> None"
  shows "gets env (Dropping x) s (Readers (Suc n)) (Answered (Inr 0)) (dropped x s) (Readers n)"
proof -
  let ?s1 = "s\<lparr>sv_heap := (case x of None \<Rightarrow> sv_heap s | Some b \<Rightarrow> (sv_heap s)(b := None))\<rparr>"
  let ?s2 = "?s1\<lparr>serviceCount := serviceCount s - 1\<rparr>" and ?lk = "Readers (Suc n)"
  have "svc_step env (Dropping x) s ?lk = Some (Counting_Out, ?s1, ?lk)"
    using assms by (auto simp: free_service_def split: option.splits)
  moreover have "svc_step env Counting_Out ?s1 ?lk = Some (Finishing, ?s2, ?lk)" by simp
  moreover have "svc_step env Finishing ?s2 ?lk = Some (Answered (Inr 0), dropped x s, Readers n)"
    by (simp add: locking_def reply_def dropped_def)
  ultimately show ?thesis by (blast intro: gets.intros)
qed

lemma dropped_simps [simp]:
  "slots (dropped x s) = slots s" "used (dropped x s) = used s" "serviceCount (dropped x s) = serviceCount s - 1"
  by (auto simp: dropped_def slots_def used_def)

text \<open>A whole removal next to other readers.\<close>

lemma removal_run:
  assumes inv: "kinv (settled s)" and snd: "env_sound env" and rm: "removable env s tag a"
    and al: "kmalloc_service env (sv_heap s) = Some b"
  obtains s1 s2 where "gets env (Asking (Take_Away tag)) s (Readers n) (Dropping (Some a)) s1 (Readers (Suc n))"
    "gets env (Dropping (Some a)) s1 (Readers (Suc n)) (Answered (Inr 0)) s2 (Readers n)"
    "slot s1 (unat tag) = None" "sv_heap s2 a = None"
proof -
  from inv snd rm al obtain s' x where f: "gets env (Asking (Take_Away tag)) s (Readers n) (Picking a) s' (Readers (Suc n))"
    "kinv (settled s')" "slot s' = slot s" "sv_heap s' = (sv_heap s)(b \<mapsto> x)" "sv_heap s b = None"
    by (rule removal_first)
  have sl: "slot s' (unat tag) = Some a" using f(3) rm by (simp add: removable_def)
  note own = own_entry_in [OF f(2) sl]
  let ?s1 = "clear_entry (unat tag) s'" and ?lk = "Readers (Suc n)"
  have i: "unat tag < min_sys_TAG_Services" using slot_bound [OF f(2)] sl by simp
  have heap: "sv_heap ?s1 = sv_heap s'" by (simp add: clear_entry_def)
  have "svc_step env (Picking a) s' ?lk = Some (Clearing_Out a (Some a), s', ?lk)"
    "svc_step env (Clearing_Out a (Some a)) s' ?lk = Some (Dropping (Some a), ?s1, ?lk)"
    using own by simp_all
  then have "gets env (Picking a) s' ?lk (Dropping (Some a)) ?s1 ?lk" by (blast intro: gets.intros)
  note first = gets_trans [OF f(1) this]
  have "sv_heap ?s1 a \<noteq> None" using rm f(4) by (auto simp: heap removable_def)
  then have "gets env (Dropping (Some a)) ?s1 ?lk (Answered (Inr 0)) (dropped (Some a) ?s1) (Readers n)"
    by (intro dropping_run) auto
  moreover have "slot ?s1 (unat tag) = None" by (simp add: clear_entry_table(3) [OF f(2) i])
  ultimately show thesis using first by (intro that [of ?s1 "dropped (Some a) ?s1"]) (simp_all add: dropped_def)
qed

section \<open>A service freed under a call\<close>

lemma table_start_eq: "table_start S \<Longrightarrow> S = \<lparr>table = table S, table_lock = Readers 0, at_point = at_point S\<rparr>"
  by (cases S) (simp add: table_start_def)

text \<open>The start of a lookup of a tag, up to the entry of the service.\<close>

lemma lookup_tag:
  assumes inv: "kinv (settled s)" and sl: "slot s (unat tag) = Some a" and sv: "sv_heap s a = Some sv"
    and val: "validServiceOperation env sv"
  obtains s' where "gets env (Asking (With_Tag tag)) s (Readers 0) (Using a) s' (Readers 0)"
    "settled s' = klogs (ReadUnlock SearchLock) (klogs (ReadLock SearchLock) (settled s))"
    "slot s' = slot s" "sv_heap s' = sv_heap s"
proof -
  let ?e = "With_Tag tag" and ?s = "klogs (ReadLock SearchLock) s" and ?lk = "Readers (Suc 0)"
  let ?s1 = "klogs (ReadUnlock SearchLock) ?s"
  have inv': "kinv (settled ?s)" using inv by simp
  have 1: "gets env (Testing ?e 0) ?s ?lk (Located ?e a) ?s ?lk"
    using search_alone [OF inv', of ?e "Some a" env ?lk] search_tag_settled [OF inv', of tag] sl
    by (simp add: search_end_def wanted_tag)
  have 0: "svc_step env (Asking ?e) s (Readers 0) = Some (Testing ?e 0, ?s, ?lk)"
    by (simp add: locking_def ask_lock_def)
  have "svc_step env (Located ?e a) ?s ?lk = Some (Permitting ?e a, ?s1, Readers 0)"
    by (simp add: found_def locking_def)
  moreover have "svc_step env (Permitting ?e a) ?s1 (Readers 0) = Some (Using a, ?s1, Readers 0)"
    using sv val by (simp add: allow_def permitted_def)
  ultimately have "gets env (Located ?e a) ?s ?lk (Using a) ?s1 (Readers 0)" by (blast intro: gets.intros)
  from gets_step [OF 0 gets_trans [OF 1 this]] show thesis by (intro that [of ?s1]) simp_all
qed

text \<open>C28: \<^verbatim>\<open>tag_send\<close>, \<^verbatim>\<open>tag_receive\<close> and \<^verbatim>\<open>AWAKE_ALL\<close> give \<^verbatim>\<open>searchLock\<close> back as soon as they have found
  the service.  From any well-formed table with a service in which no reader sleeps, a removal of
  it can be answered 0 in between: the other call then uses a service that has been freed.\<close>

theorem service_freed_in_use:
  assumes start: "table_start S" and snd: "sound_envs envs"
    and tu: "t < length (at_point S)" "u < length (at_point S)" "t \<noteq> u"
    and rm: "removable (envs u) (table S) tag a" "removable (envs t) (table S) tag a" "0 \<le> sint tag"
    and al: "kmalloc_service (envs u) (sv_heap (table S)) \<noteq> None"
  shows "\<exists>S'. may_run envs S S' \<and> at_point S' ! t = Using a \<and> at_point S' ! u = Answered (Inr 0) \<and>
    sv_heap (table S') a = None"
proof -
  let ?ps = "at_point S" and ?s = "klogs TryModuleGet (table S)"
  have inv: "kinv (settled (table S))" and out: "?ps ! t = Outside" "?ps ! u = Outside"
    using start tu by (simp_all add: table_start_def kinv_settled)
  from rm(2) obtain sv where sv: "slot (table S) (unat tag) = Some a" "sv_heap (table S) a = Some sv"
    "validServiceOperation (envs t) sv" by (auto simp: removable_def)
  obtain s1 where 1: "gets (envs t) (Asking (With_Tag tag)) ?s (Readers 0) (Using a) s1 (Readers 0)"
    "settled s1 = klogs (ReadUnlock SearchLock) (klogs (ReadLock SearchLock) (settled ?s))"
    "slot s1 = slot ?s" "sv_heap s1 = sv_heap ?s"
    by (rule lookup_tag [of ?s tag a sv "envs t"]) (use inv sv in simp_all)
  let ?s1 = "klogs TryModuleGet s1"
  from al obtain b where b: "kmalloc_service (envs u) (sv_heap ?s1) = Some b" using 1(4) by auto
  have inv1: "kinv (settled ?s1)" using inv 1(2) by simp
  have "removable (envs u) ?s1 tag a" using rm(1) 1(3,4) by (simp add: removable_def)
  from removal_run [OF inv1 _ this b] snd obtain s2 s3 where
    2: "gets (envs u) (Asking (Take_Away tag)) ?s1 (Readers 0) (Dropping (Some a)) s2 (Readers (Suc 0))"
      "gets (envs u) (Dropping (Some a)) s2 (Readers (Suc 0)) (Answered (Inr 0)) s3 (Readers 0)"
      "sv_heap s3 a = None" unfolding sound_envs_def by blast
  have "may_run envs S \<lparr>table = table S, table_lock = Readers 0, at_point = ?ps\<rparr>"
    using may_run_refl [of envs S] table_start_eq [OF start] by metis
  from then_gets [where t = t, OF then_call [where t = t and e = "With_Tag tag", OF this] 1(1)]
  have "may_run envs S \<lparr>table = s1, table_lock = Readers 0, at_point = ?ps[t := Using a]\<rparr>"
    using tu out by simp
  from then_gets [where t = u, OF then_call [where t = u and e = "Take_Away tag", OF this] gets_trans [OF 2(1,2)]]
  have "may_run envs S \<lparr>table = s3, table_lock = Readers 0, at_point = ?ps[t := Using a, u := Answered (Inr 0)]\<rparr>"
    using tu out rm(3) by simp
  with 2(3) tu show ?thesis by (intro exI conjI) auto
qed

section \<open>An entry cleared under a search\<close>

lemma search_up_to:
  assumes inv: "kinv (settled s)" and i: "i < min_sys_TAG_Services"
    and no: "\<And>j sv. j < i \<Longrightarrow> svc_at s j = Some sv \<Longrightarrow> \<not> wanted e sv"
  shows "gets env (Testing e 0) s lk (Testing e i) s lk"
  using i no
proof (induction i)
  case (Suc i)
  have load: "load_entry s i = Some (slot s i)" using load_entry_slot(1) [OF inv] Suc.prems(1) by simp
  have nxt: "next_entry e i = Testing e (Suc i)" using Suc.prems(1) by (simp add: next_entry_def)
  have "gets env (Testing e i) s lk (Testing e (Suc i)) s lk"
  proof (cases "slot s i")
    case None
    with load nxt show ?thesis by (intro gets_one) simp
  next
    case (Some a)
    with kinv_slot [OF inv] obtain sv where sv: "sv_heap s a = Some sv" "svc_at s i = Some sv" by fastforce
    have "svc_step env (Testing e i) s lk = Some (Comparing e i, s, lk)"
      "svc_step env (Comparing e i) s lk = Some (Testing e (Suc i), s, lk)"
      using load Some sv Suc.prems(2) [of i sv] nxt by simp_all
    then show ?thesis by (blast intro: gets.intros)
  qed
  moreover have "gets env (Testing e 0) s lk (Testing e i) s lk" by (rule Suc.IH) (use Suc.prems(1) in simp, rule Suc.prems(2) [OF less_SucI])
  ultimately show ?case by (blast intro: gets_trans)
qed (rule gets_refl)

text \<open>\<^verbatim>\<open>REMOVE\<close> clears its entry under the lock for reading, so a search, which reads the entry
  three times under the same lock, can find it null the second time: it then follows a null
  pointer.\<close>

theorem search_meets_null:
  assumes start: "table_start S" and snd: "sound_envs envs"
    and tu: "t < length (at_point S)" "u < length (at_point S)" "t \<noteq> u"
    and rm: "removable (envs u) (table S) tag a" "0 \<le> sint tag"
    and al: "kmalloc_service (envs u) (sv_heap (table S)) \<noteq> None"
  shows "\<exists>S'. may_run envs S S' \<and> at_point S' ! t = Comparing (With_Tag tag) (unat tag) \<and>
    load_entry (table S') (unat tag) = Some None \<and> svc_do envs (Step t) S' = None"
proof -
  let ?ps = "at_point S" and ?s = "klogs (ReadLock SearchLock) (klogs TryModuleGet (table S))"
  let ?e = "With_Tag tag" and ?i = "unat tag" and ?lk = "Readers (Suc 0)"
  let ?s1 = "klogs TryModuleGet ?s"
  have k: "kinv (table S)" and out: "?ps ! t = Outside" "?ps ! u = Outside"
    using start tu by (simp_all add: table_start_def)
  then have inv: "kinv (settled ?s)" "kinv (settled ?s1)" by (simp_all add: kinv_settled)
  have sl: "slot ?s ?i = Some a" using rm(1) by (simp add: removable_def)
  then have i: "?i < min_sys_TAG_Services" using slot_bound [OF k] by simp
  have other: "\<not> wanted ?e sv" if "j < ?i" "svc_at ?s j = Some sv" for j sv
  proof -
    have "sv_tag sv = of_nat j" using kinv_wf [OF k, of j sv] that(2) by (simp add: svc_wf_def)
    then show ?thesis using that(1) i by (auto simp: unat_of_nat min_sys_TAG_Services_def)
  qed
  have "svc_step (envs t) (Asking ?e) (klogs TryModuleGet (table S)) (Readers 0) = Some (Testing ?e 0, ?s, ?lk)"
    by (simp add: locking_def ask_lock_def)
  moreover have "gets (envs t) (Testing ?e 0) ?s ?lk (Testing ?e ?i) ?s ?lk"
    by (rule search_up_to [OF inv(1) i other])
  moreover have "svc_step (envs t) (Testing ?e ?i) ?s ?lk = Some (Comparing ?e ?i, ?s, ?lk)"
    using load_entry_slot(1) [OF inv(1) i] sl by simp
  ultimately have 1: "gets (envs t) (Asking ?e) (klogs TryModuleGet (table S)) (Readers 0) (Comparing ?e ?i) ?s ?lk"
    by (blast intro: gets.intros gets_trans)
  from al obtain b where b: "kmalloc_service (envs u) (sv_heap ?s1) = Some b" by auto
  have "removable (envs u) ?s1 tag a" using rm(1) by (simp add: removable_def)
  from removal_run [OF inv(2) _ this b, of "Suc 0"] snd obtain s2 where
    2: "gets (envs u) (Asking (Take_Away tag)) ?s1 ?lk (Dropping (Some a)) s2 (Readers (Suc (Suc 0)))"
      "slot s2 ?i = None" unfolding sound_envs_def by blast
  let ?S' = "\<lparr>table = s2, table_lock = Readers (Suc (Suc 0)), at_point = ?ps[t := Comparing ?e ?i, u := Dropping (Some a)]\<rparr>"
  have "may_run envs S \<lparr>table = table S, table_lock = Readers 0, at_point = ?ps\<rparr>"
    using may_run_refl [of envs S] table_start_eq [OF start] by metis
  from then_gets [where t = t, OF then_call [where t = t and e = ?e, OF this] 1]
  have "may_run envs S \<lparr>table = ?s, table_lock = ?lk, at_point = ?ps[t := Comparing ?e ?i]\<rparr>"
    using tu out by simp
  from then_gets [where t = u, OF then_call [where t = u and e = "Take_Away tag", OF this] 2(1)]
  have run: "may_run envs S ?S'" using tu out rm(2) by simp
  have "table_inv ?S'" by (rule reach_table_inv [OF may_run_reach [OF run start_reach [OF start]] snd])
  then have "load_entry s2 ?i = Some None" using load_entry_slot(1) [of s2 ?i] i 2(2) by (simp add: table_inv_def)
  with run tu show ?thesis by (intro exI [of _ ?S']) simp
qed

section \<open>Two removals of one service\<close>

text \<open>The second finds the entry cleared and clears it again; its pointer to the service is good
  as long as the first has not freed it.\<close>

lemma both_pick:
  assumes inv: "kinv (settled s)" and sl: "slot s i = Some a"
  shows "gets env (Picking a) s lk (Dropping (Some a)) (clear_entry i s) lk"
    "gets env (Picking a) (clear_entry i s) lk (Dropping None) (clear_entry i (clear_entry i s)) lk"
    "Suc (used (clear_entry i (clear_entry i s))) = used s"
    "serviceCount (clear_entry i (clear_entry i s)) = serviceCount s"
    "sv_heap (clear_entry i (clear_entry i s)) = sv_heap s"
proof -
  have i: "i < min_sys_TAG_Services" using slot_bound [OF inv] sl by simp
  note own = own_entry_in [OF inv sl] and C = clear_entry_table [OF inv i]
  note D = clear_entry_table [OF C(1) i]
  have heap: "sv_heap (clear_entry j s') = sv_heap s'" "serviceCount (clear_entry j s') = serviceCount s'" for j s'
    by (simp_all add: clear_entry_def)
  have own': "own_entry (clear_entry i s) a = Some (i, None)"
    using own unfolding own_entry_eq [OF inv] own_entry_eq [OF C(1)] by (auto simp: heap C(3))
  have "svc_step env (Picking a) s lk = Some (Clearing_Out a (Some a), s, lk)"
    "svc_step env (Clearing_Out a (Some a)) s lk = Some (Dropping (Some a), clear_entry i s, lk)"
    using own by simp_all
  then show "gets env (Picking a) s lk (Dropping (Some a)) (clear_entry i s) lk" by (blast intro: gets.intros)
  have "svc_step env (Picking a) (clear_entry i s) lk = Some (Clearing_Out a None, clear_entry i s, lk)"
    "svc_step env (Clearing_Out a None) (clear_entry i s) lk =
      Some (Dropping None, clear_entry i (clear_entry i s), lk)"
    using own' by simp_all
  then show "gets env (Picking a) (clear_entry i s) lk (Dropping None) (clear_entry i (clear_entry i s)) lk"
    by (blast intro: gets.intros)
  show "Suc (used (clear_entry i (clear_entry i s))) = used s" using C(4) D(4) sl by (simp add: C(3))
qed (simp_all add: clear_entry_def)

text \<open>C29: Two removals of the same service can pass the search together, since both hold the lock for
  reading only.  From any well-formed table both are answered 0 while one entry is cleared, and
  \<^verbatim>\<open>serviceCount\<close> is decremented twice: from then on it is one below the number of services.\<close>

theorem removed_twice:
  assumes start: "table_start S" and snd: "sound_envs envs"
    and tu: "t < length (at_point S)" "u < length (at_point S)" "t \<noteq> u"
    and rm: "removable (envs t) (table S) tag a" "removable (envs u) (table S) tag a" "0 \<le> sint tag"
    and al: "\<And>v. v = t \<or> v = u \<Longrightarrow> alloc_room (kmalloc_service (envs v)) (sv_heap (table S)) 2"
  shows "\<exists>S'. may_run envs S S' \<and> at_point S' ! t = Answered (Inr 0) \<and> at_point S' ! u = Answered (Inr 0) \<and>
    table_lock S' = Readers 0 \<and> Suc (used (table S')) = used (table S) \<and>
    serviceCount (table S') = of_nat (used (table S')) - 1"
proof -
  let ?ps = "at_point S" and ?s = "klogs TryModuleGet (klogs TryModuleGet (table S))" and ?i = "unat tag"
  let ?r = "Asking (Take_Away tag)"
  have k: "kinv (table S)" and out: "?ps ! t = Outside" "?ps ! u = Outside"
    using start tu by (simp_all add: table_start_def)
  then have inv: "kinv (settled ?s)" by (simp add: kinv_settled)
  have sn: "env_sound (envs v)" for v using snd by (simp add: sound_envs_def)
  obtain b where b: "kmalloc_service (envs t) (sv_heap ?s) = Some b"
    using alloc_room_Some [of _ "sv_heap (table S)" 1] al [of t] by (auto simp: numeral_2_eq_2)
  have "removable (envs t) ?s tag a" using rm(1) by (simp add: removable_def)
  from removal_first [OF inv sn this b, of 0] obtain s1 x where
    1: "gets (envs t) ?r ?s (Readers 0) (Picking a) s1 (Readers (Suc 0))" "kinv (settled s1)" "slot s1 = slot ?s"
      "sv_heap s1 = (sv_heap ?s)(b \<mapsto> x)" "sv_heap ?s b = None" "serviceCount s1 = serviceCount ?s" "used s1 = used ?s"
    by blast
  have "alloc_room (kmalloc_service (envs u)) (sv_heap s1) 1"
    by (rule alloc_room_upd [of _ "sv_heap (table S)" _ _ b]) (use al [of u] 1(4,5) in \<open>simp_all add: numeral_2_eq_2\<close>)
  then obtain c where c: "kmalloc_service (envs u) (sv_heap s1) = Some c"
    using alloc_room_Some [of _ "sv_heap s1" 0] by auto
  have ab: "a \<noteq> b" using rm(1) 1(5) by (auto simp: removable_def)
  then have "removable (envs u) s1 tag a" using rm(2) 1(3,4) by (simp add: removable_def)
  from removal_first [OF 1(2) sn this c, of "Suc 0"] obtain s2 y where
    2: "gets (envs u) ?r s1 (Readers (Suc 0)) (Picking a) s2 (Readers (Suc (Suc 0)))" "kinv (settled s2)"
      "slot s2 = slot s1" "sv_heap s2 = (sv_heap s1)(c \<mapsto> y)" "sv_heap s1 c = None"
      "serviceCount s2 = serviceCount s1" "used s2 = used s1"
    by blast
  let ?s3 = "clear_entry ?i s2"
  let ?s4 = "clear_entry ?i ?s3"
  let ?s6 = "dropped None (dropped (Some a) ?s4)"
  have sl: "slot s2 ?i = Some a" using rm(1) 1(3) 2(3) by (simp add: removable_def)
  note P = both_pick [OF 2(2) sl]
  have "sv_heap ?s4 a \<noteq> None" using rm(1) P(5) 1(4) 2(4) by (auto simp: removable_def)
  then have dt: "gets (envs t) (Dropping (Some a)) ?s4 (Readers (Suc (Suc 0))) (Answered (Inr 0))
      (dropped (Some a) ?s4) (Readers (Suc 0))" by (intro dropping_run) auto
  have du: "gets (envs u) (Dropping None) (dropped (Some a) ?s4) (Readers (Suc 0)) (Answered (Inr 0)) ?s6 (Readers 0)"
    by (rule dropping_run) simp
  let ?S' = "\<lparr>table = ?s6, table_lock = Readers 0, at_point = ?ps[t := Answered (Inr 0), u := Answered (Inr 0)]\<rparr>"
  have "may_run envs S \<lparr>table = table S, table_lock = Readers 0, at_point = ?ps\<rparr>"
    using may_run_refl [of envs S] table_start_eq [OF start] by metis
  from then_call [where t = u and e = "Take_Away tag", OF then_call [where t = t and e = "Take_Away tag", OF this]]
  have "may_run envs S \<lparr>table = ?s, table_lock = Readers 0, at_point = ?ps[t := ?r, u := ?r]\<rparr>"
    using tu out rm(3) by simp
  from then_gets [where t = u, OF then_gets [where t = t, OF this 1(1)] 2(1)]
  have "may_run envs S \<lparr>table = s2, table_lock = Readers (Suc (Suc 0)), at_point = ?ps[t := Picking a, u := Picking a]\<rparr>"
    using tu by (simp add: list_update_swap [of u t])
  from then_gets [where t = u, OF then_gets [where t = t, OF this P(1)] P(2)]
  have "may_run envs S \<lparr>table = ?s4, table_lock = Readers (Suc (Suc 0)),
      at_point = ?ps[t := Dropping (Some a), u := Dropping None]\<rparr>"
    using tu by (simp add: list_update_swap [of u t])
  from then_gets [where t = u, OF then_gets [where t = t, OF this dt] du]
  have run: "may_run envs S ?S'" using tu by (simp add: list_update_swap [of u t])
  have used: "used (table S) = Suc (used ?s4)" using P(3) 1(7) 2(7) by simp
  moreover have "serviceCount ?s6 = serviceCount (table S) - 2" using P(4) 1(6) 2(6) by simp
  ultimately have "serviceCount ?s6 = of_nat (used ?s4) - 1" using kinv_count(1) [OF k] by simp
  with run used tu show ?thesis by (intro exI [of _ ?S']) simp
qed

section \<open>At a concrete state\<close>

lemma crowd_removable:
  assumes "n \<le> min_sys_TAG_Services" "0 < n"
  shows "removable (ready_envs t) (crowd n) 0 0"
  using assms crowd_slot [OF assms(1), of 0]
  by (simp add: removable_def crowd_service_def validServiceOperation_def sleepers_def waitqueue_active_def
    rcu_list_init_def)

theorem lost_hold_stays_witness:
  "\<exists>S S'. table_reach ready_envs (\<lambda>_. True) S \<and> lost S \<and> (table_step ready_envs (\<lambda>_. True))\<^sup>*\<^sup>* S S' \<and>
     at_point S' ! 2 = Asking (With_Tag 0) \<and> svc_do ready_envs (Step 2) S' = None \<and>
     lock_step SearchLock (table_lock S') (WriteUnlock SearchLock) = Readers 0"
proof -
  have n: "255 \<le> min_sys_TAG_Services" by (simp add: min_sys_TAG_Services_def)
  note start = crowd_start [OF n, of 3]
  from last_entry_lost [OF start ready_sound(1), of 0 1] crowd(2) [OF n] crowd_alloc [of 255 0] obtain S where
    S: "may_run ready_envs (crowd_sys 255 3) S" "lost S" "table_lock S = Writer" "at_point S ! 2 = Outside"
      "length (at_point S) = 3"
    by (auto simp: min_sys_TAG_Services_def nth_Cons split: nat.splits)
  note r = may_run_reach [OF S(1) start_reach [OF start]]
  let ?S' = "S\<lparr>table := klogs TryModuleGet (table S), at_point := (at_point S)[2 := Asking (With_Tag 0)]\<rparr>"
  have st: "table_step ready_envs (\<lambda>_. True) S ?S'"
    by (rule table_stepI [of _ "Call 2 (With_Tag 0)"]) (use S in simp_all)
  have b: "svc_do ready_envs (Step 2) ?S' = None \<and>
      lock_step SearchLock (table_lock ?S') (WriteUnlock SearchLock) = (if table_lock ?S' = Writer then Readers 0 else Misused) \<and>
      (table_lock S = Writer \<longrightarrow> table_lock ?S' = Writer)"
    by (rule lost_hold_stays [OF r ready_sound(1) S(2) r_into_rtranclp [where r = "table_step ready_envs (\<lambda>_. True)", OF st]])
      (use S in simp_all)
  have "lock_step SearchLock (table_lock ?S') (WriteUnlock SearchLock) = Readers 0" by (simp add: S(3))
  moreover have "at_point ?S' ! 2 = Asking (With_Tag 0)" using S(5) by simp
  ultimately show ?thesis using r S(2) r_into_rtranclp [where r = "table_step ready_envs (\<lambda>_. True)", OF st] b
    by blast
qed

theorem last_entry_race_witness:
  "\<exists>S'. may_run ready_envs (crowd_sys 255 2) S' \<and> at_point S' ! 1 = Answered (Inl EBADR)"
proof -
  have n: "255 \<le> min_sys_TAG_Services" by (simp add: min_sys_TAG_Services_def)
  from last_entry_race [OF crowd_start [OF n, of 2] ready_sound(1), of 0 1] crowd(2) [OF n] crowd_alloc [of 255 0]
  show ?thesis by (auto simp: min_sys_TAG_Services_def)
qed

theorem service_freed_in_use_witness:
  "\<exists>S'. may_run ready_envs (crowd_sys 1 2) S' \<and> at_point S' ! 0 = Using 0 \<and> sv_heap (table S') 0 = None"
proof -
  have n: "1 \<le> min_sys_TAG_Services" by (simp add: min_sys_TAG_Services_def)
  from service_freed_in_use [OF crowd_start [OF n, of 2] ready_sound(1), of 0 1 0 0] crowd_removable [OF n]
    crowd_alloc [of 1 1] show ?thesis by auto
qed

theorem search_meets_null_witness:
  "\<exists>S'. may_run ready_envs (crowd_sys 1 2) S' \<and> at_point S' ! 0 = Comparing (With_Tag 0) 0 \<and>
     svc_do ready_envs (Step 0) S' = None"
proof -
  have n: "1 \<le> min_sys_TAG_Services" by (simp add: min_sys_TAG_Services_def)
  from search_meets_null [OF crowd_start [OF n, of 2] ready_sound(1), of 0 1 0 0] crowd_removable [OF n]
    crowd_alloc [of 1 1] show ?thesis by (auto simp del: svc_do.simps)
qed

text \<open>With one service only, the counter ends at its largest value: every creation is refused after
  that, on an empty table.\<close>

theorem removed_twice_witness:
  "\<exists>S'. may_run ready_envs (crowd_sys 1 2) S' \<and> used (table S') = 0 \<and> serviceCount (table S') = - 1 \<and>
     MAX_SERVICE_NUM (crowd 1) \<le> serviceCount (table S')"
proof -
  have n: "1 \<le> min_sys_TAG_Services" by (simp add: min_sys_TAG_Services_def)
  have "dom (sv_heap (crowd 1)) = {0}" by (auto split: if_splits)
  then have "alloc_room (kmalloc_service (ready_envs v)) (sv_heap (crowd 1)) 2" for v
    by (simp add: ready_envs_def arena_room)
  from removed_twice [OF crowd_start [OF n, of 2] ready_sound(1), of 0 1 0 0] crowd_removable [OF n] this
  obtain S' where "may_run ready_envs (crowd_sys 1 2) S'" "Suc (used (table S')) = used (crowd 1)"
    "serviceCount (table S') = of_nat (used (table S')) - 1" by auto
  with crowd(2) [OF n] show ?thesis by (intro exI [of _ S']) simp
qed

end
