(* ===== verification/Decimal.thy ===== *)
theory Decimal
  imports Prelude
begin

text \<open>
  The decimal numbers \<^verbatim>\<open>%d\<close> prints, used by the status device and by the user library, and
  how long they are.
\<close>

definition NUL :: char where "NUL = CHR 0x00"
definition newline :: string where "newline = [CHR 0x0A]"

fun show_digits :: "nat \<Rightarrow> nat \<Rightarrow> string" where
  "show_digits 0 n = []"
| "show_digits (Suc f) n =
     (if n < 10 then [char_of (48 + n)] else show_digits f (n div 10) @ [char_of (48 + n mod 10)])"

text \<open>\<^verbatim>\<open>%d\<close>: the number of digits is bounded by the number itself, which serves as fuel.\<close>

definition show_nat :: "nat \<Rightarrow> string" where
  "show_nat n = show_digits (Suc n) n"

definition show_int :: "int \<Rightarrow> string" where
  "show_int i = (if i < 0 then ''-'' @ show_nat (nat (- i)) else show_nat (nat i))"

lemma show_digits_length:
  "0 < f \<Longrightarrow> 1 \<le> length (show_digits f n)"
  "0 < k \<Longrightarrow> n < 10 ^ k \<Longrightarrow> length (show_digits f n) \<le> k"
proof -
  show "0 < f \<Longrightarrow> 1 \<le> length (show_digits f n)" by (cases f) auto
  show "0 < k \<Longrightarrow> n < 10 ^ k \<Longrightarrow> length (show_digits f n) \<le> k"
  proof (induction f arbitrary: n k)
    case (Suc f)
    show ?case
    proof (cases "n < 10")
      case True
      with Suc.prems show ?thesis by simp
    next
      case False
      then obtain k' where k: "k = Suc k'" "0 < k'" using Suc.prems by (cases k; cases "k - 1") auto
      with Suc.prems(2) have "n div 10 < 10 ^ k'" by (simp add: less_mult_imp_div_less mult.commute)
      with Suc.IH [OF k(2), of "n div 10"] False k(1) show ?thesis by simp
    qed
  qed simp
qed

lemma show_int_length:
  "1 \<le> length (show_int i)"
  "0 \<le> i \<Longrightarrow> i < 10 ^ k \<Longrightarrow> 0 < k \<Longrightarrow> length (show_int i) \<le> k"
  "- (10 ^ k) < i \<Longrightarrow> i < 10 ^ k \<Longrightarrow> 0 < k \<Longrightarrow> length (show_int i) \<le> Suc k"
proof -
  have nat: "length (show_nat m) \<le> k" if "m < 10 ^ k" "0 < k" for m k
    unfolding show_nat_def by (rule show_digits_length(2) [OF that(2,1)])
  show "1 \<le> length (show_int i)"
    using show_digits_length(1) [of "Suc (nat i)" "nat i"] by (simp add: show_int_def show_nat_def)
  show "0 \<le> i \<Longrightarrow> i < 10 ^ k \<Longrightarrow> 0 < k \<Longrightarrow> length (show_int i) \<le> k"
    using nat [of "nat i" k] by (simp add: show_int_def nat_less_iff)
  show "- (10 ^ k) < i \<Longrightarrow> i < 10 ^ k \<Longrightarrow> 0 < k \<Longrightarrow> length (show_int i) \<le> Suc k"
    using nat [of "nat i" k] nat [of "nat (- i)" k] by (auto simp: show_int_def nat_less_iff)
qed

section \<open>The characters of a number\<close>

lemma show_digits_chars: "set (show_digits f n) \<subseteq> {c. 48 \<le> (of_char c :: nat) \<and> (of_char c :: nat) \<le> 57}"
  by (induction f arbitrary: n) auto

lemma show_nat_chars: "c \<in> set (show_nat n) \<Longrightarrow> 48 \<le> (of_char c :: nat) \<and> (of_char c :: nat) \<le> 57"
  using show_digits_chars unfolding show_nat_def by blast

lemma show_int_chars: "c \<in> set (show_int i) \<Longrightarrow> 45 \<le> (of_char c :: nat) \<and> (of_char c :: nat) \<le> 57 \<and> (of_char c :: nat) \<noteq> 46"
  using show_nat_chars [of c] by (fastforce simp: show_int_def split: if_splits)

end
