(* ===== verification/StatusDump.thy ===== *)
theory StatusDump
  imports ServiceTable CopyLoop Decimal
begin

text \<open>
  The character device of \<^verbatim>\<open>charDev.c\<close> and the dump it hands out: \<^verbatim>\<open>scan_Service\<close> prints the
  state of every level of every service into a buffer, \<^verbatim>\<open>dev_open\<close> takes such a dump and
  \<^verbatim>\<open>dev_read\<close> copies it to user space piece by piece.  \<open>vzalloc n\<close> is a parameter: the buffer
  of zeros it answers, which may be longer than the \<open>n\<close> bytes asked for.
\<close>

section \<open>Printing\<close>

text \<open>\<^verbatim>\<open>scnprintf(text + w, size, ...)\<close> writes at most \<open>size\<close> bytes, the terminator included, and
  returns the number of characters before the terminator.\<close>

definition write_at :: "string \<Rightarrow> nat \<Rightarrow> string \<Rightarrow> string res" where
  "write_at buf pos str =
     (if length buf < pos + length str then Inl Fault
      else Inr (take pos buf @ str @ drop (pos + length str) buf))"

definition scnprintf :: "string \<Rightarrow> nat \<Rightarrow> nat \<Rightarrow> string \<Rightarrow> (nat \<times> string) res" where
  "scnprintf buf pos sz out =
     (if sz = 0 then Inr (0, buf)
      else rbind (write_at buf pos (take (sz - 1) out @ [NUL]))
             (\<lambda>b. Inr (min (length out) (sz - 1), b)))"

text \<open>\<^verbatim>\<open>writeLen += scnprintf(text + writeLen, *len - writeLen, ...)\<close>\<close>

definition emit :: "nat \<Rightarrow> string \<Rightarrow> nat \<times> string \<Rightarrow> (nat \<times> string) res" where
  "emit len out = (\<lambda>(w, buf). rbind (scnprintf buf w (len - w) out) (\<lambda>(n, b). Inr (w + n, b)))"

fun emit_all :: "nat \<Rightarrow> string list \<Rightarrow> nat \<times> string \<Rightarrow> (nat \<times> string) res" where
  "emit_all len [] st = Inr st"
| "emit_all len (x # xs) st = rbind (emit len x st) (emit_all len xs)"

section \<open>scan_Service\<close>

text \<open>The four prints of one level.\<close>

definition level_prints :: "TAG_Service \<Rightarrow> nat \<Rightarrow> string list" where
  "level_prints sv level =
     [''Tag descriptor: '' @ show_int (sint (sv_tag sv)) @ '';'',
      ''Tag Creator: '' @ show_int (sint (uid_Creator sv)) @ '';'',
      ''TAG ID: '' @ show_int (sint (sv_tag sv)) @ ''; KEY: '' @ show_int (sint (sv_key sv)) @
        ''; Level: '' @ show_int (int level) @ '', Waiters: '' @ show_int (waiters (levels sv) ! level),
      newline]"

definition service_prints :: "TAG_Service \<Rightarrow> string list" where
  "service_prints sv = concat (map (level_prints sv) [0..<levelDeep]) @ [newline]"

fun scan_slots :: "sv_store \<Rightarrow> addr option list \<Rightarrow> nat \<Rightarrow> nat \<times> string \<Rightarrow> (nat \<times> string) res" where
  "scan_slots h [] len st = Inr st"
| "scan_slots h (None # ps) len st = scan_slots h ps len st"
| "scan_slots h (Some a # ps) len st = (case h a of
     None \<Rightarrow> Inl Fault
   | Some sv \<Rightarrow> rbind (emit_all len (service_prints sv) st) (scan_slots h ps len))"

definition scan_Service :: "(nat \<Rightarrow> string option) \<Rightarrow> kstate \<Rightarrow> nat \<Rightarrow> (string \<times> nat) res" where
  "scan_Service vzalloc s len = (case tagServices s of
     None \<Rightarrow> Inl Fault
   | Some ps \<Rightarrow> (case vzalloc (len - 1) of
       None \<Rightarrow> Inl Fault
     | Some buf \<Rightarrow>
         rbind (scan_slots (sv_heap s) ps len (0, buf)) (\<lambda>(w, b).
           rbind (write_at b w [NUL]) (\<lambda>text. Inr (text, w + 1)))))"

section \<open>The device\<close>

definition STATUS_SIZE_MAX :: nat where "STATUS_SIZE_MAX = 20 * 4096"

record scanModuleStatus =
  st_message :: string
  st_size :: "64 word"

type_synonym status_store = "addr \<Rightarrow> scanModuleStatus option"

definition getModuleStatus ::
  "(status_store \<Rightarrow> addr option) \<Rightarrow> (nat \<Rightarrow> string option) \<Rightarrow> kstate \<Rightarrow> status_store
    \<Rightarrow> (addr \<times> status_store) res" where
  "getModuleStatus kzalloc vzalloc s h = (case kzalloc h of
     None \<Rightarrow> Inl Fault
   | Some p \<Rightarrow> rbind (scan_Service vzalloc s STATUS_SIZE_MAX) (\<lambda>(text, n).
       Inr (p, h(p \<mapsto> \<lparr>st_message = text, st_size = of_nat n\<rparr>))))"

definition freeInstance :: "addr \<Rightarrow> status_store \<Rightarrow> status_store res" where
  "freeInstance p h = (case h p of None \<Rightarrow> Inl Fault | Some st \<Rightarrow> Inr (h(p := None)))"

text \<open>An open file: its private data and its position.\<close>

record open_file =
  private_data :: addr
  f_pos :: "64 word"

definition dev_open ::
  "(status_store \<Rightarrow> addr option) \<Rightarrow> (nat \<Rightarrow> string option) \<Rightarrow> kstate \<Rightarrow> status_store
    \<Rightarrow> (open_file \<times> status_store) res" where
  "dev_open kzalloc vzalloc s h =
     rbind (getModuleStatus kzalloc vzalloc s h) (\<lambda>(p, h'). Inr (\<lparr>private_data = p, f_pos = 0\<rparr>, h'))"

definition dev_release :: "open_file \<Rightarrow> status_store \<Rightarrow> status_store res" where
  "dev_release f h = freeInstance (private_data f) h"

text \<open>\<^verbatim>\<open>*f_pos >= dev->size\<close> compares signed integers, \<^verbatim>\<open>*f_pos + len > dev->size\<close> unsigned ones,
  and the sum can wrap.  The answer holds the bytes written to user memory.\<close>

definition dev_read ::
  "copy_fn \<Rightarrow> status_store \<Rightarrow> open_file \<Rightarrow> size_t \<Rightarrow> (size_t \<times> string \<times> open_file) res" where
  "dev_read cto h f len = (case h (private_data f) of
     None \<Rightarrow> Inl Fault
   | Some dev \<Rightarrow>
       if sint (f_pos f) \<ge> sint (st_size dev) then Inr (0, [], f)
       else
         let len' = (if f_pos f + len > st_size dev then st_size dev - f_pos f else len);
             src = drop (unat (f_pos f)) (st_message dev)
         in if length src < unat len' then Inl Fault
            else (case copy_loop cto src (unat len') 0 0 [] of
              None \<Rightarrow> Inl Spin
            | Some out \<Rightarrow> Inr (len', out, f\<lparr>f_pos := f_pos f + len'\<rparr>)))"

end
