(* ===== verification/StatusProps.thy ===== *)
theory StatusProps
  imports StatusDump Boot
begin

text \<open>What the status device hands out: the whole dump when it fits, the dump cut to the buffer
  when it does not, and how many services fit.\<close>

section \<open>The dump\<close>

definition service_text :: "TAG_Service \<Rightarrow> string" where
  "service_text sv = concat (service_prints sv)"

definition status_text :: "kstate \<Rightarrow> string" where
  "status_text s = concat (map (\<lambda>p. case p of None \<Rightarrow> [] | Some a \<Rightarrow> service_text (the (sv_heap s a))) (slots s))"

text \<open>After printing \<open>t\<close> into a buffer of \<open>n\<close> bytes: the first \<open>len - 1\<close> characters of \<open>t\<close> are there.
  \<open>fits\<close>: the terminator is inside the buffer.\<close>

definition printed :: "nat \<Rightarrow> nat \<Rightarrow> string \<Rightarrow> nat \<times> string \<Rightarrow> bool" where
  "printed n len t st \<longleftrightarrow> length (snd st) = n \<and> fst st = min (length t) (len - 1) \<and>
     take (fst st) (snd st) = take (len - 1) t"

definition fits :: "nat \<Rightarrow> nat \<Rightarrow> string \<Rightarrow> bool" where
  "fits n len t \<longleftrightarrow> min (length t) (len - 1) < n"

lemma fits_prefix: "fits n len (t @ u) \<Longrightarrow> fits n len t"
  by (auto simp: fits_def)

lemma emit_printed:
  assumes p: "printed n len t st" and len: "0 < len" and n: "0 < n"
  shows "if fits n len (t @ x) then \<exists>st'. emit len x st = Inr st' \<and> printed n len (t @ x) st'
         else emit len x st = Inl Fault"
proof -
  obtain w buf where st: "st = (w, buf)" by fastforce
  have w: "length buf = n" "w = min (length t) (len - 1)" "take w buf = take (len - 1) t"
    using p by (auto simp: printed_def st)
  have sz: "0 < len - w" using w(2) len by auto
  let ?k = "min (length x) (len - w - 1)"
  have tot: "w + ?k = min (length (t @ x)) (len - 1)"
    using w(2) len by (cases "length t \<le> len - 1") (auto simp: min_def)
  have ln: "length (take (len - w - 1) x @ [NUL]) = Suc ?k" by simp
  show ?thesis
  proof (cases "fits n len (t @ x)")
    case True
    then have ok: "\<not> length buf < w + length (take (len - w - 1) x @ [NUL])"
      unfolding ln fits_def using tot w(1) by simp
    let ?b = "take w buf @ (take (len - w - 1) x @ [NUL]) @ drop (w + length (take (len - w - 1) x @ [NUL])) buf"
    have run: "emit len x st = Inr (w + ?k, ?b)"
      using ok sz by (simp only: emit_def st split scnprintf_def write_at_def if_False rbind_Inr) simp
    have lw: "length (take w buf) = w" using w(1,2) True by (auto simp: fits_def)
    have tk: "take (min (length x) (len - Suc w)) x = take (len - Suc w) x"
      by (cases "length x \<le> len - Suc w") simp_all
    have "take (w + ?k) ?b = take w buf @ take (len - w - 1) x"
      using lw by (simp add: take_add tk)
    also have "\<dots> = take (len - 1) (t @ x)"
    proof (cases "length t \<le> len - 1")
      case True
      then show ?thesis using w(2,3) by simp
    next
      case False
      then show ?thesis using w(2,3) len by simp
    qed
    finally have "take (w + ?k) ?b = take (len - 1) (t @ x)" .
    moreover have "length ?b = n" using ok w(1) lw by simp
    ultimately have "printed n len (t @ x) (w + ?k, ?b)" unfolding printed_def fst_conv snd_conv using tot by blast
    with run True show ?thesis by auto
  next
    case False
    then have bad: "length buf < w + length (take (len - w - 1) x @ [NUL])"
      unfolding ln fits_def using tot w(1) by simp
    then have "emit len x st = Inl Fault"
      using sz by (simp only: emit_def st split scnprintf_def write_at_def if_True rbind_Inl) simp
    with False show ?thesis by simp
  qed
qed

lemma emit_all_printed:
  assumes len: "0 < len" and n: "0 < n"
  shows "printed n len t st \<Longrightarrow> fits n len t \<Longrightarrow>
    (if fits n len (t @ concat xs) then \<exists>st'. emit_all len xs st = Inr st' \<and> printed n len (t @ concat xs) st'
     else emit_all len xs st = Inl Fault)"
proof (induction xs arbitrary: t st)
  case Nil
  then show ?case by simp
next
  case (Cons x xs)
  note E = emit_printed [OF Cons.prems(1) len n, of x]
  show ?case
  proof (cases "fits n len (t @ x)")
    case True
    with E obtain st1 where 1: "emit len x st = Inr st1" "printed n len (t @ x) st1" by auto
    from Cons.IH [OF 1(2) True] 1(1) show ?thesis by (auto split: if_splits)
  next
    case False
    with E fits_prefix [of n len "t @ x" "concat xs"] show ?thesis by auto
  qed
qed

abbreviation slot_text :: "sv_store \<Rightarrow> addr option \<Rightarrow> string" where
  "slot_text h p \<equiv> (case p of None \<Rightarrow> [] | Some a \<Rightarrow> service_text (the (h a)))"

lemma scan_slots_printed:
  assumes len: "0 < len" and n: "0 < n"
  shows "printed n len t st \<Longrightarrow> fits n len t \<Longrightarrow> (\<And>a. Some a \<in> set ps \<Longrightarrow> h a \<noteq> None) \<Longrightarrow>
    (if fits n len (t @ concat (map (slot_text h) ps))
     then \<exists>st'. scan_slots h ps len st = Inr st' \<and> printed n len (t @ concat (map (slot_text h) ps)) st'
     else scan_slots h ps len st = Inl Fault)"
proof (induction ps arbitrary: t st)
  case Nil
  then show ?case by simp
next
  case (Cons p ps)
  show ?case
  proof (cases p)
    case None
    with Cons.IH [OF Cons.prems(1,2)] Cons.prems(3) show ?thesis by (auto split: if_splits)
  next
    case (Some a)
    with Cons.prems(3) obtain sv where sv: "h a = Some sv" by fastforce
    note E = emit_all_printed [OF len n Cons.prems(1,2), of "service_prints sv"]
    show ?thesis
    proof (cases "fits n len (t @ service_text sv)")
      case True
      with E obtain st1 where 1: "emit_all len (service_prints sv) st = Inr st1"
        "printed n len (t @ service_text sv) st1" by (auto simp: service_text_def)
      have al: "\<And>a. Some a \<in> set ps \<Longrightarrow> h a \<noteq> None" using Cons.prems(3) by auto
      from Cons.IH [OF 1(2) True al] 1(1) Some sv show ?thesis by (simp split: if_splits)
    next
      case False
      with E fits_prefix [of n len "t @ service_text sv" "concat (map (slot_text h) ps)"] Some sv
      show ?thesis by (auto simp: service_text_def)
    qed
  qed
qed

lemma scan_Service_eq:
  assumes inv: "kinv s" and len: "0 < len" and al: "vzalloc (len - 1) = Some buf" "buf \<noteq> []"
  shows "if fits (length buf) len (status_text s)
    then \<exists>text. scan_Service vzalloc s len = Inr (text, min (length (status_text s)) (len - 1) + 1) \<and>
           length text = length buf \<and>
           take (min (length (status_text s)) (len - 1) + 1) text = take (len - 1) (status_text s) @ [NUL]
    else scan_Service vzalloc s len = Inl Fault"
proof -
  let ?n = "length buf" and ?T = "status_text s"
  have n: "0 < ?n" using al(2) by simp
  have init: "printed ?n len [] (0, buf)" "fits ?n len []" using n by (simp_all add: printed_def fits_def)
  have alloc: "Some a \<in> set (slots s) \<Longrightarrow> sv_heap s a \<noteq> None" for a by (rule kinv_slots(3) [OF inv])
  have S: "if fits ?n len ?T
    then \<exists>st'. scan_slots (sv_heap s) (slots s) len (0, buf) = Inr st' \<and> printed ?n len ?T st'
    else scan_slots (sv_heap s) (slots s) len (0, buf) = Inl Fault"
    using scan_slots_printed [OF len n init, of "slots s" "sv_heap s"] alloc
    by (simp add: status_text_def split: if_splits)
  show ?thesis
  proof (cases "fits ?n len ?T")
    case True
    with S obtain w b where st: "scan_slots (sv_heap s) (slots s) len (0, buf) = Inr (w, b)"
      "length b = ?n" "w = min (length ?T) (len - 1)" "take w b = take (len - 1) ?T"
      by (auto simp: printed_def)
    have w: "w < length b" using True st by (simp add: fits_def)
    then have "write_at b w [NUL] = Inr (take w b @ [NUL] @ drop (w + 1) b)"
      by (simp add: write_at_def)
    then have "scan_Service vzalloc s len = Inr (take w b @ [NUL] @ drop (w + 1) b, w + 1)"
      using st(1) al(1) kinv_slots(1) [OF inv] by (simp add: scan_Service_def)
    moreover have "take (w + 1) (take w b @ [NUL] @ drop (w + 1) b) = take (len - 1) ?T @ [NUL]"
      unfolding st(4) [symmetric] using w by simp
    moreover have "length (take w b @ [NUL] @ drop (w + 1) b) = ?n" using w st(2) by simp
    ultimately show ?thesis using True st(3) by auto
  next
    case False
    with S al(1) kinv_slots(1) [OF inv] show ?thesis by (simp add: scan_Service_def)
  qed
qed

section \<open>How long the dump is\<close>

lemma length_concat_bounds:
  "(\<And>x. x \<in> set xs \<Longrightarrow> lo \<le> length (f x)) \<Longrightarrow> lo * length xs \<le> length (concat (map f xs))"
  "(\<And>x. x \<in> set xs \<Longrightarrow> length (f x) \<le> hi) \<Longrightarrow> length (concat (map f xs)) \<le> hi * length xs"
  by (induction xs) (auto simp: add_mono)

lemma service_text_length:
  "2337 \<le> length (service_text sv)"
  "svc_wf m i sv \<Longrightarrow> i < min_sys_TAG_Services \<Longrightarrow> \<forall>j < levelDeep. \<bar>waiters (levels sv) ! j\<bar> < 10 ^ 10 \<Longrightarrow>
     length (service_text sv) \<le> 3457"
proof -
  have eq: "length (service_text sv) = length (concat (map (\<lambda>j. concat (level_prints sv j)) [0..<levelDeep])) + 1"
  proof -
    have cc: "concat (concat (map f xs)) = concat (map (\<lambda>x. concat (f x)) xs)" for f :: "nat \<Rightarrow> string list" and xs
      by (induction xs) simp_all
    show ?thesis unfolding service_text_def service_prints_def concat_append cc by (simp add: newline_def)
  qed
  note lo = show_int_length(1)
  have "73 \<le> length (concat (level_prints sv j))" for j
    using lo [of "sint (sv_tag sv)"] lo [of "sint (uid_Creator sv)"] lo [of "sint (sv_key sv)"] lo [of "int j"]
      lo [of "waiters (levels sv) ! j"]
    by (simp add: level_prints_def newline_def)
  from length_concat_bounds(1) [of "[0..<levelDeep]" 73, OF this] eq
  show "2337 \<le> length (service_text sv)" by (simp add: levelDeep_def)
  assume wf: "svc_wf m i sv" and i: "i < min_sys_TAG_Services"
    and w: "\<forall>j < levelDeep. \<bar>waiters (levels sv) ! j\<bar> < 10 ^ 10"
  have word: "length (show_int (sint (x :: c_int))) \<le> 11" for x
    using sint_lt [of x] sint_ge [of x] show_int_length(3) [of 10 "sint x"] by simp
  have tag: "length (show_int (sint (sv_tag sv))) \<le> 3"
    using wf i show_int_length(2) [of "int i" 3] by (simp add: svc_wf_def min_sys_TAG_Services_def sint_of_nat_small)
  have wide: "length (show_int x) \<le> 11" if "\<bar>x\<bar> < 10 ^ 10" for x
    using that show_int_length(3) [of 10 x] by simp
  have "length (concat (level_prints sv j)) \<le> 108" if "j < levelDeep" for j
  proof -
    have "length (show_int (waiters (levels sv) ! j)) \<le> 11" by (rule wide) (use w that in blast)
    moreover have "length (show_int (int j)) \<le> 2"
      using that show_int_length(2) [of "int j" 2] by (simp add: levelDeep_def)
    ultimately show ?thesis
      using word [of "uid_Creator sv"] word [of "sv_key sv"] tag by (simp add: level_prints_def newline_def)
  qed
  with length_concat_bounds(2) [of "[0..<levelDeep]" "\<lambda>j. concat (level_prints sv j)" 108] eq
  show "length (service_text sv) \<le> 3457" by (simp add: levelDeep_def)
qed

lemma status_text_length:
  assumes inv: "kinv s"
  shows "2337 * used s \<le> length (status_text s)"
    and "(\<And>i sv j. svc_at s i = Some sv \<Longrightarrow> j < levelDeep \<Longrightarrow> \<bar>waiters (levels sv) ! j\<bar> < 10 ^ 10) \<Longrightarrow>
      length (status_text s) \<le> 3457 * used s"
proof -
  have lo: "2337 * length (filter (\<lambda>x. x \<noteq> None) ps) \<le> length (concat (map (slot_text h) ps))" for h ps
    by (induction ps) (auto simp: service_text_length(1) add_mono)
  have hi: "length (concat (map (slot_text h) ps)) \<le> 3457 * length (filter (\<lambda>x. x \<noteq> None) ps)"
    if "\<And>a. Some a \<in> set ps \<Longrightarrow> length (service_text (the (h a))) \<le> 3457" for h ps
    using that by (induction ps) (auto simp: add_mono split: option.split)
  show "2337 * used s \<le> length (status_text s)" unfolding used_def status_text_def by (rule lo)
  assume w: "\<And>i sv j. svc_at s i = Some sv \<Longrightarrow> j < levelDeep \<Longrightarrow> \<bar>waiters (levels sv) ! j\<bar> < 10 ^ 10"
  show "length (status_text s) \<le> 3457 * used s" unfolding used_def status_text_def
  proof (rule hi)
    fix a assume "Some a \<in> set (slots s)"
    then obtain i where "i < length (slots s)" "slots s ! i = Some a" by (auto simp: in_set_conv_nth)
    then have sl: "slot s i = Some a" by (simp add: slot_def)
    with kinv_slot [OF inv sl] obtain sv where sv: "sv_heap s a = Some sv" "svc_at s i = Some sv" by auto
    from service_text_length(2) [OF kinv_wf [OF inv sv(2)] slot_bound [OF inv sl]] w [OF sv(2)] sv(1)
    show "length (service_text (the (sv_heap s a))) \<le> 3457" by simp
  qed
qed

section \<open>Properties of the dump\<close>

text \<open>C32: With at most 23 services the dump is complete: \<^verbatim>\<open>scan_Service\<close> returns, terminated, the
  four prints of each of the 32 levels of each service in the order of the table, and the
  length it reports is that of the text with its terminator.\<close>

theorem dump_complete:
  assumes "kinv s" "used s \<le> 23"
    and "\<forall>i sv j. svc_at s i = Some sv \<longrightarrow> j < levelDeep \<longrightarrow> \<bar>waiters (levels sv) ! j\<bar> < 10 ^ 10"
    and "vzalloc (STATUS_SIZE_MAX - 1) = Some buf" "STATUS_SIZE_MAX - 1 \<le> length buf"
  shows "\<exists>text. scan_Service vzalloc s STATUS_SIZE_MAX = Inr (text, length (status_text s) + 1) \<and>
    take (length (status_text s) + 1) text = status_text s @ [NUL]"
proof -
  have "length (status_text s) \<le> 3457 * used s"
    by (rule status_text_length(2) [OF assms(1)]) (use assms(3) in blast)
  then have len: "length (status_text s) < STATUS_SIZE_MAX - 1" using assms(2) by (simp add: STATUS_SIZE_MAX_def)
  then have min: "min (length (status_text s)) (STATUS_SIZE_MAX - 1) = length (status_text s)" by simp
  have "buf \<noteq> []" using assms(5) by (auto simp: STATUS_SIZE_MAX_def)
  moreover have "fits (length buf) STATUS_SIZE_MAX (status_text s)"
    unfolding fits_def min using len assms(5) by simp
  moreover have "0 < STATUS_SIZE_MAX" by (simp add: STATUS_SIZE_MAX_def)
  ultimately show ?thesis
    using scan_Service_eq [where vzalloc = vzalloc, OF assms(1) _ assms(4)] len unfolding min by auto
qed

definition exact :: "nat \<Rightarrow> string option" where
  "exact n = Some (replicate n NUL)"

lemma dump_complete_witness:
  "\<exists>text. scan_Service exact (crowd 2) STATUS_SIZE_MAX = Inr (text, length (status_text (crowd 2)) + 1) \<and>
    take (length (status_text (crowd 2)) + 1) text = status_text (crowd 2) @ [NUL]"
proof (rule dump_complete)
  show "kinv (crowd 2)" "used (crowd 2) \<le> 23" by (simp_all add: crowd min_sys_TAG_Services_def)
  show "exact (STATUS_SIZE_MAX - 1) = Some (replicate (STATUS_SIZE_MAX - 1) NUL)" by (simp add: exact_def)
  show "\<forall>i sv j. svc_at (crowd 2) i = Some sv \<longrightarrow> j < levelDeep \<longrightarrow> \<bar>waiters (levels sv) ! j\<bar> < 10 ^ 10"
    by (auto simp: crowd min_sys_TAG_Services_def crowd_service_def rcu_list_init_def split: if_splits)
qed simp

text \<open>C33: The buffer is too small for the table: with 36 services or more the dump is never
  complete.  If the buffer has the \<^verbatim>\<open>*len - 1\<close> bytes asked for, the prints write past its end; if
  the allocator rounds it up, the text is cut after 81919 characters and its terminator takes
  the byte that was not asked for.\<close>

theorem dump_overflows:
  assumes "kinv s" "36 \<le> used s" "vzalloc (STATUS_SIZE_MAX - 1) = Some buf" "STATUS_SIZE_MAX - 1 \<le> length buf"
  shows "STATUS_SIZE_MAX \<le> length (status_text s) \<and>
    (if length buf = STATUS_SIZE_MAX - 1 then scan_Service vzalloc s STATUS_SIZE_MAX = Inl Fault
     else \<exists>text. scan_Service vzalloc s STATUS_SIZE_MAX = Inr (text, STATUS_SIZE_MAX) \<and>
            take STATUS_SIZE_MAX text = take (STATUS_SIZE_MAX - 1) (status_text s) @ [NUL])"
proof -
  have len: "STATUS_SIZE_MAX \<le> length (status_text s)"
    using status_text_length(1) [OF assms(1)] assms(2) by (simp add: STATUS_SIZE_MAX_def)
  then have min: "min (length (status_text s)) (STATUS_SIZE_MAX - 1) = STATUS_SIZE_MAX - 1" by simp
  have pos: "0 < STATUS_SIZE_MAX" "buf \<noteq> []" using assms(4) by (auto simp: STATUS_SIZE_MAX_def)
  have suc: "STATUS_SIZE_MAX - 1 + 1 = STATUS_SIZE_MAX" using pos by simp
  have fit: "fits (length buf) STATUS_SIZE_MAX (status_text s) \<longleftrightarrow> length buf \<noteq> STATUS_SIZE_MAX - 1"
    unfolding fits_def min using assms(4) by auto
  note S = scan_Service_eq [where vzalloc = vzalloc, OF assms(1) pos(1) assms(3) pos(2)]
  show ?thesis using len S unfolding min suc fit by auto
qed

lemma dump_overflows_witness:
  "scan_Service exact (crowd 40) STATUS_SIZE_MAX = Inl Fault"
proof -
  have "exact (STATUS_SIZE_MAX - 1) = Some (replicate (STATUS_SIZE_MAX - 1) NUL)" by (simp add: exact_def)
  with dump_overflows [of "crowd 40" exact] show ?thesis
    by (simp add: crowd min_sys_TAG_Services_def)
qed

section \<open>Reading the device\<close>

fun read_chunks ::
  "copy_fn \<Rightarrow> status_store \<Rightarrow> open_file \<Rightarrow> size_t list \<Rightarrow> (string \<times> open_file) res" where
  "read_chunks cto h f [] = Inr ([], f)"
| "read_chunks cto h f (k # ks) =
     rbind (dev_read cto h f k) (\<lambda>(n, out, f'). rbind (read_chunks cto h f' ks) (\<lambda>(rest, f2). Inr (out @ rest, f2)))"

lemma sint_small:
  assumes "unat (x :: 64 word) < 2 ^ 63"
  shows "sint x = int (unat x)"
proof -
  have "int (unat x) < 2 ^ 63" using assms of_nat_less_iff [of "unat x" "2 ^ 63", where 'a = int] by simp
  then have "signed_take_bit 63 (int (unat x)) = int (unat x)"
    by (intro signed_take_bit_int_eq_self) linarith+
  then show ?thesis unfolding sint_uint by simp
qed

lemma min_chain:
  fixes k p z S :: nat
  assumes "p \<le> z"
  shows "min k (z - p) + min S (z - (p + min k (z - p))) = min (k + S) (z - p)"
    and "min (p + min k (z - p) + S) z = min (p + (k + S)) z"
  using assms by (auto simp: min_def)

text \<open>One read from a position inside or at the end of the text.\<close>

lemma dev_read_step:
  assumes cto: "copy_law cto" "copy_fair cto" and h: "h (private_data f) = Some dev"
    and sz: "unat (st_size dev) \<le> length (st_message dev)" "unat (st_size dev) < 2 ^ 63"
    and pos: "f_pos f \<le> st_size dev" and k: "unat k < 2 ^ 63"
  shows "\<exists>n. n = min k (st_size dev - f_pos f) \<and>
    dev_read cto h f k = Inr (n, take (unat n) (drop (unat (f_pos f)) (st_message dev)), f\<lparr>f_pos := f_pos f + n\<rparr>)"
proof -
  let ?p = "unat (f_pos f)" and ?z = "unat (st_size dev)"
  have p: "?p \<le> ?z" using pos by (simp add: word_le_nat_alt)
  have s: "sint (f_pos f) = int ?p" "sint (st_size dev) = int ?z" using p sz(2) by (simp_all add: sint_small)
  have diff: "unat (st_size dev - f_pos f) = ?z - ?p" by (rule unat_sub [OF pos])
  have sum: "unat (f_pos f + k) = ?p + unat k" using p sz(2) k by (intro unat_add_lem [THEN iffD1]) simp
  show ?thesis
  proof (cases "?z \<le> ?p")
    case True
    then have eq: "f_pos f = st_size dev" using p by (metis le_antisym word_unat_eq_iff)
    then have "min k (st_size dev - f_pos f) = 0" by simp
    then show ?thesis using h eq by (simp add: dev_read_def)
  next
    case False
    let ?n = "if f_pos f + k > st_size dev then st_size dev - f_pos f else k"
    have n: "?n = min k (st_size dev - f_pos f)"
      using sum diff p by (auto simp: min_def word_less_nat_alt word_le_nat_alt)
    have "unat ?n \<le> ?z - ?p" using diff sum p by (auto simp: word_less_nat_alt)
    then have "\<not> length (drop ?p (st_message dev)) < unat ?n" using sz(1) by simp
    moreover have "\<not> sint (f_pos f) \<ge> sint (st_size dev)" using False unfolding s by (simp only: of_nat_le_iff not_False_eq_True)
    ultimately show ?thesis using h
      unfolding n [symmetric] by (simp add: dev_read_def Let_def copy_loop_all [OF cto])
  qed
qed

lemma read_chunks_from:
  assumes cto: "copy_law cto" "copy_fair cto"
    and sz: "unat (st_size dev) \<le> length (st_message dev)" "unat (st_size dev) < 2 ^ 63"
  shows "h (private_data f) = Some dev \<Longrightarrow> f_pos f \<le> st_size dev \<Longrightarrow> \<forall>k \<in> set ks. unat k < 2 ^ 63 \<Longrightarrow>
    \<exists>f'. read_chunks cto h f ks =
      Inr (take (min (sum_list (map unat ks)) (unat (st_size dev) - unat (f_pos f)))
             (drop (unat (f_pos f)) (st_message dev)), f') \<and>
    unat (f_pos f') = min (unat (f_pos f) + sum_list (map unat ks)) (unat (st_size dev))"
proof (induction ks arbitrary: f)
  case Nil
  then show ?case by (simp add: word_le_nat_alt)
next
  case (Cons k ks)
  from dev_read_step [where h = h and k = k, OF cto Cons.prems(1) sz Cons.prems(2)] Cons.prems(3)
  obtain n where n: "n = min k (st_size dev - f_pos f)"
    "dev_read cto h f k = Inr (n, take (unat n) (drop (unat (f_pos f)) (st_message dev)), f\<lparr>f_pos := f_pos f + n\<rparr>)"
    by auto
  have diff: "unat (st_size dev - f_pos f) = (unat (st_size dev)) - unat (f_pos f)" by (rule unat_sub [OF Cons.prems(2)])
  have un: "unat n = min (unat k) ((unat (st_size dev)) - unat (f_pos f))"
    unfolding n(1) min_def word_le_nat_alt by (simp add: diff)
  have pz: "unat (f_pos f) \<le> (unat (st_size dev))" using Cons.prems(2) by (simp add: word_le_nat_alt)
  have pos: "unat (f_pos f + n) = unat (f_pos f) + unat n"
    using un pz sz(2) by (intro unat_add_lem [THEN iffD1]) simp
  have le: "f_pos f + n \<le> st_size dev" using pos un pz by (simp add: word_le_nat_alt)
  from Cons.IH [of "f\<lparr>f_pos := f_pos f + n\<rparr>"] Cons.prems(1,3) le obtain f' where
    f': "read_chunks cto h (f\<lparr>f_pos := f_pos f + n\<rparr>) ks =
      Inr (take (min (sum_list (map unat ks)) ((unat (st_size dev)) - unat (f_pos f + n))) (drop (unat (f_pos f + n)) (st_message dev)), f')"
    "unat (f_pos f') = min (unat (f_pos f + n) + sum_list (map unat ks)) (unat (st_size dev))" by auto
  have cat: "take (unat n) (drop (unat (f_pos f)) xs) @
      take (min (sum_list (map unat ks)) ((unat (st_size dev)) - unat (f_pos f + n))) (drop (unat (f_pos f + n)) xs) =
      take (min (unat k + sum_list (map unat ks)) ((unat (st_size dev)) - unat (f_pos f))) (drop (unat (f_pos f)) xs)" for xs :: string
  proof -
    have "unat n + min (sum_list (map unat ks)) ((unat (st_size dev)) - unat (f_pos f + n)) =
        min (unat k + sum_list (map unat ks)) ((unat (st_size dev)) - unat (f_pos f))"
      unfolding pos un by (rule min_chain(1) [OF pz])
    then show ?thesis unfolding pos by (simp add: take_add [symmetric] add.commute flip: drop_drop)
  qed
  have "unat (f_pos f') = min (unat (f_pos f) + sum_list (map unat (k # ks))) (unat (st_size dev))"
    unfolding f'(2) pos un using min_chain(2) [OF pz] by simp
  with n(2) f'(1) cat show ?case by simp
qed

text \<open>Reading the device in pieces of any sizes gives the text of the dump from the start, piece
  after piece, until it is exhausted and then nothing more: no byte is lost, repeated or taken
  from beyond the dump.\<close>

theorem read_chunks_text:
  assumes "copy_law cto" "copy_fair cto" "h (private_data f) = Some dev" "f_pos f = 0"
    and "unat (st_size dev) \<le> length (st_message dev)" "unat (st_size dev) < 2 ^ 63"
    and "\<forall>k \<in> set ks. unat k < 2 ^ 63"
  shows "\<exists>f'. read_chunks cto h f ks =
      Inr (take (min (sum_list (map unat ks)) (unat (st_size dev))) (st_message dev), f') \<and>
    unat (f_pos f') = min (sum_list (map unat ks)) (unat (st_size dev))"
  using read_chunks_from [where h = h and f = f and ks = ks, OF assms(1,2,5,6,3) _ assms(7)] assms(4) by simp

lemma read_chunks_text_witness:
  "\<exists>f'. read_chunks (\<lambda>_ _. 0) [4 \<mapsto> \<lparr>st_message = ''hello'', st_size = 5\<rparr>] \<lparr>private_data = 4, f_pos = 0\<rparr> [2, 2, 9, 9] =
    Inr (''hello'', f')"
  using read_chunks_text [OF copy_all_fn, of "[4 \<mapsto> \<lparr>st_message = ''hello'', st_size = 5\<rparr>]"
      "\<lparr>private_data = 4, f_pos = 0\<rparr>" "\<lparr>st_message = ''hello'', st_size = 5\<rparr>" "[2, 2, 9, 9]"]
  by auto

end
