(* ===== verification/PageWalk.thy ===== *)
theory PageWalk
  imports Prelude
begin

text \<open>
  \<^verbatim>\<open>sysCall_Discovery/vtpmo/vtpmo.c\<close>: the oracle that walks the page tables of x86-64 by hand
  to tell whether a virtual page is mapped.  The hardware is the record \<open>mmu\<close>: the register
  CR3 and \<open>pt_entry t i\<close>, entry number \<open>i\<close> of the table at physical address \<open>t\<close>, which the
  code reads through \<^verbatim>\<open>phys_to_virt\<close> or \<^verbatim>\<open>__va\<close>; \<open>pt_entry\<close> is total, that is, every physical
  address read is taken to be in the kernel's direct mapping.  \<open>mmu_walk\<close> is the walk the processor
  does for a canonical address, as its manual states it; the lemmas compare the two.
\<close>

unbundle bit_operations_syntax

record mmu =
  cr3_reg :: c_ulong
  pt_entry :: "c_ulong \<Rightarrow> c_ulong \<Rightarrow> c_ulong"

section \<open>The oracle of the source\<close>

definition ADDRESS_MASK :: c_ulong where "ADDRESS_MASK = 0xfffffffffffff000"
definition PT_ADDRESS_MASK :: c_ulong where "PT_ADDRESS_MASK = 0x7ffffffffffff000"
definition VALID :: c_ulong where "VALID = 0x1"
definition LH_MAPPING :: c_ulong where "LH_MAPPING = 0x80"
definition NO_MAP :: c_int where "NO_MAP = - 1"

text \<open>The address is shifted as a \<^verbatim>\<open>long long\<close>, so the shift copies its sign bit.\<close>

definition PML4 :: "c_ulong \<Rightarrow> c_ulong" where "PML4 v = signed_drop_bit 39 v AND 0x1ff"
definition PDP :: "c_ulong \<Rightarrow> c_ulong" where "PDP v = signed_drop_bit 30 v AND 0x1ff"
definition PDE :: "c_ulong \<Rightarrow> c_ulong" where "PDE v = signed_drop_bit 21 v AND 0x1ff"
definition PTE :: "c_ulong \<Rightarrow> c_ulong" where "PTE v = signed_drop_bit 12 v AND 0x1ff"

text \<open>\<^verbatim>\<open>frame_number = frame_addr >> 12\<close> stores an \<^verbatim>\<open>unsigned long\<close> into an \<^verbatim>\<open>int\<close>.\<close>

definition sys_vtpmo :: "('a) mmu_scheme \<Rightarrow> c_ulong \<Rightarrow> c_int" where
  "sys_vtpmo m vaddr =
     (let pml4 = cr3_reg m AND ADDRESS_MASK; e4 = pt_entry m pml4 (PML4 vaddr)
      in if e4 AND VALID = 0 then NO_MAP
      else let pdp = e4 AND PT_ADDRESS_MASK; e3 = pt_entry m pdp (PDP vaddr)
      in if e3 AND VALID = 0 then NO_MAP
      else let pde = e3 AND PT_ADDRESS_MASK; e2 = pt_entry m pde (PDE vaddr)
      in if e2 AND VALID = 0 then NO_MAP
      else if e2 AND LH_MAPPING \<noteq> 0 then
        let frame_addr = e2 AND PT_ADDRESS_MASK in ucast (drop_bit 12 frame_addr)
      else let pte = e2 AND PT_ADDRESS_MASK; e1 = pt_entry m pte (PTE vaddr)
      in if e1 AND VALID = 0 then NO_MAP
      else let frame_addr = e1 AND PT_ADDRESS_MASK in ucast (drop_bit 12 frame_addr))"

section \<open>The walk of the processor\<close>

text \<open>Four levels, nine bits of the address each.  An entry holds a physical address in bits
  12 to 51.  Bit 7 ends the walk at level 2 (a page of 1 GB) and at level 1 (2 MB).\<close>

definition table_index :: "nat \<Rightarrow> c_ulong \<Rightarrow> c_ulong" where
  "table_index l v = drop_bit (12 + 9 * l) v AND 0x1ff"

definition frame_bits :: "c_ulong \<Rightarrow> c_ulong" where
  "frame_bits e = e AND 0xffffffffff000"

fun walk_from :: "('a) mmu_scheme \<Rightarrow> nat \<Rightarrow> c_ulong \<Rightarrow> c_ulong \<Rightarrow> (nat \<times> c_ulong) option" where
  "walk_from m 0 t v =
     (let e = pt_entry m t (table_index 0 v)
      in if bit e 0 then Some (0, e) else None)"
| "walk_from m (Suc l) t v =
     (let e = pt_entry m t (table_index (Suc l) v)
      in if \<not> bit e 0 then None
         else if l < 2 \<and> bit e 7 then Some (Suc l, e)
         else walk_from m l (frame_bits e) v)"

definition mmu_walk :: "('a) mmu_scheme \<Rightarrow> c_ulong \<Rightarrow> (nat \<times> c_ulong) option" where
  "mmu_walk m v = walk_from m 3 (frame_bits (cr3_reg m)) v"

definition mapped :: "('a) mmu_scheme \<Rightarrow> c_ulong \<Rightarrow> bool" where
  "mapped m v \<longleftrightarrow> mmu_walk m v \<noteq> None"

text \<open>\<open>entry_at m l v\<close> is the entry of level \<open>l\<close> on the path of \<open>v\<close> when no large page cuts it short.\<close>

fun entry_above :: "('a) mmu_scheme \<Rightarrow> nat \<Rightarrow> c_ulong \<Rightarrow> c_ulong" where
  "entry_above m 0 v = pt_entry m (frame_bits (cr3_reg m)) (table_index 3 v)"
| "entry_above m (Suc d) v = pt_entry m (frame_bits (entry_above m d v)) (table_index (2 - d) v)"

definition entry_at :: "('a) mmu_scheme \<Rightarrow> nat \<Rightarrow> c_ulong \<Rightarrow> c_ulong" where
  "entry_at m l v = entry_above m (3 - l) v"

text \<open>Bits 52 to 62 of an entry, which the processor ignores and \<open>PT_ADDRESS_MASK\<close> keeps.\<close>

definition clean :: "c_ulong \<Rightarrow> bool" where
  "clean e \<longleftrightarrow> e AND 0x7ff0000000000000 = 0"

text \<open>They are clear in the entries that lead the walk of \<open>v\<close> to its next table (no demand is made
  on an entry that ends it), and so are the reserved bits 52 to 63 of CR3.\<close>

definition clean_path :: "('a) mmu_scheme \<Rightarrow> c_ulong \<Rightarrow> bool" where
  "clean_path m v \<longleftrightarrow> cr3_reg m AND 0xfff0000000000000 = 0 \<and>
     (bit (entry_at m 3 v) 0 \<longrightarrow> clean (entry_at m 3 v) \<and>
       (bit (entry_at m 2 v) 0 \<and> \<not> bit (entry_at m 2 v) 7 \<longrightarrow> clean (entry_at m 2 v) \<and>
         (bit (entry_at m 1 v) 0 \<and> \<not> bit (entry_at m 1 v) 7 \<longrightarrow> clean (entry_at m 1 v))))"

definition clean_tables :: "('a) mmu_scheme \<Rightarrow> bool" where
  "clean_tables m \<longleftrightarrow> (\<forall>v. clean_path m v)"

lemma clean_tablesI:
  "cr3_reg m AND 0xfff0000000000000 = 0 \<Longrightarrow> (\<And>t i. clean (pt_entry m t i)) \<Longrightarrow> clean_tables m"
proof -
  assume c: "cr3_reg m AND 0xfff0000000000000 = 0" "\<And>t i. clean (pt_entry m t i)"
  then have "clean (entry_above m d v)" for d v by (cases d) simp_all
  then have "clean (entry_at m l v)" for l v by (simp only: entry_at_def)
  with c(1) show ?thesis by (simp only: clean_tables_def clean_path_def) blast
qed

section \<open>How the two read an address\<close>

lemma mask_1ff: "(0x1ff :: c_ulong) = mask 9"
  by (simp add: mask_eq_exp_minus_1)

lemma and_1ff_shift: "signed_drop_bit n v AND 0x1ff = drop_bit n v AND (0x1ff :: c_ulong)"
  if "n + 9 < 64"
  unfolding mask_1ff using that
  by (intro bit_word_eqI) (auto simp: bit_and_iff bit_signed_drop_bit_iff bit_drop_bit_eq bit_mask_iff)

lemma index_macros:
  "PML4 v = table_index 3 v" "PDP v = table_index 2 v"
  "PDE v = table_index 1 v" "PTE v = table_index 0 v"
  by (simp_all add: PML4_def PDP_def PDE_def PTE_def table_index_def and_1ff_shift)

lemma VALID_bit: "e AND VALID = 0 \<longleftrightarrow> \<not> bit e 0"
  by (simp add: VALID_def and_one_eq bit_0 odd_iff_mod_2_eq_one)

lemma and_single_bit: "e AND push_bit n 1 = 0 \<longleftrightarrow> \<not> bit e n" if "n < 64" for e :: c_ulong
  by (simp add: bit_iff_and_push_bit_not_eq_0 push_bit_of_1)

lemma LH_bit: "e AND LH_MAPPING = 0 \<longleftrightarrow> \<not> bit e 7"
proof -
  have "LH_MAPPING = push_bit 7 1" by (simp add: LH_MAPPING_def push_bit_eq_mult)
  then show ?thesis by (rule ssubst) (rule and_single_bit, simp)
qed

lemma and_or_mask:
  fixes e :: c_ulong
  shows "e AND a = 0 \<Longrightarrow> e AND (a OR b) = e AND b"
  by (simp add: bit.conj_disj_distrib)

lemma frame_bits_clean:
  "clean e \<Longrightarrow> e AND PT_ADDRESS_MASK = frame_bits e"
  "e AND 0xfff0000000000000 = 0 \<Longrightarrow> e AND ADDRESS_MASK = frame_bits e"
  using and_or_mask [of e "0x7ff0000000000000" "0xffffffffff000"]
    and_or_mask [of e "0xfff0000000000000" "0xffffffffff000"]
  by (simp_all add: clean_def frame_bits_def PT_ADDRESS_MASK_def ADDRESS_MASK_def)

text \<open>The number of the frame an entry leads to, cut to 32 bits; the cut drops the bits that the
  oracle's mask keeps and the processor ignores.\<close>

definition frame_of :: "c_ulong \<Rightarrow> c_int" where
  "frame_of e = ucast (drop_bit 12 (frame_bits e))"

lemma frame_masks:
  "(0xffffffffff000 :: c_ulong) = push_bit 12 (mask 40)" "PT_ADDRESS_MASK = push_bit 12 (mask 51)"
  by (simp_all add: PT_ADDRESS_MASK_def mask_eq_exp_minus_1 push_bit_eq_mult)

lemma frame_of_cut: "ucast (drop_bit 12 (e AND PT_ADDRESS_MASK)) = frame_of e"
  unfolding frame_of_def frame_bits_def frame_masks
  by (intro bit_word_eqI)
    (auto simp: bit_ucast_iff bit_drop_bit_eq bit_and_iff bit_push_bit_iff bit_mask_iff dest: bit_imp_le_length)

section \<open>The oracle against the processor\<close>

text \<open>The walk with its levels as the numbers they are.\<close>

lemma walk_from_numeral:
  "walk_from m 3 t v =
     (let e = pt_entry m t (table_index 3 v)
      in if \<not> bit e 0 then None else walk_from m 2 (frame_bits e) v)"
  "walk_from m 2 t v =
     (let e = pt_entry m t (table_index 2 v)
      in if \<not> bit e 0 then None
         else if bit e 7 then Some (2, e) else walk_from m (Suc 0) (frame_bits e) v)"
  by (simp_all add: Let_def eval_nat_numeral)

text \<open>Whether the path of \<open>v\<close> meets a page of 1 GB, which the oracle does not know of.\<close>

definition huge_path :: "('a) mmu_scheme \<Rightarrow> c_ulong \<Rightarrow> bool" where
  "huge_path m v \<longleftrightarrow> bit (entry_at m 3 v) 0 \<and> bit (entry_at m 2 v) 0 \<and> bit (entry_at m 2 v) 7"

lemma entry_at_simps:
  "entry_at m 3 v = pt_entry m (frame_bits (cr3_reg m)) (table_index 3 v)"
  "entry_at m 2 v = pt_entry m (frame_bits (entry_at m 3 v)) (table_index 2 v)"
  "entry_at m (Suc 0) v = pt_entry m (frame_bits (entry_at m 2 v)) (table_index (Suc 0) v)"
  "entry_at m 0 v = pt_entry m (frame_bits (entry_at m (Suc 0) v)) (table_index 0 v)"
  by (simp_all add: entry_at_def eval_nat_numeral)

lemma sys_vtpmo_path:
  assumes "clean_path m v" "\<not> huge_path m v \<or> clean (entry_at m 2 v) \<and> (bit (entry_at m 1 v) 0 \<longrightarrow> bit (entry_at m 1 v) 7)"
  shows "sys_vtpmo m v =
    (if \<not> bit (entry_at m 3 v) 0 \<or> \<not> bit (entry_at m 2 v) 0 \<or> \<not> bit (entry_at m 1 v) 0 then NO_MAP
     else if bit (entry_at m 1 v) 7 then frame_of (entry_at m 1 v)
     else if bit (entry_at m 0 v) 0 then frame_of (entry_at m 0 v) else NO_MAP)"
proof -
  let ?e1 = "entry_at m (Suc 0) v" and ?e2 = "entry_at m 2 v" and ?e3 = "entry_at m 3 v"
  have c: "cr3_reg m AND ADDRESS_MASK = frame_bits (cr3_reg m)"
    using assms(1) frame_bits_clean(2) unfolding clean_path_def by blast
  have f: "bit ?e3 0 \<Longrightarrow> ?e3 AND PT_ADDRESS_MASK = frame_bits ?e3"
    "bit ?e3 0 \<Longrightarrow> bit ?e2 0 \<Longrightarrow> ?e2 AND PT_ADDRESS_MASK = frame_bits ?e2"
    "bit ?e3 0 \<Longrightarrow> bit ?e2 0 \<Longrightarrow> bit ?e1 0 \<Longrightarrow> \<not> bit ?e1 7 \<Longrightarrow> ?e1 AND PT_ADDRESS_MASK = frame_bits ?e1"
    using assms frame_bits_clean(1) unfolding clean_path_def huge_path_def One_nat_def by blast+
  show ?thesis
    by (simp add: sys_vtpmo_def Let_def index_macros VALID_bit LH_bit frame_of_cut [unfolded drop_bit_and] c f entry_at_simps [symmetric])
qed

lemma mmu_walk_path:
  "mmu_walk m v =
    (if \<not> bit (entry_at m 3 v) 0 \<or> \<not> bit (entry_at m 2 v) 0 then None
     else if bit (entry_at m 2 v) 7 then Some (2, entry_at m 2 v)
     else if \<not> bit (entry_at m 1 v) 0 then None
     else if bit (entry_at m 1 v) 7 then Some (1, entry_at m 1 v)
     else if bit (entry_at m 0 v) 0 then Some (0, entry_at m 0 v) else None)"
  by (simp add: mmu_walk_def Let_def entry_at_simps walk_from_numeral)

lemma frame_of_NO_MAP: "frame_of e = NO_MAP \<longleftrightarrow> drop_bit 12 (frame_bits e) AND 0xffffffff = 0xffffffff"
proof -
  let ?w = "drop_bit 12 (frame_bits e)"
  have "frame_of e = NO_MAP \<longleftrightarrow> take_bit 32 (uint ?w) = 0xffffffff"
    by (simp add: frame_of_def NO_MAP_def word_uint_eq_iff unsigned_ucast_eq
        unsigned_minus_1_eq_mask mask_eq_exp_minus_1)
  also have "\<dots> \<longleftrightarrow> uint (take_bit 32 ?w) = uint (0xffffffff :: c_ulong)"
    by (simp add: unsigned_take_bit_eq)
  also have "\<dots> \<longleftrightarrow> take_bit 32 ?w = 0xffffffff"
    by (rule word_uint_eq_iff [symmetric])
  also have "\<dots> \<longleftrightarrow> ?w AND 0xffffffff = 0xffffffff"
    by (simp add: take_bit_eq_mask mask_eq_exp_minus_1)
  finally show ?thesis .
qed

text \<open>C34: The hand-written page walk agrees with the walk of the processor on an address whose path
  meets no page of 1 GB and whose entries that lead on to another table (with CR3) have bits 52
  to 62 clear: it answers NO_MAP where the processor faults, and otherwise the number of the frame
  in the entry the processor ends at, cut to an \<^verbatim>\<open>int\<close>.  The second condition is needed because
  \<open>PT_ADDRESS_MASK\<close> keeps these bits, which the processor ignores: a directory whose entry has one of
  them set makes the oracle read another table.\<close>

theorem vtpmo_is_the_mmu:
  assumes "clean_path m v" and "\<not> huge_path m v"
  shows "sys_vtpmo m v = (case mmu_walk m v of None \<Rightarrow> NO_MAP | Some (_, e) \<Rightarrow> frame_of e)"
  using assms(2) by (simp add: sys_vtpmo_path [OF assms(1)] mmu_walk_path huge_path_def)

text \<open>One page of 4 KB, number 5, is mapped by the table at \<open>0x4000\<close>; its entry has bit 52 set.\<close>

definition demo_mmu :: mmu where
  "demo_mmu = \<lparr>cr3_reg = 0x1000, pt_entry = (\<lambda>t i.
     if t = 0x1000 then 0x2003 else if t = 0x2000 then 0x3003 else if t = 0x3000 then 0x4003
     else if t = 0x4000 \<and> i = 5 then 0x8010000000abc003 else 0)\<rparr>"

lemma demo_mmu_entries:
  "entry_at demo_mmu 3 v = 0x2003" "entry_at demo_mmu 2 v = 0x3003" "entry_at demo_mmu (Suc 0) v = 0x4003"
  "entry_at demo_mmu 0 v = (if table_index 0 v = 5 then 0x8010000000abc003 else 0)"
  by (simp_all add: entry_at_simps demo_mmu_def frame_bits_def)

theorem vtpmo_is_the_mmu_witness:
  "sys_vtpmo demo_mmu 0x5008 = 0xabc \<and> mmu_walk demo_mmu 0x5008 = Some (0, 0x8010000000abc003) \<and>
   sys_vtpmo demo_mmu 0x6008 = NO_MAP \<and> mmu_walk demo_mmu 0x6008 = None"
proof -
  have c: "clean_path demo_mmu v" "\<not> huge_path demo_mmu v" for v
    by (simp_all add: clean_path_def clean_def huge_path_def demo_mmu_entries) (simp add: demo_mmu_def)
  have w: "mmu_walk demo_mmu 0x5008 = Some (0, 0x8010000000abc003)" "mmu_walk demo_mmu 0x6008 = None"
    by (simp_all add: mmu_walk_path demo_mmu_entries table_index_def)
  show ?thesis
    using vtpmo_is_the_mmu [OF c [of "0x5008"]] vtpmo_is_the_mmu [OF c [of "0x6008"]] w
    by (simp add: frame_of_def frame_bits_def)
qed

text \<open>Where an entry that leads on has such a bit, the oracle goes astray: here bit 52 of the entry for
  all addresses, and the page the processor maps is reported as unmapped.\<close>

definition tagged_mmu :: mmu where
  "tagged_mmu = demo_mmu\<lparr>pt_entry := (\<lambda>t i. if t = 0x1000 then 0x10000000002003 else pt_entry demo_mmu t i)\<rparr>"

lemma vtpmo_misses_tagged: "mapped tagged_mmu 0x5008 \<and> sys_vtpmo tagged_mmu 0x5008 = NO_MAP"
proof -
  have "entry_at tagged_mmu 3 v = 0x10000000002003" "entry_at tagged_mmu 2 v = 0x3003"
    "entry_at tagged_mmu (Suc 0) v = 0x4003"
    "entry_at tagged_mmu 0 v = (if table_index 0 v = 5 then 0x8010000000abc003 else 0)" for v
    by (simp_all add: entry_at_simps tagged_mmu_def demo_mmu_def frame_bits_def)
  moreover have "sys_vtpmo tagged_mmu 0x5008 = NO_MAP"
    by (simp add: sys_vtpmo_def tagged_mmu_def demo_mmu_def Let_def ADDRESS_MASK_def PT_ADDRESS_MASK_def VALID_def)
  ultimately show ?thesis by (simp add: mapped_def mmu_walk_path table_index_def)
qed

text \<open>A positive answer is always right: the oracle never reports an unmapped page as mapped.\<close>

lemma vtpmo_sound:
  assumes "clean_path m v" and "sys_vtpmo m v \<noteq> NO_MAP"
  shows "mapped m v"
proof (cases "huge_path m v")
  case True
  then show ?thesis by (simp add: mapped_def mmu_walk_path huge_path_def)
next
  case False
  with assms show ?thesis unfolding mapped_def
    by (simp add: sys_vtpmo_path mmu_walk_path split: if_splits)
qed

text \<open>It errs the other way on a page of 1 GB whose frame, read as a page directory, has no
  valid entry, and on the frame whose number ends in 32 ones.\<close>

lemma vtpmo_misses_huge:
  assumes "clean_path m v" "clean (entry_at m 2 v)" and "huge_path m v" and "\<not> bit (entry_at m (Suc 0) v) 0"
  shows "mapped m v \<and> sys_vtpmo m v = NO_MAP"
  using assms unfolding mapped_def
  by (simp add: sys_vtpmo_path mmu_walk_path huge_path_def)

text \<open>The answer depends on the page alone.\<close>

lemma table_index_page: "table_index l (v AND ADDRESS_MASK) = table_index l v"
proof -
  have m: "ADDRESS_MASK = NOT (mask 12)"
    by (simp add: ADDRESS_MASK_def mask_eq_exp_minus_1)
  show ?thesis unfolding table_index_def m
    by (intro bit_word_eqI) (auto simp: bit_and_iff bit_drop_bit_eq bit_not_iff bit_mask_iff
        dest: bit_imp_le_length)
qed

lemma sys_vtpmo_page: "sys_vtpmo m (v AND ADDRESS_MASK) = sys_vtpmo m v"
  unfolding sys_vtpmo_def index_macros table_index_page by (rule refl)

lemma walk_from_page: "walk_from m l t (v AND ADDRESS_MASK) = walk_from m l t v"
  by (induction m l t v rule: walk_from.induct) (simp_all add: table_index_page Let_def)

lemma mapped_page: "mapped m (v AND ADDRESS_MASK) = mapped m v"
  by (simp add: mapped_def mmu_walk_def walk_from_page)

end
