(* ===== verification/SyscallTable.thy ===== *)
theory SyscallTable
  imports PageWalk
begin

text \<open>
  \<^verbatim>\<open>sysCall_Discovery/sysCall_Discovery.c\<close>: the search of kernel memory for the system call
  table, the choice of free entries, and the two operations that write the table.

  \<open>sysc\<close> extends the page tables with the memory the module reads and writes (\<open>word_at a\<close> is the
  8-byte word at the virtual address \<open>a\<close>), the register CR0 and the globals of the file.  An
  access to an address the processor does not map is a \<open>Fault\<close>; so is a store while the bit
  WP of CR0 is set, as the table lies on read-only pages.  The messages printed are left out.
\<close>

record sysc = mmu +
  word_at :: "c_ulong \<Rightarrow> c_ulong"
  cr0_reg :: c_ulong
  hacked_ni_syscall :: c_ulong
  hacked_syscall_tbl :: c_ulong
  sys_call_table_address :: c_ulong
  sys_ni_syscall_address :: c_ulong
  free_entries :: "c_int list"
  cr0 :: c_ulong
  nextFree :: c_int

definition START :: c_ulong where "START = 0xffffffff00000000"
definition MAX_ADDR :: c_ulong where "MAX_ADDR = 0xfffffffffff00000"
definition FIRST_NI_SYSCALL :: nat where "FIRST_NI_SYSCALL = 134"
definition SEVENTH_NI_SYSCALL :: nat where "SEVENTH_NI_SYSCALL = 236"
definition ENTRIES_TO_EXPLORE :: nat where "ENTRIES_TO_EXPLORE = 256"
definition PAGE_SIZE :: c_ulong where "PAGE_SIZE = 4096"
definition MAX_FREE :: nat where "MAX_FREE = 10"
definition X86_CR0_WP :: c_ulong where "X86_CR0_WP = 0x00010000"

text \<open>\<^verbatim>\<open>SECOND_NI_SYSCALL\<close> to \<^verbatim>\<open>SEVENTH_NI_SYSCALL\<close>.\<close>

definition other_ni :: "nat list" where "other_ni = [174, 182, 183, 214, 215, 236]"

section \<open>Memory accesses\<close>

definition load :: "('a) sysc_scheme \<Rightarrow> c_ulong \<Rightarrow> c_ulong res" where
  "load s a = (if mapped s a then Inr (word_at s a) else Inl Fault)"

definition store :: "('a) sysc_scheme \<Rightarrow> c_ulong \<Rightarrow> c_ulong \<Rightarrow> ('a) sysc_scheme res" where
  "store s a v =
     (if mapped s a \<and> cr0_reg s AND X86_CR0_WP = 0 then Inr (s\<lparr>word_at := (word_at s)(a := v)\<rparr>)
      else Inl Fault)"

text \<open>The address of element \<open>i\<close> of an array of words at \<open>a\<close>.\<close>

definition ent :: "c_ulong \<Rightarrow> nat \<Rightarrow> c_ulong" where
  "ent a i = a + of_nat i * 8"

section \<open>The search\<close>

fun good_loop :: "('a) sysc_scheme \<Rightarrow> c_ulong \<Rightarrow> nat list \<Rightarrow> bool res" where
  "good_loop s addr [] = Inr True"
| "good_loop s addr (i # is) =
     rbind (load s (ent addr i)) (\<lambda>x.
     rbind (load s (ent addr FIRST_NI_SYSCALL)) (\<lambda>ni.
     if x = ni then Inr False else good_loop s addr is))"

definition good_area :: "('a) sysc_scheme \<Rightarrow> c_ulong \<Rightarrow> bool res" where
  "good_area s addr = good_loop s addr [1..<FIRST_NI_SYSCALL]"

text \<open>The conjunction of the source: each operand is read only if those before it hold.\<close>

fun all_equal :: "('a) sysc_scheme \<Rightarrow> c_ulong \<Rightarrow> c_ulong \<Rightarrow> nat list \<Rightarrow> bool res" where
  "all_equal s addr w [] = good_area s addr"
| "all_equal s addr w (i # is) =
     rbind (load s (ent addr i)) (\<lambda>x. if w = x then all_equal s addr w is else Inr False)"

definition pattern :: "('a) sysc_scheme \<Rightarrow> c_ulong \<Rightarrow> bool res" where
  "pattern s addr =
     rbind (load s (ent addr FIRST_NI_SYSCALL)) (\<lambda>w.
     if w AND 0x3 = 0 \<and> w \<noteq> 0 \<and> w > 0xffffffff00000000
     then all_equal s addr w other_ni else Inr False)"

fun validate_loop :: "('a) sysc_scheme \<Rightarrow> c_ulong \<Rightarrow> nat list \<Rightarrow> (bool \<times> ('a) sysc_scheme) res" where
  "validate_loop s page [] = Inr (False, s)"
| "validate_loop s page (i # is) =
     (let new_page = page + of_nat i + of_nat SEVENTH_NI_SYSCALL * 8
      in if page + PAGE_SIZE = new_page AND ADDRESS_MASK \<and> sys_vtpmo s new_page = NO_MAP
         then Inr (False, s)
         else let addr = page + of_nat i
              in rbind (pattern s addr) (\<lambda>ok.
                 if ok then
                   rbind (load s (ent addr FIRST_NI_SYSCALL)) (\<lambda>ni.
                   Inr (True, s\<lparr>hacked_ni_syscall := ni, sys_ni_syscall_address := ni,
                                hacked_syscall_tbl := addr, sys_call_table_address := addr\<rparr>))
                 else validate_loop s page is))"

definition page_offsets :: "nat list" where
  "page_offsets = map (\<lambda>j. j * 8) [0..<512]"

definition validate_page :: "('a) sysc_scheme \<Rightarrow> c_ulong \<Rightarrow> (bool \<times> ('a) sysc_scheme) res" where
  "validate_page s addr = validate_loop s addr page_offsets"

partial_function (option) finder_loop ::
  "c_ulong \<Rightarrow> ('a) sysc_scheme \<Rightarrow> ('a) sysc_scheme res option" where
  "finder_loop k s =
     (if k < MAX_ADDR then
        if sys_vtpmo s k \<noteq> NO_MAP then
          (case validate_page s k of
             Inl e \<Rightarrow> Some (Inl e)
           | Inr (found, s') \<Rightarrow> if found then Some (Inr s') else finder_loop (k + 4096) s')
        else finder_loop (k + 4096) s
      else Some (Inr s))"

definition syscall_table_finder :: "('a) sysc_scheme \<Rightarrow> ('a) sysc_scheme res" where
  "syscall_table_finder s = loop_res (finder_loop START s)"

section \<open>The free entries\<close>

text \<open>\<open>lim\<close> is \<^verbatim>\<open>min(MAX_FREE, num)\<close>, \<open>j\<close> the entries stored so far.\<close>

fun free_loop :: "int \<Rightarrow> nat list \<Rightarrow> nat \<Rightarrow> ('a) sysc_scheme \<Rightarrow> (nat \<times> ('a) sysc_scheme) res" where
  "free_loop lim [] j s = Inr (j, s)"
| "free_loop lim (i # is) j s =
     rbind (load s (ent (hacked_syscall_tbl s) i)) (\<lambda>x.
     if x = hacked_ni_syscall s then
       if j < MAX_FREE then
         let s' = s\<lparr>free_entries := (free_entries s)[j := of_nat i]\<rparr>
         in if int (Suc j) \<ge> lim then Inr (Suc j, s') else free_loop lim is (Suc j) s'
       else Inl Fault
     else free_loop lim is j s)"

definition foundFree_entries :: "c_int \<Rightarrow> ('a) sysc_scheme \<Rightarrow> (c_int \<times> ('a) sysc_scheme) res" where
  "foundFree_entries num s =
     rbind (syscall_table_finder s) (\<lambda>s1.
     if hacked_syscall_tbl s1 = 0 then Inr (- 1, s1)
     else rbind (free_loop (min (int MAX_FREE) (sint num)) [0..<ENTRIES_TO_EXPLORE] 0 s1)
       (\<lambda>(j, s2). Inr (of_nat j, s2)))"

section \<open>Writing the table\<close>

definition write_cr0_forced :: "c_ulong \<Rightarrow> ('a) sysc_scheme \<Rightarrow> ('a) sysc_scheme" where
  "write_cr0_forced v s = s\<lparr>cr0_reg := v\<rparr>"

definition protect_memory :: "('a) sysc_scheme \<Rightarrow> ('a) sysc_scheme" where
  "protect_memory s = write_cr0_forced (cr0 s) s"

definition unprotect_memory :: "('a) sysc_scheme \<Rightarrow> ('a) sysc_scheme" where
  "unprotect_memory s = write_cr0_forced (cr0 s AND NOT X86_CR0_WP) s"

definition free_entry :: "('a) sysc_scheme \<Rightarrow> c_int \<Rightarrow> c_int res" where
  "free_entry s k =
     (if 0 \<le> sint k \<and> sint k < int MAX_FREE then Inr (free_entries s ! nat (sint k)) else Inl Fault)"

text \<open>\<^verbatim>\<open>hacked_syscall_tbl[e] = v\<close>; the index is an \<^verbatim>\<open>int\<close>, widened with its sign.\<close>

definition set_entry :: "c_int \<Rightarrow> c_ulong \<Rightarrow> ('a) sysc_scheme \<Rightarrow> ('a) sysc_scheme res" where
  "set_entry e v s = store s (hacked_syscall_tbl s + scast e * 8) v"

definition add_syscall :: "c_ulong \<Rightarrow> ('a) sysc_scheme \<Rightarrow> (c_int \<times> ('a) sysc_scheme) res" where
  "add_syscall sysPtr s =
     (if sint (nextFree s) < int MAX_FREE then
        let s1 = unprotect_memory (s\<lparr>cr0 := cr0_reg s\<rparr>)
        in rbind (free_entry s1 (nextFree s1)) (\<lambda>e.
           rbind (set_entry e sysPtr s1) (\<lambda>s2.
           let s3 = protect_memory s2; s4 = s3\<lparr>nextFree := nextFree s3 + 1\<rparr>
           in rbind (free_entry s4 (nextFree s4 - 1)) (\<lambda>r. Inr (r, s4))))
      else Inr (- 1, s))"

partial_function (option) restore_loop :: "('a) sysc_scheme \<Rightarrow> ('a) sysc_scheme res option" where
  "restore_loop s =
     (if 0 < sint (nextFree s) then
        (case rbind (free_entry s (nextFree s - 1)) (\<lambda>e. set_entry e (hacked_ni_syscall s) s) of
           Inl e \<Rightarrow> Some (Inl e)
         | Inr s' \<Rightarrow> restore_loop (s'\<lparr>nextFree := nextFree s' - 1\<rparr>))
      else Some (Inr s))"

definition removeAllSyscall :: "('a) sysc_scheme \<Rightarrow> ('a) sysc_scheme res" where
  "removeAllSyscall s =
     (let s1 = unprotect_memory (s\<lparr>cr0 := cr0_reg s\<rparr>)
      in rbind (loop_res (restore_loop s1)) (\<lambda>s2. Inr (protect_memory s2)))"

end
