(* ===== verification/TableScan.thy ===== *)
theory TableScan
  imports SyscallTable
begin

text \<open>
  The search of \<^verbatim>\<open>sysCall_Discovery.c\<close> is right: what \<^verbatim>\<open>validate_page\<close> tests of a page, that
  it never reads an unmapped one, and that the loop over the pages stops at the first table.
  \<open>table_here s a\<close> says what a table at \<open>a\<close> looks like to the module.
\<close>

section \<open>Addresses\<close>

lemma unat_plus: "unat a + n < 2 ^ 64 \<Longrightarrow> unat (a + of_nat n :: c_ulong) = unat a + n"
  by (simp add: unat_word_ariths unat_of_nat)

lemma mask_page: "a AND ADDRESS_MASK = push_bit 12 (drop_bit 12 a)"
proof -
  have m: "ADDRESS_MASK = NOT (mask 12)" by (simp add: ADDRESS_MASK_def mask_eq_exp_minus_1)
  show ?thesis unfolding m
    by (intro bit_word_eqI)
      (auto simp: bit_and_iff bit_not_iff bit_mask_iff bit_push_bit_iff bit_drop_bit_eq)
qed

lemma unat_page: "unat (a AND ADDRESS_MASK) = 4096 * (unat a div 4096)"
proof -
  have "a AND ADDRESS_MASK = push_bit 12 (drop_bit 12 a)" by (rule mask_page)
  also have "\<dots> = a - take_bit 12 a"
    using bits_ident [of 12 a] by (metis add_diff_cancel_right')
  finally have "unat (a AND ADDRESS_MASK) = unat (a - take_bit 12 a)" by simp
  also have "\<dots> = unat a - unat (take_bit 12 a)"
    by (rule unat_sub) (simp add: word_le_nat_alt unsigned_take_bit_eq take_bit_nat_less_eq_self)
  also have "\<dots> = unat a - unat a mod 4096"
    unfolding unsigned_take_bit_eq by (simp add: take_bit_eq_mod)
  also have "\<dots> = 4096 * (unat a div 4096)"
    by (simp add: minus_mod_eq_mult_div)
  finally show ?thesis .
qed

text \<open>A page of the range that is searched.\<close>

definition scan_page :: "c_ulong \<Rightarrow> bool" where
  "scan_page p \<longleftrightarrow> 4096 dvd unat p \<and> p < MAX_ADDR"

lemma scan_page_bound: "scan_page p \<Longrightarrow> unat p + 4096 \<le> unat MAX_ADDR"
proof -
  assume "scan_page p"
  then obtain q where "unat p = 4096 * q" "unat p < unat MAX_ADDR"
    by (auto simp: scan_page_def word_less_nat_alt)
  moreover have "unat MAX_ADDR = 4096 * 0xfffffffffff00" by (simp add: MAX_ADDR_def)
  ultimately show ?thesis by simp
qed

lemma unat_MAX_ADDR: "unat MAX_ADDR = 0xfffffffffff00000"
  by (simp add: MAX_ADDR_def)

lemma page_of_offset:
  assumes "scan_page p" and "x < 8192"
  shows "(p + of_nat x) AND ADDRESS_MASK = (if x < 4096 then p else p + PAGE_SIZE)"
proof -
  from assms(1) obtain q where q: "unat p = 4096 * q" by (auto simp: scan_page_def)
  from scan_page_bound [OF assms(1)] have b: "unat p + 8192 < 2 ^ 64"
    by (simp add: unat_MAX_ADDR)
  have "unat ((p + of_nat x) AND ADDRESS_MASK) = 4096 * ((4096 * q + x) div 4096)"
    using b assms(2) by (simp add: unat_page unat_plus q)
  also have "\<dots> = 4096 * q + 4096 * (x div 4096)" by simp
  also have "\<dots> = unat (if x < 4096 then p else p + PAGE_SIZE)"
  proof (cases "x < 4096")
    case False
    with assms(2) have "x div 4096 = 1" by (simp add: div_nat_eqI)
    moreover have "unat (p + of_nat 4096) = unat p + 4096" by (rule unat_plus) (use b in simp)
    ultimately show ?thesis using False by (simp add: q PAGE_SIZE_def)
  qed (simp add: q)
  finally show ?thesis by (simp only: word_unat_eq_iff)
qed

lemma ent_offset: "ent (p + of_nat i) k = p + of_nat (i + k * 8)"
  by (simp add: ent_def algebra_simps)

section \<open>What the pattern test computes\<close>

definition is_table :: "('a) sysc_scheme \<Rightarrow> c_ulong \<Rightarrow> bool" where
  "is_table s a \<longleftrightarrow>
     (let w = word_at s (ent a FIRST_NI_SYSCALL)
      in w AND 0x3 = 0 \<and> w \<noteq> 0 \<and> w > 0xffffffff00000000 \<and>
         (\<forall>i \<in> set other_ni. word_at s (ent a i) = w) \<and>
         (\<forall>i \<in> set [1..<FIRST_NI_SYSCALL]. word_at s (ent a i) \<noteq> w))"

definition table_mapped :: "('a) sysc_scheme \<Rightarrow> c_ulong \<Rightarrow> bool" where
  "table_mapped s a \<longleftrightarrow> (\<forall>k \<le> SEVENTH_NI_SYSCALL. mapped s (ent a k))"

lemma good_loop_eval:
  "table_mapped s a \<Longrightarrow> \<forall>i \<in> set is. i \<le> SEVENTH_NI_SYSCALL \<Longrightarrow>
   good_loop s a is = Inr (\<forall>i \<in> set is. word_at s (ent a i) \<noteq> word_at s (ent a FIRST_NI_SYSCALL))"
  by (induction "is") (auto simp: table_mapped_def load_def FIRST_NI_SYSCALL_def SEVENTH_NI_SYSCALL_def)

lemma all_equal_eval:
  "table_mapped s a \<Longrightarrow> \<forall>i \<in> set is. i \<le> SEVENTH_NI_SYSCALL \<Longrightarrow>
   all_equal s a w is = Inr ((\<forall>i \<in> set is. word_at s (ent a i) = w) \<and>
     (\<forall>i \<in> set [1..<FIRST_NI_SYSCALL]. word_at s (ent a i) \<noteq> word_at s (ent a FIRST_NI_SYSCALL)))"
proof (induction "is")
  case Nil
  then show ?case
    by (simp add: good_area_def good_loop_eval FIRST_NI_SYSCALL_def SEVENTH_NI_SYSCALL_def)
next
  case (Cons i "is")
  then show ?case by (auto simp: table_mapped_def load_def)
qed

lemma pattern_eval: "table_mapped s a \<Longrightarrow> pattern s a = Inr (is_table s a)"
proof -
  assume m: "table_mapped s a"
  have "load s (ent a FIRST_NI_SYSCALL) = Inr (word_at s (ent a FIRST_NI_SYSCALL))"
    using m by (simp add: table_mapped_def load_def FIRST_NI_SYSCALL_def SEVENTH_NI_SYSCALL_def)
  moreover have "\<forall>i \<in> set other_ni. i \<le> SEVENTH_NI_SYSCALL"
    by (simp add: other_ni_def SEVENTH_NI_SYSCALL_def)
  ultimately show ?thesis
    by (auto simp: pattern_def is_table_def Let_def all_equal_eval [OF m])
qed

section \<open>One page\<close>

text \<open>A table at \<open>a\<close>, as the module recognises one: the oracle finds its first page and the
  page of its last tested entry mapped, and the entries have the pattern.\<close>

definition table_here :: "('a) sysc_scheme \<Rightarrow> c_ulong \<Rightarrow> bool" where
  "table_here s a \<longleftrightarrow>
     sys_vtpmo s a \<noteq> NO_MAP \<and> sys_vtpmo s (ent a SEVENTH_NI_SYSCALL) \<noteq> NO_MAP \<and> is_table s a"

definition table_found :: "c_ulong \<Rightarrow> ('a) sysc_scheme \<Rightarrow> ('a) sysc_scheme" where
  "table_found a s =
     s\<lparr>hacked_ni_syscall := word_at s (ent a FIRST_NI_SYSCALL),
       sys_ni_syscall_address := word_at s (ent a FIRST_NI_SYSCALL),
       hacked_syscall_tbl := a, sys_call_table_address := a\<rparr>"

lemma table_found_sel [simp]:
  "hacked_ni_syscall (table_found a s) = word_at s (ent a FIRST_NI_SYSCALL)"
  "hacked_syscall_tbl (table_found a s) = a" "word_at (table_found a s) = word_at s"
  "free_entries (table_found a s) = free_entries s" "nextFree (table_found a s) = nextFree s"
  "cr0_reg (table_found a s) = cr0_reg s" "cr0 (table_found a s) = cr0 s"
  by (simp_all add: table_found_def)

lemma vtpmo_offset:
  assumes "scan_page p" and "x < 8192"
  shows "sys_vtpmo s (p + of_nat x) = sys_vtpmo s (if x < 4096 then p else p + PAGE_SIZE)"
  using page_of_offset [OF assms] sys_vtpmo_page [of s "p + of_nat x"] by simp

lemma table_is_mapped:
  assumes clean: "clean_tables s" and p: "scan_page p" and i: "i < 4096"
    and first: "sys_vtpmo s (p + of_nat i) \<noteq> NO_MAP"
    and last_entry: "sys_vtpmo s (ent (p + of_nat i) SEVENTH_NI_SYSCALL) \<noteq> NO_MAP"
  shows "table_mapped s (p + of_nat i)"
  unfolding table_mapped_def
proof (intro allI impI)
  fix k assume k: "k \<le> SEVENTH_NI_SYSCALL"
  let ?x = "i + k * 8" and ?y = "i + SEVENTH_NI_SYSCALL * 8"
  have b: "?x \<le> ?y" "?y < 8192" using k i by (simp_all add: SEVENTH_NI_SYSCALL_def)
  have "sys_vtpmo s (p + of_nat ?x) \<noteq> NO_MAP"
    using vtpmo_offset [OF p, of i s] vtpmo_offset [OF p, of ?x s] vtpmo_offset [OF p, of ?y s]
      first last_entry b i unfolding ent_offset by (cases "?x < 4096") (simp_all split: if_splits)
  then show "mapped s (ent (p + of_nat i) k)"
    unfolding ent_offset by (rule vtpmo_sound [OF clean [unfolded clean_tables_def, rule_format]])
qed

text \<open>The guard of \<^verbatim>\<open>validate_page\<close> asks the oracle exactly when the last entry is on the
  next page.\<close>

lemma guard_eq:
  assumes p: "scan_page p" and i: "i < 4096"
  shows "p + PAGE_SIZE = (p + of_nat i + of_nat SEVENTH_NI_SYSCALL * 8) AND ADDRESS_MASK
     \<longleftrightarrow> 4096 \<le> i + SEVENTH_NI_SYSCALL * 8"
proof -
  have "(p + of_nat i + of_nat SEVENTH_NI_SYSCALL * 8) AND ADDRESS_MASK =
      (if i + SEVENTH_NI_SYSCALL * 8 < 4096 then p else p + PAGE_SIZE)"
    using page_of_offset [OF p, of "i + SEVENTH_NI_SYSCALL * 8"] i
    by (simp add: SEVENTH_NI_SYSCALL_def algebra_simps)
  moreover have "p \<noteq> p + PAGE_SIZE" by (simp add: PAGE_SIZE_def)
  ultimately show ?thesis by auto
qed

lemma validate_loop_eval:
  assumes clean: "clean_tables s" and p: "scan_page p" and here: "sys_vtpmo s p \<noteq> NO_MAP"
  shows "sorted is \<Longrightarrow> \<forall>i \<in> set is. i < 4096 \<Longrightarrow>
    validate_loop s p is =
      Inr (case find (\<lambda>i. table_here s (p + of_nat i)) is of
             None \<Rightarrow> (False, s) | Some i \<Rightarrow> (True, table_found (p + of_nat i) s))"
proof (induction "is")
  case Nil
  then show ?case by simp
next
  case (Cons i "is")
  let ?last = "\<lambda>i. ent (p + of_nat i) SEVENTH_NI_SYSCALL"
  have last_eq: "p + of_nat i + of_nat SEVENTH_NI_SYSCALL * 8 = ?last i" by (simp add: ent_def)
  have i: "i < 4096" using Cons.prems by simp
  have first: "sys_vtpmo s (p + of_nat i) \<noteq> NO_MAP"
    using vtpmo_offset [OF p, of i s] i here by simp
  show ?case
  proof (cases "4096 \<le> i + SEVENTH_NI_SYSCALL * 8 \<and> sys_vtpmo s (?last i) = NO_MAP")
    case True
    have "\<not> table_here s (p + of_nat j)" if j: "j \<in> set (i # is)" for j
    proof -
      from j Cons.prems have "i \<le> j" "j < 4096" by auto
      with True have "sys_vtpmo s (?last j) = NO_MAP"
        using vtpmo_offset [OF p, of "i + SEVENTH_NI_SYSCALL * 8" s]
          vtpmo_offset [OF p, of "j + SEVENTH_NI_SYSCALL * 8" s] i
        by (simp add: ent_offset SEVENTH_NI_SYSCALL_def)
      then show ?thesis by (simp add: table_here_def)
    qed
    then have "find (\<lambda>i. table_here s (p + of_nat i)) (i # is) = None"
      by (simp add: find_None_iff)
    then show ?thesis using True guard_eq [OF p i] by (simp add: Let_def last_eq del: find.simps)
  next
    case False
    then have last_ok: "sys_vtpmo s (?last i) \<noteq> NO_MAP"
      using vtpmo_offset [OF p, of "i + SEVENTH_NI_SYSCALL * 8" s] i here
      by (auto simp: ent_offset SEVENTH_NI_SYSCALL_def)
    have m: "table_mapped s (p + of_nat i)" by (rule table_is_mapped [OF clean p i first last_ok])
    then have "load s (ent (p + of_nat i) FIRST_NI_SYSCALL) =
        Inr (word_at s (ent (p + of_nat i) FIRST_NI_SYSCALL))"
      by (simp add: table_mapped_def load_def FIRST_NI_SYSCALL_def SEVENTH_NI_SYSCALL_def)
    moreover have "table_here s (p + of_nat i) = is_table s (p + of_nat i)"
      by (simp add: table_here_def first last_ok)
    ultimately show ?thesis using Cons last_ok
      by (simp add: Let_def last_eq pattern_eval [OF m] table_found_def [of _ s])
  qed
qed

section \<open>All pages\<close>

lemma set_page_offsets: "i \<in> set page_offsets \<longleftrightarrow> i < 4096 \<and> 8 dvd i"
  by (auto simp: page_offsets_def image_iff elim!: dvdE)

lemma sorted_page_offsets: "sorted page_offsets"
  by (simp add: page_offsets_def sorted_map sorted_wrt_upt mono_def sorted_wrt_mono_rel [of _ "(\<le>)"])

text \<open>The first table at or after \<open>k\<close>, and the absence of one.\<close>

definition no_table :: "('a) sysc_scheme \<Rightarrow> c_ulong \<Rightarrow> c_ulong \<Rightarrow> bool" where
  "no_table s k l \<longleftrightarrow> (\<forall>b. k \<le> b \<and> b < l \<and> 8 dvd unat b \<longrightarrow> \<not> table_here s b)"

definition first_table :: "('a) sysc_scheme \<Rightarrow> c_ulong \<Rightarrow> c_ulong \<Rightarrow> bool" where
  "first_table s k a \<longleftrightarrow>
     k \<le> a \<and> a < MAX_ADDR \<and> 8 dvd unat a \<and> table_here s a \<and> no_table s k a"

lemma no_table_step: "no_table s k l \<Longrightarrow> no_table s l m \<Longrightarrow> no_table s k m"
  by (meson no_table_def not_less)

lemma in_page:
  assumes p: "scan_page p" and b: "p \<le> b" "b < p + 4096"
  obtains i where "b = p + of_nat i" "i < 4096" "8 dvd unat b \<longleftrightarrow> 8 dvd i"
proof -
  have n: "unat (p + 4096) = unat p + 4096"
    using unat_plus [of p 4096] scan_page_bound [OF p] by (simp add: unat_MAX_ADDR)
  from b have le: "unat p \<le> unat b" "unat b < unat p + 4096"
    by (simp_all add: word_le_nat_alt word_less_nat_alt n)
  define i where "i = unat b - unat p"
  from le have i: "unat b = unat p + i" "i < 4096" by (simp_all add: i_def)
  have "8 dvd unat p" using p by (auto simp: scan_page_def intro: dvd_trans [of 8 4096])
  then have "8 dvd unat b \<longleftrightarrow> 8 dvd i" by (simp add: i(1) dvd_add_right_iff)
  moreover have "b = p + of_nat i"
  proof -
    have "unat b < 2 ^ 64" using unsigned_less [of b, where 'a = nat] by simp
    then have "unat (p + of_nat i) = unat p + i" by (intro unat_plus) (simp add: i(1))
    then show ?thesis using i(1) by (simp add: word_unat_eq_iff)
  qed
  ultimately show thesis using that i(2) by blast
qed

lemma find_sorted:
  "find P xs = Some (i :: nat) \<Longrightarrow> sorted xs \<Longrightarrow>
   i \<in> set xs \<and> P i \<and> (\<forall>j \<in> set xs. j < i \<longrightarrow> \<not> P j)"
  by (induction xs) (auto split: if_splits)

lemma unat_in_page: "scan_page p \<Longrightarrow> j \<le> 4096 \<Longrightarrow> unat (p + of_nat j) = unat p + j"
  by (intro unat_plus) (use scan_page_bound [of p] in \<open>simp add: unat_MAX_ADDR\<close>)

text \<open>No table at the offsets before \<open>n\<close> is no table at the addresses before \<open>p + n\<close>.\<close>

lemma no_table_before:
  assumes p: "scan_page p" and n: "n \<le> 4096"
    and none: "\<And>j. j < n \<Longrightarrow> 8 dvd j \<Longrightarrow> \<not> table_here s (p + of_nat j)"
  shows "no_table s p (p + of_nat n)"
  unfolding no_table_def
proof (intro allI impI)
  fix c assume c: "p \<le> c \<and> c < p + of_nat n \<and> 8 dvd unat c"
  then have "c < p + 4096"
    using unat_in_page [OF p n] unat_in_page [OF p, of 4096] n by (simp add: word_less_nat_alt)
  with c obtain j where j: "c = p + of_nat j" "j < 4096" "8 dvd j" using in_page [OF p] by metis
  with c have "j < n"
    using unat_in_page [OF p n] unat_in_page [OF p, of j] by (simp add: word_less_nat_alt)
  then show "\<not> table_here s c" using none j by simp
qed

lemma validate_page_eval:
  assumes clean: "clean_tables s" and p: "scan_page p" and here: "sys_vtpmo s p \<noteq> NO_MAP"
  shows "validate_page s p = Inr (False, s) \<and> no_table s p (p + 4096) \<or>
    (\<exists>a. validate_page s p = Inr (True, table_found a s) \<and> first_table s p a)"
proof -
  let ?P = "\<lambda>i. table_here s (p + of_nat i)"
  have eval: "validate_page s p =
      Inr (case find ?P page_offsets of
             None \<Rightarrow> (False, s) | Some i \<Rightarrow> (True, table_found (p + of_nat i) s))"
    unfolding validate_page_def
    by (rule validate_loop_eval [OF assms sorted_page_offsets]) (simp add: set_page_offsets)
  show ?thesis
  proof (cases "find ?P page_offsets")
    case None
    then have "no_table s p (p + of_nat 4096)"
      by (intro no_table_before [OF p]) (auto simp: find_None_iff set_page_offsets)
    then show ?thesis by (simp add: eval None)
  next
    case (Some i)
    from find_sorted [OF this sorted_page_offsets]
    have i: "i < 4096" "8 dvd i" "?P i" and "\<And>j. j < i \<Longrightarrow> 8 dvd j \<Longrightarrow> \<not> ?P j"
      by (auto simp: set_page_offsets)
    then have "no_table s p (p + of_nat i)" by (intro no_table_before [OF p]) auto
    moreover have "8 dvd unat p" using p by (auto simp: scan_page_def intro: dvd_trans [of 8 4096])
    ultimately have "first_table s p (p + of_nat i)"
      using unat_in_page [OF p, of i] i scan_page_bound [OF p]
      by (simp add: first_table_def word_le_nat_alt word_less_nat_alt)
    then show ?thesis by (auto simp: eval Some)
  qed
qed

text \<open>The loop over the pages: it ends, and stops at the first table if there is one.\<close>

lemma finder_loop_eval:
  assumes clean: "clean_tables s"
  shows "4096 dvd unat k \<Longrightarrow> k \<le> MAX_ADDR \<Longrightarrow>
    finder_loop k s = Some (Inr s) \<and> no_table s k MAX_ADDR \<or>
    (\<exists>a. finder_loop k s = Some (Inr (table_found a s)) \<and> first_table s k a)"
proof (induction "unat MAX_ADDR - unat k" arbitrary: k rule: less_induct)
  case less
  show ?case
  proof (cases "k < MAX_ADDR")
    case False
    then have "no_table s k MAX_ADDR" by (auto simp: no_table_def dest: order.strict_trans1)
    with False show ?thesis by (simp add: finder_loop.simps [of k])
  next
    case True
    with less.prems have p: "scan_page k" by (simp add: scan_page_def)
    have n: "unat (k + 4096) = unat k + 4096" using unat_in_page [OF p, of 4096] by simp
    have IH: "finder_loop (k + 4096) s = Some (Inr s) \<and> no_table s (k + 4096) MAX_ADDR \<or>
        (\<exists>a. finder_loop (k + 4096) s = Some (Inr (table_found a s)) \<and> first_table s (k + 4096) a)"
      by (rule less.hyps) (use True less.prems scan_page_bound [OF p] n in
        \<open>auto simp: word_less_nat_alt word_le_nat_alt\<close>)
    have skip: ?thesis if "finder_loop k s = finder_loop (k + 4096) s" "no_table s k (k + 4096)"
      using IH that n by (auto simp: first_table_def word_le_nat_alt intro: no_table_step)
    show ?thesis
    proof (cases "sys_vtpmo s k = NO_MAP")
      case unmapped: True
      have "\<not> table_here s (k + of_nat j)" if "j < 4096" for j
        using vtpmo_offset [OF p, of j s] that unmapped by (simp add: table_here_def)
      then have "no_table s k (k + of_nat 4096)" by (intro no_table_before [OF p]) auto
      then show ?thesis using True unmapped by (intro skip) (simp_all add: finder_loop.simps [of k])
    next
      case False
      from validate_page_eval [OF clean p False] show ?thesis
      proof
        assume v: "validate_page s k = Inr (False, s) \<and> no_table s k (k + 4096)"
        then show ?thesis using True False by (intro skip) (simp_all add: finder_loop.simps [of k])
      qed (use True False in \<open>auto simp: finder_loop.simps [of k]\<close>)
    qed
  qed
qed

lemma START_range: "4096 dvd unat START" "START \<le> MAX_ADDR"
  by (simp_all add: START_def MAX_ADDR_def)

lemma finder_eval:
  assumes "clean_tables s"
  shows "syscall_table_finder s = Inr s \<and> no_table s START MAX_ADDR \<or>
    (\<exists>a. syscall_table_finder s = Inr (table_found a s) \<and> first_table s START a)"
  using finder_loop_eval [OF assms START_range] by (auto simp: syscall_table_finder_def)

lemma finder_finds:
  assumes "clean_tables s" and "first_table s START a"
  shows "syscall_table_finder s = Inr (table_found a s)"
  using finder_eval [OF assms(1)]
proof
  assume "syscall_table_finder s = Inr s \<and> no_table s START MAX_ADDR"
  with assms(2) show ?thesis by (auto simp: no_table_def first_table_def)
next
  assume "\<exists>b. syscall_table_finder s = Inr (table_found b s) \<and> first_table s START b"
  then obtain b where b: "syscall_table_finder s = Inr (table_found b s)" "first_table s START b"
    by blast
  with assms(2) have "a = b"
    by (meson first_table_def no_table_def not_less_iff_gr_or_eq)
  with b show ?thesis by simp
qed

section \<open>A concrete memory\<close>

text \<open>Every address is mapped; the table is at the first address searched.\<close>

definition ni_word :: c_ulong where "ni_word = 0xffffffff81000000"
definition handler_word :: c_ulong where "handler_word = 0xffffffff82000000"

definition demo_memory :: sysc where
  "demo_memory =
     \<lparr>cr3_reg = 0x1000, pt_entry = (\<lambda>t i. 0x1003),
      word_at = (\<lambda>a. if a \<in> ent START ` set (FIRST_NI_SYSCALL # other_ni) then ni_word else handler_word),
      cr0_reg = 0x80050033, hacked_ni_syscall = 0, hacked_syscall_tbl = 0,
      sys_call_table_address = 0, sys_ni_syscall_address = 0,
      free_entries = replicate MAX_FREE 0, cr0 = 0, nextFree = 0\<rparr>"

lemma demo_clean [simp]: "clean_tables demo_memory"
  by (rule clean_tablesI) (simp_all add: clean_def demo_memory_def)

lemma ent_inject: "i < 256 \<Longrightarrow> j < 256 \<Longrightarrow> ent START i = ent START j \<longleftrightarrow> i = j"
proof -
  assume "i < 256" "j < 256"
  have u: "unat (ent START n) = unat START + n * 8" if "n < 256" for n
  proof -
    have "ent START n = START + of_nat (n * 8)" by (simp add: ent_def)
    then show ?thesis using that unat_plus [of START "n * 8"] by (simp add: START_def)
  qed
  then show ?thesis using \<open>i < 256\<close> \<open>j < 256\<close> by (metis add_left_cancel mult_cancel2 zero_neq_numeral)
qed

lemma demo_mem:
  "i < 256 \<Longrightarrow> word_at demo_memory (ent START i) =
     (if i \<in> set (FIRST_NI_SYSCALL # other_ni) then ni_word else handler_word)"
  by (simp add: demo_memory_def image_iff ent_inject FIRST_NI_SYSCALL_def other_ni_def)

lemma demo_vtpmo: "sys_vtpmo demo_memory v = 1"
  by (simp add: demo_memory_def sys_vtpmo_def Let_def VALID_def LH_MAPPING_def PT_ADDRESS_MASK_def)

lemma demo_first: "first_table demo_memory START START"
proof -
  have "is_table demo_memory START"
    by (auto simp: is_table_def Let_def demo_mem FIRST_NI_SYSCALL_def other_ni_def ni_word_def
        handler_word_def)
  moreover have "no_table demo_memory START START"
    by (simp add: no_table_def) (meson leD)
  moreover have "START < MAX_ADDR" "8 dvd unat START" by (simp_all add: START_def MAX_ADDR_def)
  ultimately show ?thesis
    by (simp add: first_table_def table_here_def demo_vtpmo NO_MAP_def)
qed

end
