(* ===== verification/TableWrite.thy ===== *)
theory TableWrite
  imports TableScan
begin

text \<open>
  The second half of \<^verbatim>\<open>sysCall_Discovery.c\<close>: which entries \<^verbatim>\<open>foundFree_entries\<close> records,
  and how \<^verbatim>\<open>add_syscall\<close> and \<^verbatim>\<open>removeAllSyscall\<close> change the table.  \<open>installed s m es hs\<close>
  relates a state to the memory \<open>m\<close> it started from: the handlers \<open>hs\<close> are at the first of the
  free entries \<open>es\<close>, and nothing else differs.
\<close>

section \<open>What the page tables alone decide\<close>

lemma walk_from_cong:
  "pt_entry s = pt_entry t \<Longrightarrow> walk_from s l b v = walk_from t l b v"
proof (induction l arbitrary: b)
  case (Suc l)
  then show ?case by (simp add: Let_def)
qed simp

lemma mapped_cong:
  "cr3_reg s = cr3_reg t \<Longrightarrow> pt_entry s = pt_entry t \<Longrightarrow> mapped s v = mapped t v"
  by (simp add: mapped_def mmu_walk_def walk_from_cong [of s t])

lemma mapped_frame [frame_simps]:
  fixes s :: "('a) sysc_scheme"
  shows "mapped (s\<lparr>word_at := m\<rparr>) a = mapped s a" "mapped (s\<lparr>cr0 := c\<rparr>) a = mapped s a"
    "mapped (s\<lparr>cr0_reg := c\<rparr>) a = mapped s a" "mapped (s\<lparr>nextFree := n\<rparr>) a = mapped s a"
    "mapped (s\<lparr>free_entries := es\<rparr>) a = mapped s a" "mapped (table_found t s) a = mapped s a"
  by (rule mapped_cong; simp add: table_found_def)+

lemma ent_eq: "i < 256 \<Longrightarrow> j < 256 \<Longrightarrow> ent a i = ent a j \<longleftrightarrow> i = j"
proof -
  assume b: "i < 256" "j < 256"
  have "ent a i = ent a j \<longleftrightarrow> (of_nat (i * 8) :: c_ulong) = of_nat (j * 8)" by (simp add: ent_def)
  also have "\<dots> \<longleftrightarrow> i * 8 = j * 8"
    using b by (simp only: word_unat_eq_iff unat_of_nat) simp
  finally show ?thesis by simp
qed

section \<open>Recording the free entries\<close>

abbreviation is_free :: "('a) sysc_scheme \<Rightarrow> nat \<Rightarrow> bool" where
  "is_free s i \<equiv> word_at s (ent (hacked_syscall_tbl s) i) = hacked_ni_syscall s"

definition record_from :: "nat \<Rightarrow> nat list \<Rightarrow> c_int list \<Rightarrow> c_int list" where
  "record_from j es fe = take j fe @ map of_nat es @ drop (j + length es) fe"

lemma record_from_Nil [simp]: "record_from j [] fe = fe"
  by (simp add: record_from_def)

lemma record_from_Cons:
  "j < length fe \<Longrightarrow> record_from (Suc j) es (fe[j := of_nat e]) = record_from j (e # es) fe"
  by (simp add: record_from_def take_Suc_conv_app_nth)

text \<open>While the entries it reads are mapped, the loop records the free ones in order until it
  has \<open>lim\<close> of them; entries after that are not read.\<close>

lemma free_loop_eval:
  "int j < lim \<Longrightarrow> lim \<le> int MAX_FREE \<Longrightarrow> length (free_entries s) = MAX_FREE \<Longrightarrow>
   \<forall>i \<in> set is. mapped s (ent (hacked_syscall_tbl s) i) \<Longrightarrow>
   nat lim - j \<le> length (filter (is_free s) is) \<Longrightarrow>
   free_loop lim (is @ rest) j s =
     Inr (nat lim, s\<lparr>free_entries :=
       record_from j (take (nat lim - j) (filter (is_free s) is)) (free_entries s)\<rparr>)"
proof (induction "is" arbitrary: j s)
  case Nil
  then show ?case by simp
next
  case (Cons i "is")
  have "load s (ent (hacked_syscall_tbl s) i) = Inr (word_at s (ent (hacked_syscall_tbl s) i))"
    using Cons.prems by (simp add: load_def)
  note step = this
  show ?case
  proof (cases "is_free s i")
    case False
    with Cons step show ?thesis by simp
  next
    case True
    let ?s = "s\<lparr>free_entries := (free_entries s)[j := of_nat i]\<rparr>"
    have j: "j < MAX_FREE" using Cons.prems by simp
    show ?thesis
    proof (cases "lim \<le> int (Suc j)")
      case last: True
      with Cons.prems(1) have "nat lim = Suc j" by simp
      then show ?thesis using True step j last Cons.prems(3)
        by (simp add: Let_def flip: record_from_Cons)
    next
      case False
      have "free_loop lim (is @ rest) (Suc j) ?s =
          Inr (nat lim, ?s\<lparr>free_entries := record_from (Suc j)
            (take (nat lim - Suc j) (filter (is_free ?s) is)) (free_entries ?s)\<rparr>)"
        by (rule Cons.IH) (use Cons.prems False True in \<open>auto simp: frame_simps\<close>)
      moreover have "nat lim - j = Suc (nat lim - Suc j)" using False by linarith
      ultimately show ?thesis using True step j False Cons.prems(3)
        by (simp add: Let_def record_from_Cons)
    qed
  qed
qed

text \<open>The free entries up to the last one the pattern test reads.\<close>

definition free_before :: "('a) sysc_scheme \<Rightarrow> c_ulong \<Rightarrow> nat list" where
  "free_before s a =
     filter (\<lambda>i. word_at s (ent a i) = word_at s (ent a FIRST_NI_SYSCALL)) [0..<Suc SEVENTH_NI_SYSCALL]"

lemma free_before_bound: "i \<in> set (free_before s a) \<Longrightarrow> i < 256"
  by (auto simp: free_before_def SEVENTH_NI_SYSCALL_def)

lemma seven_free:
  assumes "is_table s a"
  shows "7 \<le> length (free_before s a)"
proof -
  let ?seven = "FIRST_NI_SYSCALL # other_ni"
  have "set ?seven \<subseteq> set (free_before s a)"
    using assms by (auto simp: is_table_def Let_def free_before_def FIRST_NI_SYSCALL_def
        SEVENTH_NI_SYSCALL_def other_ni_def)
  then have "card (set ?seven) \<le> card (set (free_before s a))" by (intro card_mono) auto
  also have "card (set ?seven) = 7" by (simp add: FIRST_NI_SYSCALL_def other_ni_def)
  also have "card (set (free_before s a)) \<le> length (free_before s a)" by (rule card_length)
  finally show ?thesis .
qed

lemma demo_free_before: "free_before demo_memory START = [134, 174, 182, 183, 214, 215, 236]"
proof -
  let ?L = "[134, 174, 182, 183, 214, 215, 236] :: nat list"
  have "free_before demo_memory START = filter (\<lambda>i. i \<in> set ?L) [0..<Suc SEVENTH_NI_SYSCALL]"
    unfolding free_before_def
    by (rule filter_cong)
      (auto simp: demo_mem FIRST_NI_SYSCALL_def SEVENTH_NI_SYSCALL_def other_ni_def ni_word_def
        handler_word_def simp del: upt_Suc)
  also have "\<dots> = ?L"
    by (rule sorted_distinct_set_unique)
      (auto simp: SEVENTH_NI_SYSCALL_def sorted_wrt_filter simp del: upt_Suc)
  finally show ?thesis .
qed

lemma first_table_mapped:
  assumes clean: "clean_tables s" and t: "first_table s START a"
  shows "table_mapped s a"
proof -
  let ?p = "a AND ADDRESS_MASK" and ?i = "unat a mod 4096"
  have d: "unat a = 4096 * (unat a div 4096) + ?i" by simp
  have u: "unat ?p = 4096 * (unat a div 4096)" by (rule unat_page)
  from u d have "unat ?p \<le> unat a" by linarith
  with t have p: "scan_page ?p"
    using u by (auto simp: scan_page_def first_table_def word_less_nat_alt)
  have "unat (?p + of_nat ?i) = unat ?p + ?i" by (rule unat_in_page [OF p]) simp
  then have a: "?p + of_nat ?i = a" using u d by (simp only: word_unat_eq_iff)
  from t have "sys_vtpmo s a \<noteq> NO_MAP" "sys_vtpmo s (ent a SEVENTH_NI_SYSCALL) \<noteq> NO_MAP"
    by (simp_all add: first_table_def table_here_def)
  with table_is_mapped [OF clean p, of ?i] show ?thesis unfolding a by simp
qed

text \<open>\<open>free_ready s es\<close>: the table is found and \<open>es\<close> are recorded as its free entries.\<close>

definition free_ready :: "('a) sysc_scheme \<Rightarrow> nat list \<Rightarrow> bool" where
  "free_ready s es \<longleftrightarrow>
     length (free_entries s) = MAX_FREE \<and> length es \<le> MAX_FREE \<and> distinct es \<and>
     take (length es) (free_entries s) = map of_nat es \<and>
     (\<forall>i \<in> set es. i < 256 \<and> mapped s (ent (hacked_syscall_tbl s) i) \<and> is_free s i)"

lemma table_address_nonzero: "first_table s START a \<Longrightarrow> a \<noteq> 0"
  by (auto simp: first_table_def START_def)

lemma foundFree_eval:
  assumes clean: "clean_tables s" and t: "first_table s START a"
    and fe: "length (free_entries s) = MAX_FREE" and num: "0 < sint num" "sint num \<le> 7"
  shows "foundFree_entries num s =
    Inr (num, (table_found a s)\<lparr>free_entries :=
      record_from 0 (take (nat (sint num)) (free_before s a)) (free_entries s)\<rparr>)"
proof -
  let ?s = "table_found a s"
  let ?lim = "min (int MAX_FREE) (sint num)"
  have lim: "?lim = sint num" using num by (simp add: MAX_FREE_def)
  have split: "[0..<ENTRIES_TO_EXPLORE] = [0..<Suc SEVENTH_NI_SYSCALL] @
      [Suc SEVENTH_NI_SYSCALL..<ENTRIES_TO_EXPLORE]"
  proof -
    have e: "ENTRIES_TO_EXPLORE = Suc SEVENTH_NI_SYSCALL + 19"
      by (simp add: SEVENTH_NI_SYSCALL_def ENTRIES_TO_EXPLORE_def)
    show ?thesis unfolding e by (rule upt_add_eq_append) simp
  qed
  have free: "filter (is_free ?s) [0..<Suc SEVENTH_NI_SYSCALL] = free_before s a"
    by (simp add: free_before_def table_found_def)
  have "free_loop ?lim [0..<ENTRIES_TO_EXPLORE] 0 ?s =
      Inr (nat (sint num), ?s\<lparr>free_entries :=
        record_from 0 (take (nat (sint num) - 0) (filter (is_free ?s) [0..<Suc SEVENTH_NI_SYSCALL]))
          (free_entries ?s)\<rparr>)"
    unfolding split lim
  proof (rule free_loop_eval)
    show "\<forall>i \<in> set [0..<Suc SEVENTH_NI_SYSCALL]. mapped ?s (ent (hacked_syscall_tbl ?s) i)"
      using first_table_mapped [OF clean t] by (auto simp: table_mapped_def frame_simps)
    show "nat (sint num) - 0 \<le> length (filter (is_free ?s) [0..<Suc SEVENTH_NI_SYSCALL])"
      using seven_free [of s a] t num unfolding free by (simp add: first_table_def table_here_def)
  qed (use num fe in \<open>simp_all add: MAX_FREE_def\<close>)
  then show ?thesis
    using table_address_nonzero [OF t] num
    by (simp add: foundFree_entries_def finder_finds [OF clean t] free_before_def del: upt_Suc)
qed

lemma foundFree_ready:
  fixes num :: c_int
  assumes clean: "clean_tables s" and t: "first_table s START a"
    and fe: "length (free_entries s) = MAX_FREE" and num: "0 < sint num" "sint num \<le> 7"
    and es: "es = take (nat (sint num)) (free_before s a)"
  shows "length es = nat (sint num)"
    and "free_ready ((table_found a s)\<lparr>free_entries := record_from 0 es (free_entries s)\<rparr>) es"
proof -
  show len: "length es = nat (sint num)"
    using seven_free [of s a] t num by (simp add: es first_table_def table_here_def)
  have sub: "set es \<subseteq> set (free_before s a)" by (simp add: es set_take_subset)
  have d: "distinct es" by (simp add: es free_before_def del: upt_Suc)
  have "mapped s (ent a i)" if "i \<in> set es" for i
    using that sub first_table_mapped [OF clean t]
    by (auto simp: table_mapped_def free_before_def simp del: upt_Suc)
  moreover have "i < 256 \<and> word_at s (ent a i) = word_at s (ent a FIRST_NI_SYSCALL)" if "i \<in> set es" for i
    using that sub free_before_bound by (auto simp: free_before_def simp del: upt_Suc)
  ultimately show "free_ready ((table_found a s)\<lparr>free_entries := record_from 0 es (free_entries s)\<rparr>) es"
    using len d fe num
    by (simp add: free_ready_def record_from_def frame_simps) (simp add: MAX_FREE_def)
qed

section \<open>Installing and restoring handlers\<close>

definition table_with :: "(c_ulong \<Rightarrow> c_ulong) \<Rightarrow> c_ulong \<Rightarrow> (nat \<times> c_ulong) list \<Rightarrow> c_ulong \<Rightarrow> c_ulong" where
  "table_with m a ps = fold (\<lambda>(i, h) m. m(ent a i := h)) ps m"

lemma table_with_simps [simp]:
  "table_with m a [] = m"
  "table_with m a (ps @ [(i, h)]) = (table_with m a ps)(ent a i := h)"
  by (simp_all add: table_with_def)

lemma zip_snoc: "length hs < length es \<Longrightarrow> zip es (hs @ [h]) = zip es hs @ [(es ! length hs, h)]"
proof (induction hs arbitrary: es)
  case Nil
  then show ?case by (cases es) simp_all
next
  case (Cons k hs)
  then show ?case by (cases es) simp_all
qed

lemma table_with_other:
  "\<forall>(i, h) \<in> set ps. ent a i \<noteq> x \<Longrightarrow> table_with m a ps x = m x"
  by (induction ps rule: rev_induct) auto

lemma table_with_at:
  assumes "distinct es" "\<forall>i \<in> set es. i < 256" and "length hs \<le> length es" and "n < length hs"
  shows "table_with m a (zip es hs) (ent a (es ! n)) = hs ! n"
  using assms(3,4)
proof (induction hs rule: rev_induct)
  case (snoc h hs)
  let ?k = "length hs"
  have k: "?k < length es" using snoc.prems by simp
  show ?case
  proof (cases "n = ?k")
    case True
    then show ?thesis by (simp add: zip_snoc [OF k])
  next
    case False
    with snoc.prems have n: "n < ?k" by simp
    then have "es ! n \<noteq> es ! ?k" using assms(1) k by (simp add: nth_eq_iff_index_eq)
    then have "ent a (es ! n) \<noteq> ent a (es ! ?k)" using assms(2) k n by (simp add: ent_eq)
    with snoc.IH n k show ?thesis by (simp add: zip_snoc [OF k] nth_append)
  qed
qed simp

text \<open>The state after the handlers \<open>hs\<close> were added to a state \<open>s\<close> whose free entries are \<open>es\<close>.\<close>

definition with_handlers :: "nat list \<Rightarrow> c_ulong list \<Rightarrow> ('a) sysc_scheme \<Rightarrow> ('a) sysc_scheme" where
  "with_handlers es hs s =
     s\<lparr>word_at := table_with (word_at s) (hacked_syscall_tbl s) (zip es hs),
       cr0 := (if hs = [] then cr0 s else cr0_reg s), nextFree := of_nat (length hs)\<rparr>"

lemma with_no_handlers: "nextFree s = 0 \<Longrightarrow> with_handlers es [] s = s"
  by (simp add: with_handlers_def)

lemma wp_cleared [simp]: "(c AND NOT X86_CR0_WP) AND X86_CR0_WP = 0"
  by (simp add: and.assoc)

lemma free_entry_nth:
  "free_ready s es \<Longrightarrow> k < length es \<Longrightarrow> free_entries t = free_entries s \<Longrightarrow>
   free_entry t (of_nat k) = Inr (of_nat (es ! k))"
proof -
  assume r: "free_ready s es" and k: "k < length es" and t: "free_entries t = free_entries s"
  from r k have "free_entries s ! k = map of_nat es ! k"
    by (metis free_ready_def nth_take)
  moreover have "k < MAX_FREE" using r k by (simp add: free_ready_def)
  moreover from this have "sint (of_nat k :: c_int) = int k"
    by (intro sint_of_nat_small) (simp add: MAX_FREE_def)
  ultimately show ?thesis using k t by (simp add: free_entry_def)
qed

lemma scast_small: "i < 256 \<Longrightarrow> (scast (of_nat i :: c_int) :: c_ulong) = of_nat i"
proof -
  assume "i < 256"
  then have "sint (of_nat i :: c_int) = int i" by (intro sint_of_nat_small) simp
  then show ?thesis by (simp add: scast_eq)
qed

lemma set_entry_free:
  assumes "free_ready s es" and "e \<in> set es"
    and "hacked_syscall_tbl t = hacked_syscall_tbl s" "cr3_reg t = cr3_reg s" "pt_entry t = pt_entry s"
    and "cr0_reg t AND X86_CR0_WP = 0"
  shows "set_entry (of_nat e) v t = Inr (t\<lparr>word_at := (word_at t)(ent (hacked_syscall_tbl s) e := v)\<rparr>)"
proof -
  from assms(1,2) have "e < 256" "mapped s (ent (hacked_syscall_tbl s) e)"
    by (auto simp: free_ready_def)
  with mapped_cong [of t s "ent (hacked_syscall_tbl s) e"] show ?thesis
    using assms(3-6) by (simp add: set_entry_def store_def scast_small ent_def)
qed

lemma handlers_bound: "free_ready s es \<Longrightarrow> k \<le> length es \<Longrightarrow> sint (of_nat k :: c_int) = int k"
  by (intro sint_of_nat_small) (simp add: free_ready_def MAX_FREE_def)

lemma add_handler:
  assumes ready: "free_ready s es" and room: "length hs < length es"
  shows "add_syscall h (with_handlers es hs s) =
    Inr (of_nat (es ! length hs), with_handlers es (hs @ [h]) s)"
proof -
  let ?k = "length hs" and ?t = "with_handlers es hs s"
  let ?u = "?t\<lparr>cr0 := cr0_reg s, cr0_reg := cr0_reg s AND NOT X86_CR0_WP\<rparr>"
  have "int ?k < int MAX_FREE" using ready room by (simp add: free_ready_def)
  then have small: "sint (nextFree ?t) < int MAX_FREE"
    using handlers_bound [OF ready, of ?k] room by (simp add: with_handlers_def)
  have fe: "free_entry v (of_nat ?k) = Inr (of_nat (es ! ?k))"
    if "free_entries v = free_entries s" for v :: "('a) sysc_scheme"
    by (rule free_entry_nth [OF ready room that])
  have set: "set_entry (of_nat (es ! ?k)) h ?u =
      Inr (?u\<lparr>word_at := (word_at ?u)(ent (hacked_syscall_tbl s) (es ! ?k) := h)\<rparr>)"
    by (rule set_entry_free [OF ready]) (use room in \<open>simp_all add: with_handlers_def\<close>)
  show ?thesis
    unfolding add_syscall_def if_P [OF small]
    using set room
    by (simp add: Let_def unprotect_memory_def protect_memory_def write_cr0_forced_def fe
        with_handlers_def zip_snoc)
qed

text \<open>The next free entry still holds what it held at first.\<close>

lemma table_with_free:
  assumes ready: "free_ready s es" and room: "length hs < length es"
  shows "table_with (word_at s) (hacked_syscall_tbl s) (zip es hs)
      (ent (hacked_syscall_tbl s) (es ! length hs)) = hacked_ni_syscall s"
proof -
  let ?a = "hacked_syscall_tbl s" and ?e = "es ! length hs"
  have e: "?e \<in> set es" using room by simp
  have "\<forall>(i, h) \<in> set (zip es hs). ent ?a i \<noteq> ent ?a ?e"
  proof (intro ballI, clarify)
    fix i h assume "(i, h) \<in> set (zip es hs)" and same: "ent ?a i = ent ?a ?e"
    then obtain n where n: "n < length hs" "n < length es" "i = es ! n" by (auto simp: in_set_zip)
    have "i < 256" "?e < 256" using ready e n nth_mem [of n es] by (auto simp: free_ready_def)
    with same have "i = ?e" by (simp add: ent_eq)
    with n room ready show False by (simp add: free_ready_def nth_eq_iff_index_eq)
  qed
  then show ?thesis using ready e by (simp add: table_with_other free_ready_def)
qed

lemma restore_loop_eval:
  assumes ready: "free_ready s es"
  shows "length hs \<le> length es \<Longrightarrow> word_at t = table_with (word_at s) (hacked_syscall_tbl s) (zip es hs) \<Longrightarrow>
    nextFree t = of_nat (length hs) \<Longrightarrow> cr0_reg t AND X86_CR0_WP = 0 \<Longrightarrow>
    free_entries t = free_entries s \<Longrightarrow> hacked_syscall_tbl t = hacked_syscall_tbl s \<Longrightarrow>
    hacked_ni_syscall t = hacked_ni_syscall s \<Longrightarrow> cr3_reg t = cr3_reg s \<Longrightarrow>
    pt_entry t = pt_entry s \<Longrightarrow>
    restore_loop t = Some (Inr (t\<lparr>word_at := word_at s, nextFree := 0\<rparr>))"
proof (induction hs arbitrary: t rule: rev_induct)
  case Nil
  then show ?case by (subst restore_loop.simps) simp
next
  case (snoc h hs)
  let ?k = "length hs" and ?a = "hacked_syscall_tbl s"
  let ?e = "es ! ?k" and ?m = "table_with (word_at s) ?a (zip es hs)"
  have room: "?k < length es" using snoc.prems(1) by simp
  have e: "?e \<in> set es" using room by simp
  have back_m: "?m(ent ?a ?e := hacked_ni_syscall s) = ?m"
    by (simp add: fun_upd_idem_iff table_with_free [OF ready room])
  let ?t = "t\<lparr>word_at := ?m, nextFree := of_nat ?k\<rparr>"
  have pos: "0 < sint (nextFree t)"
    using handlers_bound [OF ready, of "length (hs @ [h])"] snoc.prems(1,3) by simp
  have "set_entry (of_nat ?e) (hacked_ni_syscall t) t =
      Inr (t\<lparr>word_at := (word_at t)(ent ?a ?e := hacked_ni_syscall t)\<rparr>)"
    by (rule set_entry_free [OF ready e]) (use snoc.prems in simp_all)
  moreover have "word_at t = ?m(ent ?a ?e := h)" using snoc.prems(2) by (simp only: zip_snoc [OF room] table_with_simps)
  then have "(word_at t)(ent ?a ?e := hacked_ni_syscall t) = ?m"
    by (simp only: fun_upd_upd back_m snoc.prems(7))
  moreover have "free_entry t (nextFree t - 1) = Inr (of_nat ?e)"
    using free_entry_nth [OF ready room, of t] snoc.prems(3,5) by simp
  ultimately have "restore_loop t = restore_loop ?t"
    using pos snoc.prems(3) by (subst restore_loop.simps) simp
  also have "\<dots> = Some (Inr (?t\<lparr>word_at := word_at s, nextFree := 0\<rparr>))"
    by (rule snoc.IH) (use snoc.prems room in simp_all)
  finally show ?case by simp
qed

lemma remove_handlers:
  assumes ready: "free_ready s es" and len: "length hs \<le> length es"
  shows "removeAllSyscall (with_handlers es hs s) = Inr (s\<lparr>cr0 := cr0_reg s, nextFree := 0\<rparr>)"
proof -
  let ?t = "(with_handlers es hs s)\<lparr>cr0 := cr0_reg s, cr0_reg := cr0_reg s AND NOT X86_CR0_WP\<rparr>"
  have "restore_loop ?t = Some (Inr (?t\<lparr>word_at := word_at s, nextFree := 0\<rparr>))"
    by (rule restore_loop_eval [OF ready len]) (simp_all add: with_handlers_def)
  then show ?thesis
    by (simp add: removeAllSyscall_def Let_def unprotect_memory_def protect_memory_def
        write_cr0_forced_def with_handlers_def)
qed

text \<open>An entry that was not recorded is the 0 of the uninitialised array.\<close>

lemma add_entry_0:
  fixes s :: "('a) sysc_scheme"
  assumes "nextFree s = of_nat k" "k < MAX_FREE" "free_entries s ! k = 0" "mapped s (hacked_syscall_tbl s)"
  shows "\<exists>s'. add_syscall h s = Inr (0, s') \<and> word_at s' (ent (hacked_syscall_tbl s) 0) = h"
proof -
  let ?u = "s\<lparr>cr0 := cr0_reg s, cr0_reg := cr0_reg s AND NOT X86_CR0_WP\<rparr>"
  have k: "sint (of_nat k :: c_int) = int k"
    using assms(2) by (intro sint_of_nat_small) (simp add: MAX_FREE_def)
  have fe: "free_entry v (of_nat k) = Inr 0" if "free_entries v = free_entries s" for v :: "('a) sysc_scheme"
    using that assms(2,3) k by (simp add: free_entry_def)
  have "set_entry 0 h ?u = Inr (?u\<lparr>word_at := (word_at s)(ent (hacked_syscall_tbl s) 0 := h)\<rparr>)"
    using assms(4) by (simp add: set_entry_def store_def frame_simps ent_def)
  then show ?thesis
    using assms(1,2) k
    by (simp add: add_syscall_def Let_def unprotect_memory_def protect_memory_def write_cr0_forced_def fe)
qed

section \<open>The table as its client sees it\<close>

text \<open>A table of slots into which handlers are put one after the other and from which all are
  removed at once.  \<open>after es hs s\<close> is the state in which \<open>hs\<close> fill the first of the slots \<open>es\<close>
  that \<open>s\<close> has ready.\<close>

locale handler_table =
  fixes add :: "'h \<Rightarrow> 's \<Rightarrow> (c_int \<times> 's) res" and remove :: "'s \<Rightarrow> 's res"
    and ready :: "'s \<Rightarrow> nat list \<Rightarrow> bool" and after :: "nat list \<Rightarrow> 'h list \<Rightarrow> 's \<Rightarrow> 's"
    and restored :: "'s \<Rightarrow> 's"
  assumes add_law: "ready s es \<Longrightarrow> length hs < length es \<Longrightarrow>
      add h (after es hs s) = Inr (of_nat (es ! length hs), after es (hs @ [h]) s)"
    and remove_law: "ready s es \<Longrightarrow> length hs \<le> length es \<Longrightarrow>
      remove (after es hs s) = Inr (restored s)"
    and slot_law: "ready s es \<Longrightarrow> i \<in> set es \<Longrightarrow> i < 256"
begin

text \<open>The number of a slot is never the \<open>- 1\<close> that reports a full table.\<close>

lemma slot_number: "ready s es \<Longrightarrow> k < length es \<Longrightarrow> (of_nat (es ! k) :: c_int) \<noteq> - 1"
proof
  assume "ready s es" "k < length es" and eq: "(of_nat (es ! k) :: c_int) = - 1"
  then have "es ! k < 256" using slot_law nth_mem by blast
  then have "sint (of_nat (es ! k) :: c_int) = int (es ! k)" by (intro sint_of_nat_small) simp
  with eq show False by simp
qed

lemma add_then_remove:
  assumes "ready s es" and "length hs < length es"
  shows "rbind (add h (after es hs s)) (\<lambda>(r, s'). remove s') = Inr (restored s)"
  using assms by (simp add: add_law remove_law)

end

interpretation tbl: handler_table add_syscall removeAllSyscall free_ready with_handlers
  "\<lambda>s. s\<lparr>cr0 := cr0_reg s, nextFree := 0\<rparr>"
  by unfold_locales (auto simp: add_handler remove_handlers free_ready_def)

text \<open>Several handlers, one after the other.\<close>

fun add_all :: "c_ulong list \<Rightarrow> ('a) sysc_scheme \<Rightarrow> (c_int list \<times> ('a) sysc_scheme) res" where
  "add_all [] s = Inr ([], s)"
| "add_all (h # hs) s =
     rbind (add_syscall h s) (\<lambda>(r, s1). rbind (add_all hs s1) (\<lambda>(rs, s2). Inr (r # rs, s2)))"

lemma add_all_eval:
  assumes ready: "free_ready s es"
  shows "length gs + length hs \<le> length es \<Longrightarrow>
    add_all hs (with_handlers es gs s) =
      Inr (map of_nat (take (length hs) (drop (length gs) es)), with_handlers es (gs @ hs) s)"
proof (induction hs arbitrary: gs)
  case (Cons h hs)
  then have "length gs < length es" by simp
  moreover from this have "drop (length gs) es = es ! length gs # drop (Suc (length gs)) es"
    by (simp add: Cons_nth_drop_Suc)
  ultimately show ?case
    using Cons.IH [of "gs @ [h]"] Cons.prems by (simp add: tbl.add_law [OF ready])
qed simp

end
