(* ===== verification/TableProps.thy ===== *)
theory TableProps
  imports TableWrite
begin

text \<open>
  The properties of \<^verbatim>\<open>sysCall_Discovery.c\<close>: the search ends and finds the first table, the
  entries it offers are free, and how many handlers may be added.
\<close>

text \<open>C35: On page tables whose entries that lead to another table have bits 52 to 62 clear (see
  \<open>clean_path\<close>), the search stops at the lowest table between \<open>START\<close> and \<open>MAX_ADDR\<close> and records its
  address and the entry all free slots hold; if there is none it changes nothing.\<close>

theorem finder_finds_first:
  assumes "clean_tables s"
  shows "\<exists>s'. syscall_table_finder s = Inr s' \<and>
    (if \<exists>a. first_table s START a
     then first_table s START (hacked_syscall_tbl s') \<and>
          hacked_ni_syscall s' = word_at s (ent (hacked_syscall_tbl s') FIRST_NI_SYSCALL) \<and>
          word_at s' = word_at s
     else s' = s \<and> no_table s START MAX_ADDR)"
proof (cases "\<exists>a. first_table s START a")
  case True
  then obtain a where a: "first_table s START a" by blast
  with finder_finds [OF assms a] True show ?thesis by simp
next
  case False
  with finder_eval [OF assms] show ?thesis by auto
qed

theorem finder_finds_first_witness:
  "\<exists>s'. syscall_table_finder demo_memory = Inr s' \<and> hacked_syscall_tbl s' = START \<and>
     hacked_ni_syscall s' = ni_word"
proof -
  have "\<exists>a. first_table demo_memory START a" using demo_first by blast
  from finder_finds_first [OF demo_clean, unfolded if_P [OF this]] obtain s' where
    s: "syscall_table_finder demo_memory = Inr s'"
      "first_table demo_memory START (hacked_syscall_tbl s')"
      "hacked_ni_syscall s' = word_at demo_memory (ent (hacked_syscall_tbl s') FIRST_NI_SYSCALL)"
    by blast
  from s(2) demo_first have "hacked_syscall_tbl s' = START"
    by (meson first_table_def no_table_def not_less_iff_gr_or_eq)
  moreover have "word_at demo_memory (ent START FIRST_NI_SYSCALL) = ni_word"
    by (simp add: demo_mem FIRST_NI_SYSCALL_def)
  ultimately show ?thesis using s by auto
qed

text \<open>Asked for up to seven entries, \<^verbatim>\<open>foundFree_entries\<close> finds that many: it records the
  lowest indices whose entry is \<^verbatim>\<open>sys_ni_syscall\<close>, without writing to memory.\<close>

theorem foundFree_entries_found:
  assumes "clean_tables s" and "first_table s START a" and "length (free_entries s) = MAX_FREE"
    and "0 < sint num" and "sint num \<le> 7"
  shows "\<exists>s' es. foundFree_entries num s = Inr (num, s') \<and>
    es = take (nat (sint num)) (free_before s a) \<and>
    length es = nat (sint num) \<and> take (length es) (free_entries s') = map of_nat es \<and>
    hacked_syscall_tbl s' = a \<and> word_at s' = word_at s \<and> free_ready s' es"
  using foundFree_eval [OF assms] foundFree_ready [OF assms refl]
  by (simp add: free_ready_def)

theorem foundFree_entries_found_witness:
  "\<exists>s'. foundFree_entries 4 demo_memory = Inr (4, s') \<and>
     take 4 (free_entries s') = [134, 174, 182, 183]"
proof -
  have fe: "length (free_entries demo_memory) = MAX_FREE" by (simp add: demo_memory_def)
  from foundFree_entries_found [OF demo_clean demo_first fe, of 4] show ?thesis
    by (auto simp: demo_free_before eval_nat_numeral)
qed

text \<open>\<^verbatim>\<open>add_syscall\<close> does not count the entries that were found: with four found, four
  handlers go to free entries and a fifth replaces entry 0, the handler of \<^verbatim>\<open>read\<close>.\<close>

theorem fifth_handler_replaces_entry_0:
  assumes clean: "clean_tables s" and t: "first_table s START a"
    and start: "free_entries s = replicate MAX_FREE 0" "nextFree s = 0" and four: "length hs = 4"
  shows "\<exists>s1 rs s2 s3. foundFree_entries 4 s = Inr (4, s1) \<and> add_all hs s1 = Inr (rs, s2) \<and>
    (\<forall>r \<in> set rs. \<exists>i. r = of_nat i \<and> i \<in> set (free_before s a)) \<and>
    add_syscall h s2 = Inr (0, s3) \<and> word_at s3 (ent a 0) = h"
proof -
  let ?es = "take 4 (free_before s a)"
  let ?s1 = "(table_found a s)\<lparr>free_entries := record_from 0 ?es (free_entries s)\<rparr>"
  let ?s2 = "with_handlers ?es hs ?s1"
  have fe: "length (free_entries s) = MAX_FREE" by (simp add: start)
  have found: "foundFree_entries 4 s = Inr (4, ?s1)" using foundFree_eval [OF clean t fe, of 4] by simp
  have ready: "free_ready ?s1 ?es" and len: "length ?es = 4"
    using foundFree_ready [OF clean t fe, of 4 ?es] by simp_all
  have "with_handlers ?es [] ?s1 = ?s1" by (rule with_no_handlers) (simp add: start)
  then have added: "add_all hs ?s1 = Inr (map of_nat ?es, ?s2)"
    using add_all_eval [OF ready, of "[]" hs] len four by simp
  have m: "mapped ?s1 a" using first_table_mapped [OF clean t]
    by (simp add: frame_simps table_mapped_def ent_def) (metis add.right_neutral le0 mult_zero_left of_nat_0)
  have "free_entries ?s1 ! 4 = 0" using len by (simp add: record_from_def start nth_append MAX_FREE_def)
  then obtain s3 where "add_syscall h ?s2 = Inr (0, s3)" "word_at s3 (ent a 0) = h"
    using add_entry_0 [of ?s2 4 h] four m by (auto simp: with_handlers_def frame_simps MAX_FREE_def)
  with found added show ?thesis using set_take_subset [of 4 "free_before s a"] by fastforce
qed

theorem fifth_handler_replaces_entry_0_witness:
  "\<exists>s1 rs s2 s3. foundFree_entries 4 demo_memory = Inr (4, s1) \<and> add_all [1, 2, 3, 4] s1 = Inr (rs, s2) \<and>
     add_syscall 5 s2 = Inr (0, s3) \<and> word_at s3 (ent START 0) = 5"
proof -
  have s: "free_entries demo_memory = replicate MAX_FREE 0" "nextFree demo_memory = 0"
    by (simp_all add: demo_memory_def)
  from fifth_handler_replaces_entry_0 [OF demo_clean demo_first s, of "[1, 2, 3, 4]" 5]
  show ?thesis by (simp only: list.size) auto
qed

end
