(* ===== verification/DeviceNode.thy ===== *)
theory DeviceNode
  imports Prelude
begin

text \<open>
  \<^verbatim>\<open>charDev/charDev.c\<close>, registration: how \<^verbatim>\<open>devkoInit\<close> makes the status device visible and
  \<^verbatim>\<open>devkoExit\<close> takes it away.  The calls into the kernel are recorded in the order of the
  source, the assignment of \<^verbatim>\<open>class->devnode\<close> among them; what they answer is the record \<open>dev_env\<close> (\<open>mkdev\<close> is the macro \<^verbatim>\<open>MKDEV\<close> with minor
  number 0).  \<open>held\<close> counts what the calls take and give back.
\<close>

datatype class_ptr = NoClass | ErrClass | Class

datatype dcall =
    RegisterChrdev | UnregisterChrdev c_int | UnregisterRegion c_uint
  | ClassCreate | SetDevnode class_ptr | ClassDestroy class_ptr
  | DeviceCreate class_ptr c_uint | DeviceDestroy class_ptr c_uint

record devst =
  majorNum :: c_int
  devNo :: c_uint
  class_var :: class_ptr
  dlog :: "dcall list"

record dev_env =
  chrdev_answer :: c_int
  mkdev :: "c_int \<Rightarrow> c_uint"
  class_ok :: bool
  device_ok :: bool

definition dcall_log :: "dcall \<Rightarrow> devst \<Rightarrow> devst" where
  "dcall_log c d = d\<lparr>dlog := dlog d @ [c]\<rparr>"

text \<open>The mode is written only if the kernel asks for it.\<close>

definition dev_devnode :: "string \<Rightarrow> 16 word option \<Rightarrow> string \<times> 16 word option" where
  "dev_devnode dev_name mode =
     (''TAG_Data_Messaging'' @ ''/'' @ dev_name, case mode of None \<Rightarrow> None | Some _ \<Rightarrow> Some 292)"

definition devkoInit :: "dev_env \<Rightarrow> devst \<Rightarrow> c_int \<times> devst" where
  "devkoInit env d =
     (let d1 = (dcall_log RegisterChrdev d)\<lparr>majorNum := chrdev_answer env\<rparr>
      in if sint (majorNum d1) < 0 then (majorNum d1, d1)
      else let d2 = d1\<lparr>devNo := mkdev env (majorNum d1)\<rparr>;
               d3 = (dcall_log ClassCreate d2)\<lparr>class_var := if class_ok env then Class else ErrClass\<rparr>
      in if class_var d3 = ErrClass then (- 1, dcall_log (UnregisterRegion (devNo d3)) d3)
      else let d4 = dcall_log (DeviceCreate (class_var d3) (devNo d3))
                      (dcall_log (SetDevnode (class_var d3)) d3)
      in if \<not> device_ok env then
           (- 1, dcall_log (UnregisterRegion (devNo d4)) (dcall_log (ClassDestroy (class_var d4)) d4))
         else (0, d4))"

definition devkoExit :: "devst \<Rightarrow> devst" where
  "devkoExit d =
     (let d1 = dcall_log (UnregisterChrdev (majorNum d)) d;
          d2 = dcall_log (DeviceDestroy (class_var d1) (devNo d1)) d1;
          d3 = dcall_log (ClassDestroy (class_var d2)) d2
      in dcall_log (UnregisterChrdev (majorNum d3)) d3)"

section \<open>What is held\<close>

text \<open>Character device, class and device node, each taken once per creation.  A region given
  back by \<^verbatim>\<open>unregister_chrdev_region\<close> is not what \<^verbatim>\<open>register_chrdev\<close> takes.\<close>

fun held_by :: "dcall \<Rightarrow> int \<times> int \<times> int" where
  "held_by RegisterChrdev = (1, 0, 0)"
| "held_by (UnregisterChrdev m) = (- 1, 0, 0)"
| "held_by (UnregisterRegion d) = (0, 0, 0)"
| "held_by ClassCreate = (0, 1, 0)"
| "held_by (SetDevnode c) = (0, 0, 0)"
| "held_by (ClassDestroy c) = (0, - 1, 0)"
| "held_by (DeviceCreate c d) = (0, 0, 1)"
| "held_by (DeviceDestroy c d) = (0, 0, - 1)"

definition held :: "dcall list \<Rightarrow> int \<times> int \<times> int" where
  "held cs = (sum_list (map (fst \<circ> held_by) cs), sum_list (map (fst \<circ> snd \<circ> held_by) cs),
     sum_list (map (snd \<circ> snd \<circ> held_by) cs))"

text \<open>The class an operation is handed is one the kernel gave.\<close>

fun class_arg_ok :: "dcall \<Rightarrow> bool" where
  "class_arg_ok (SetDevnode c) = (c = Class)"
| "class_arg_ok (ClassDestroy c) = (c = Class)"
| "class_arg_ok (DeviceCreate c d) = (c = Class)"
| "class_arg_ok (DeviceDestroy c d) = (c = Class)"
| "class_arg_ok _ = True"

lemma devkoInit_ok:
  assumes "0 \<le> sint (chrdev_answer env)" "class_ok env" "device_ok env"
  shows "devkoInit env d =
    (0, d\<lparr>majorNum := chrdev_answer env, devNo := mkdev env (chrdev_answer env), class_var := Class,
          dlog := dlog d @ [RegisterChrdev, ClassCreate, SetDevnode Class,
            DeviceCreate Class (mkdev env (chrdev_answer env))]\<rparr>)"
  using assms by (simp add: devkoInit_def Let_def dcall_log_def not_less [symmetric])

lemma devkoExit_log:
  "dlog (devkoExit d) = dlog d @ [UnregisterChrdev (majorNum d), DeviceDestroy (class_var d) (devNo d),
     ClassDestroy (class_var d), UnregisterChrdev (majorNum d)]"
  "majorNum (devkoExit d) = majorNum d" "class_var (devkoExit d) = class_var d"
  "devNo (devkoExit d) = devNo d"
  by (simp_all add: devkoExit_def Let_def dcall_log_def)

lemma devkoInit_class:
  "class_var (snd (devkoInit env d)) = Class \<Longrightarrow> class_var d \<noteq> Class \<Longrightarrow>
   0 \<le> sint (chrdev_answer env) \<and> class_ok env"
  by (auto simp: devkoInit_def Let_def dcall_log_def split: if_splits)

text \<open>After a registration that got no class \<open>devkoExit\<close> still destroys what was not created.\<close>

lemma devkoExit_after_failure:
  assumes "class_var d = NoClass" and "\<not> (0 \<le> sint (chrdev_answer env) \<and> class_ok env)"
  shows "\<exists>c \<in> set (dlog (devkoExit (snd (devkoInit env d)))). \<not> class_arg_ok c"
  using assms devkoInit_class [of env d] by (auto simp: devkoExit_log)

end
