(* ===== verification/ModuleMain.thy ===== *)
theory ModuleMain
  imports TableWrite DeviceNode Boot
begin

text \<open>
  \<^verbatim>\<open>main.c\<close>: loading and unloading the module.  \<open>tag_module\<close> puts together the system call
  table, the state of the services, the registration of the device and the parameter
  \<^verbatim>\<open>sysCallNum\<close>.  The record \<open>load_env\<close> is what the kernel answers: the memory for the table
  of services, the addresses \<open>entry_ptr 0\<close> to \<open>entry_ptr 3\<close> of the functions behind
  \<^verbatim>\<open>tag_get\<close>, \<^verbatim>\<open>tag_send\<close>, \<^verbatim>\<open>tag_receive\<close> and \<^verbatim>\<open>tag_ctl\<close>, and the device registration.
\<close>

record tag_module =
  sct :: sysc
  kst :: kstate
  devs :: devst
  sysCallNum :: "c_int list"

record load_env =
  table_memory :: "addr option list option"
  entry_ptr :: "nat \<Rightarrow> c_ulong"
  registration :: dev_env

text \<open>The macro returns from the function that uses it when the table is full.\<close>

definition exposeNewSyscall :: "c_ulong \<Rightarrow> nat \<Rightarrow> tag_module \<Rightarrow> (rv option \<times> tag_module) res" where
  "exposeNewSyscall sysPtr num m =
     rbind (add_syscall sysPtr (sct m)) (\<lambda>(r, s).
     let m' = m\<lparr>sct := s, sysCallNum := (sysCallNum m)[num := r]\<rparr>
     in if sysCallNum m' ! num = - 1 then Inr (Some (Inl ENOMEM), m') else Inr (None, m'))"

text \<open>The uses of the macro, one after the other.\<close>

fun expose_all :: "load_env \<Rightarrow> nat list \<Rightarrow> tag_module \<Rightarrow> (rv option \<times> tag_module) res" where
  "expose_all env [] m = Inr (None, m)"
| "expose_all env (n # ns) m =
     rbind (exposeNewSyscall (entry_ptr env n) n m) (\<lambda>(r, m').
     case r of Some e \<Rightarrow> Inr (Some e, m') | None \<Rightarrow> expose_all env ns m')"

definition register_device :: "load_env \<Rightarrow> tag_module \<Rightarrow> tag_module" where
  "register_device env m = m\<lparr>devs := snd (devkoInit (registration env) (devs m))\<rparr>"

definition init_module_Default :: "load_env \<Rightarrow> tag_module \<Rightarrow> (rv \<times> tag_module) res" where
  "init_module_Default env m =
     rbind (foundFree_entries 4 (sct m)) (\<lambda>(freeFound, s).
     let m1 = m\<lparr>sct := s\<rparr>
     in if 0 < sint freeFound then
          let (error, k) = initService (table_memory env) (kst m1); m2 = m1\<lparr>kst := k\<rparr>
          in if error \<noteq> 0 then Inr (Inr error, m2)
          else rbind (expose_all env [0, 1, 2, 3] m2) (\<lambda>(r, m3).
            case r of Some e \<Rightarrow> Inr (e, m3) | None \<Rightarrow> Inr (Inr 0, register_device env m3))
        else Inr (Inr 0, register_device env m1))"

definition cleanup_module_Default :: "tag_module \<Rightarrow> tag_module res" where
  "cleanup_module_Default m =
     rbind (removeAllSyscall (sct m)) (\<lambda>s.
     Inr (m\<lparr>sct := s, devs := devkoExit (devs m), kst := unmountRCU (kst m)\<rparr>))"

section \<open>Loading\<close>

text \<open>What a module that is not loaded looks like.\<close>

definition fresh_module :: "tag_module \<Rightarrow> bool" where
  "fresh_module m \<longleftrightarrow> clean_tables (sct m) \<and> nextFree (sct m) = 0 \<and> hacked_syscall_tbl (sct m) = 0 \<and>
     length (free_entries (sct m)) = MAX_FREE \<and> length (sysCallNum m) = 4 \<and> class_var (devs m) = NoClass"

definition chosen_entries :: "sysc \<Rightarrow> c_ulong \<Rightarrow> nat list" where
  "chosen_entries s a = take 4 (free_before s a)"

text \<open>The state of the table after the search, with its four free entries recorded.\<close>

definition searched :: "sysc \<Rightarrow> c_ulong \<Rightarrow> sysc" where
  "searched s a = (table_found a s)\<lparr>free_entries := record_from 0 (chosen_entries s a) (free_entries s)\<rparr>"

lemma searched:
  assumes "fresh_module m" and "first_table (sct m) START a"
  shows "foundFree_entries 4 (sct m) = Inr (4, searched (sct m) a)"
    and "length (chosen_entries (sct m) a) = 4"
    and "free_ready (searched (sct m) a) (chosen_entries (sct m) a)"
  using foundFree_eval [of "sct m" a 4] foundFree_ready [of "sct m" a 4 "chosen_entries (sct m) a"] assms
  by (simp_all add: fresh_module_def searched_def chosen_entries_def)

text \<open>Handlers \<open>0\<close> to \<open>n - 1\<close> exposed, starting from \<open>m\<close> with the slots \<open>es\<close>.\<close>

definition exposed :: "load_env \<Rightarrow> nat list \<Rightarrow> nat \<Rightarrow> tag_module \<Rightarrow> tag_module" where
  "exposed env es n m =
     m\<lparr>sct := with_handlers es (map (entry_ptr env) [0..<n]) (sct m),
       sysCallNum := map of_nat (take n es) @ drop n (sysCallNum m)\<rparr>"

lemma expose_step:
  assumes "free_ready (sct m) es" and "n < length es" and "n < length (sysCallNum m)"
  shows "exposeNewSyscall (entry_ptr env n) n (exposed env es n m) = Inr (None, exposed env es (Suc n) m)"
proof -
  have "add_syscall (entry_ptr env n) (sct (exposed env es n m)) =
      Inr (of_nat (es ! n), with_handlers es (map (entry_ptr env) [0..<Suc n]) (sct m))"
    using tbl.add_law [OF assms(1), of "map (entry_ptr env) [0..<n]" "entry_ptr env n"] assms(2)
    by (simp add: exposed_def)
  moreover have "(map of_nat (take n es) @ drop n (sysCallNum m))[n := of_nat (es ! n)] =
      map of_nat (take (Suc n) es) @ drop (Suc n) (sysCallNum m)"
    using assms(2,3) by (simp add: take_Suc_conv_app_nth list_update_append Cons_nth_drop_Suc [symmetric])
  ultimately show ?thesis
    using tbl.slot_number [OF assms(1,2)] assms(2,3)
    by (simp add: exposeNewSyscall_def Let_def exposed_def nth_append)
qed

lemma expose_four:
  assumes "free_ready (sct m) es" and "length es = 4" and "length (sysCallNum m) = 4" "nextFree (sct m) = 0"
  shows "expose_all env [0, 1, 2, 3] m = Inr (None, exposed env es 4 m)"
proof -
  have "exposed env es 0 m = m" using assms(4) by (simp add: exposed_def with_no_handlers)
  then show ?thesis
    using expose_step [OF assms(1), of 0 env] expose_step [OF assms(1), of 1 env]
      expose_step [OF assms(1), of 2 env] expose_step [OF assms(1), of 3 env] assms(2,3)
    by (simp add: numeral_eq_Suc)
qed

lemma init_eval:
  assumes fresh: "fresh_module m" and t: "first_table (sct m) START a"
  shows "init_module_Default env m =
    Inr (Inr 0, register_device env (exposed env (chosen_entries (sct m) a) 4
      (m\<lparr>sct := searched (sct m) a, kst := snd (initService (table_memory env) (kst m))\<rparr>)))"
proof -
  note S = searched [OF fresh t]
  let ?m = "m\<lparr>sct := searched (sct m) a, kst := snd (initService (table_memory env) (kst m))\<rparr>"
  have "expose_all env [0, 1, 2, 3] ?m = Inr (None, exposed env (chosen_entries (sct m) a) 4 ?m)"
    by (rule expose_four)
      (use S fresh in \<open>simp_all add: fresh_module_def searched_def\<close>)
  then show ?thesis
    by (simp add: init_module_Default_def S(1) Let_def initService_def del: expose_all.simps)
qed

text \<open>No table in memory: the module stays loaded, with nothing but its device.\<close>

lemma init_no_table:
  assumes fresh: "fresh_module m" and none: "no_table (sct m) START MAX_ADDR"
  shows "init_module_Default env m = Inr (Inr 0, register_device env m)"
proof -
  have "\<not> first_table (sct m) START b" for b
    using none by (auto simp: no_table_def first_table_def)
  then have "syscall_table_finder (sct m) = Inr (sct m)"
    using finder_eval [of "sct m"] fresh by (auto simp: fresh_module_def)
  then show ?thesis using fresh
    by (simp add: init_module_Default_def foundFree_entries_def fresh_module_def)
qed

section \<open>Unloading\<close>

lemma cleanup_eval:
  assumes fresh: "fresh_module m" and t: "first_table (sct m) START a"
  shows "\<exists>m1 m2. init_module_Default env m = Inr (Inr 0, m1) \<and> cleanup_module_Default m1 = Inr m2 \<and>
    sct m2 = (searched (sct m) a)\<lparr>cr0 := cr0_reg (sct m), nextFree := 0\<rparr> \<and>
    tagServices (kst m2) = None \<and> devs m2 = devkoExit (snd (devkoInit (registration env) (devs m)))"
proof -
  note S = searched [OF fresh t]
  let ?hs = "map (entry_ptr env) [0..<4]" and ?es = "chosen_entries (sct m) a"
  have "removeAllSyscall (with_handlers ?es ?hs (searched (sct m) a)) =
      Inr ((searched (sct m) a)\<lparr>cr0 := cr0_reg (sct m), nextFree := 0\<rparr>)"
    using tbl.remove_law [OF S(3), of ?hs] S(2) by (simp add: searched_def)
  then show ?thesis
    by (simp add: init_eval [OF fresh t] cleanup_module_Default_def exposed_def register_device_def
        unmountRCU_def)
qed

section \<open>The table of a loaded module\<close>

lemma with_handlers_entries:
  assumes "free_ready s es" and "length hs \<le> length es" and "n < length hs"
  shows "word_at (with_handlers es hs s) (ent (hacked_syscall_tbl s) (es ! n)) = hs ! n"
  unfolding with_handlers_def using assms
  by (simp add: table_with_at free_ready_def)

lemma with_handlers_other:
  assumes "\<And>i. i \<in> set es \<Longrightarrow> ent (hacked_syscall_tbl s) i \<noteq> x"
  shows "word_at (with_handlers es hs s) x = word_at s x"
  unfolding with_handlers_def
  using assms by (auto intro!: table_with_other dest: set_zip_leftD)

text \<open>What the module looks like once it is loaded.\<close>

lemma loaded:
  assumes fresh: "fresh_module m" and t: "first_table (sct m) START a"
  obtains m1 where "init_module_Default env m = Inr (Inr 0, m1)"
    "hacked_syscall_tbl (sct m1) = a" "sysCallNum m1 = map of_nat (chosen_entries (sct m) a)"
    "\<And>n. n < 4 \<Longrightarrow> word_at (sct m1) (ent a (chosen_entries (sct m) a ! n)) = entry_ptr env n"
    "\<And>x. (\<And>i. i \<in> set (chosen_entries (sct m) a) \<Longrightarrow> ent a i \<noteq> x) \<Longrightarrow>
       word_at (sct m1) x = word_at (sct m) x"
    "kst m1 = snd (initService (table_memory env) (kst m))"
proof -
  let ?es = "chosen_entries (sct m) a" and ?hs = "map (entry_ptr env) [0..<4]"
  note S = searched [OF fresh t]
  have tbl_a: "hacked_syscall_tbl (searched (sct m) a) = a" by (simp add: searched_def)
  have e: "word_at (with_handlers ?es ?hs (searched (sct m) a)) (ent a (?es ! n)) = entry_ptr env n"
    if "n < 4" for n
    using with_handlers_entries [OF S(3), of ?hs n] S(2) that by (simp add: tbl_a)
  have o: "word_at (with_handlers ?es ?hs (searched (sct m) a)) x = word_at (sct m) x"
    if "\<And>i. i \<in> set ?es \<Longrightarrow> ent a i \<noteq> x" for x
    using with_handlers_other [of ?es "searched (sct m) a" x ?hs] that
    by (simp add: tbl_a) (simp add: searched_def)
  have four: "length (sysCallNum m) = 4" using fresh by (simp add: fresh_module_def)
  show thesis
    by (rule that [OF init_eval [OF fresh t]])
      (use e o S(2) four tbl_a in \<open>simp_all add: register_device_def exposed_def with_handlers_def\<close>)
qed

end
