(* ===== verification/UserLib.thy ===== *)
theory UserLib
  imports Errno Decimal
begin

text \<open>
  \<^verbatim>\<open>user/interface/interface.c\<close>: the library user programs link.  It reads the numbers of the
  four system calls from the module parameter \<^verbatim>\<open>sysCallNum\<close>, issues the calls with
  \<^verbatim>\<open>syscall(2)\<close> and prints what an error number means.  Strings are C strings without their
  terminator; a printed line is a \<open>line\<close>, marked \<open>Unexpected\<close> when it comes from the default
  branch of a switch.
\<close>

section \<open>Functions of the C library\<close>

definition is_space :: "char \<Rightarrow> bool" where
  "is_space c \<longleftrightarrow> c \<in> {CHR 0x20, CHR 0x09, CHR 0x0A, CHR 0x0B, CHR 0x0C, CHR 0x0D}"

definition digit_val :: "char \<Rightarrow> nat option" where
  "digit_val c = (let n = of_char c :: nat in if 48 \<le> n \<and> n \<le> 57 then Some (n - 48) else None)"

text \<open>The value of the digits at the front of a string, after those already read.\<close>

fun read_digits :: "nat \<Rightarrow> string \<Rightarrow> nat" where
  "read_digits acc [] = acc"
| "read_digits acc (c # cs) =
     (case digit_val c of None \<Rightarrow> acc | Some d \<Rightarrow> read_digits (acc * 10 + d) cs)"

definition signed_value :: "string \<Rightarrow> int" where
  "signed_value s = (case s of
     [] \<Rightarrow> 0
   | c # cs \<Rightarrow> if c = CHR ''-'' then - int (read_digits 0 cs)
               else if c = CHR ''+'' then int (read_digits 0 cs) else int (read_digits 0 s))"

text \<open>The standard leaves \<^verbatim>\<open>atoi\<close> undefined on a value that is not an \<^verbatim>\<open>int\<close>.\<close>

definition atoi :: "string \<Rightarrow> c_int res" where
  "atoi s = (let v = signed_value (dropWhile is_space s)
     in if - (2 ^ 31) \<le> v \<and> v < 2 ^ 31 then Inr (of_int v) else Inl Fault)"

text \<open>\<^verbatim>\<open>strtok(s, ",")\<close>: the token and where the next call starts.\<close>

definition strtok :: "string \<Rightarrow> (string \<times> string) option" where
  "strtok s = (case dropWhile (\<lambda>c. c = CHR '','') s of
     [] \<Rightarrow> None
   | t \<Rightarrow> Some (takeWhile (\<lambda>c. c \<noteq> CHR '','') t, drop 1 (dropWhile (\<lambda>c. c \<noteq> CHR '','') t)))"

text \<open>\<^verbatim>\<open>fgets(buf, n, fp)\<close>: the first line with its newline, at most \<open>n - 1\<close> characters.\<close>

definition fgets :: "nat \<Rightarrow> string \<Rightarrow> string" where
  "fgets n text = take (n - 1)
     (takeWhile (\<lambda>c. c \<noteq> CHR 0x0A) text @ take 1 (dropWhile (\<lambda>c. c \<noteq> CHR 0x0A) text))"

section \<open>Reading the numbers of the calls\<close>

fun convert_loop ::
  "nat \<Rightarrow> (string \<times> string) option \<Rightarrow> nat \<Rightarrow> c_int list \<Rightarrow> (nat \<times> c_int list) res" where
  "convert_loop 0 token i numArr = Inr (i, numArr)"
| "convert_loop (Suc limit) token i numArr =
     (case token of
        None \<Rightarrow> Inr (i, numArr)
      | Some (t, rest) \<Rightarrow>
          rbind (atoi t) (\<lambda>n.
          if i < length numArr then convert_loop limit (strtok rest) (Suc i) (numArr[i := n])
          else Inl Fault))"

definition convertStrtoArr :: "string \<Rightarrow> c_int list \<Rightarrow> c_int \<Rightarrow> (nat \<times> c_int list) res" where
  "convertStrtoArr str numArr limit = convert_loop (nat (sint limit)) (strtok str) 0 numArr"

text \<open>A program that calls the library either goes on or prints why not and exits.\<close>

datatype 'a prog = Exited "string list" | Returns 'a

definition not_initialised :: string where
  "not_initialised = ''System not jet initialize!!'' @ newline @ '' Exiting...'' @ newline"

definition index_line :: "c_int list \<Rightarrow> nat \<Rightarrow> string" where
  "index_line idx i =
     ''sysCallIndex['' @ show_nat i @ '']='' @ show_int (sint (idx ! i)) @ '' --> ''"

text \<open>\<open>file\<close> is the parameter file: the error of \<^verbatim>\<open>fopen\<close> (which \<^verbatim>\<open>perror\<close> also reports on the
  error stream), or its text.  The answer of
  \<^verbatim>\<open>fgets\<close> is not tested: of an empty file the buffer is read as it was.\<close>

definition initTBDE ::
  "errno + string \<Rightarrow> c_int list \<Rightarrow> (unit prog \<times> c_int list \<times> string list) res" where
  "initTBDE file sysCallIndex = (case file of
     Inl e \<Rightarrow> Inr (Exited
       (if e = ENOENT then [''Please, mound the module on the kernel:'' @ newline @ ''>>'' @ [CHR 0x09] @
         ''make load'' @ newline] else []), sysCallIndex, [])
   | Inr text \<Rightarrow>
       if text = [] then Inl Fault
       else rbind (convertStrtoArr (fgets 64 text) sysCallIndex 4) (\<lambda>(found, idx).
         Inr (Returns (), idx, map (index_line idx) [0..<found] @ [''END'' @ newline])))"

section \<open>The calls\<close>

text \<open>\<^verbatim>\<open>syscall(2)\<close> is the parameter \<open>sys\<close>: what the kernel answers to the call of a number.
  The library hands the answer on.\<close>

datatype request =
    GetR c_int c_int c_int | SendR c_int c_int "byte list option" size_t
  | ReceiveR c_int c_int size_t | CtlR c_int c_int

type_synonym 'r syscalls = "c_int \<Rightarrow> request \<Rightarrow> 'r"

definition tag_get_lib :: "'r syscalls \<Rightarrow> c_int list \<Rightarrow> c_int \<Rightarrow> c_int \<Rightarrow> c_int \<Rightarrow> 'r prog" where
  "tag_get_lib sys idx k command permission =
     (if idx ! 0 \<noteq> 0 then Returns (sys (idx ! 0) (GetR k command permission)) else Exited [not_initialised])"

definition tag_send_lib ::
  "'r syscalls \<Rightarrow> c_int list \<Rightarrow> c_int \<Rightarrow> c_int \<Rightarrow> byte list option \<Rightarrow> size_t \<Rightarrow> 'r prog" where
  "tag_send_lib sys idx tag level buffer sz =
     (if idx ! 1 \<noteq> 0 then Returns (sys (idx ! 1) (SendR tag level buffer sz)) else Exited [not_initialised])"

definition tag_receive_lib :: "'r syscalls \<Rightarrow> c_int list \<Rightarrow> c_int \<Rightarrow> c_int \<Rightarrow> size_t \<Rightarrow> 'r prog" where
  "tag_receive_lib sys idx tag level sz =
     (if idx ! 2 \<noteq> 0 then Returns (sys (idx ! 2) (ReceiveR tag level sz)) else Exited [not_initialised])"

definition tag_ctl_lib :: "'r syscalls \<Rightarrow> c_int list \<Rightarrow> c_int \<Rightarrow> c_int \<Rightarrow> 'r prog" where
  "tag_ctl_lib sys idx tag command =
     (if idx ! 3 \<noteq> 0 then Returns (sys (idx ! 3) (CtlR tag command)) else Exited [not_initialised])"

section \<open>What an error means\<close>

text \<open>The accented letters of the messages are UTF-8.\<close>

datatype line = Explain string | Unexpected string

definition u_grave :: string where "u_grave = [CHR 0xC3, CHR 0xB9]"
definition a_grave :: string where "a_grave = [CHR 0xC3, CHR 0xA0]"
definition num :: "c_int \<Rightarrow> string" where "num x = show_int (sint x)"
definition num_errno :: "errno \<Rightarrow> string" where "num_errno e = show_int (errno_val e)"

text \<open>The case \<^verbatim>\<open>EFAULT\<close> has no \<^verbatim>\<open>break\<close>.\<close>

definition get_create_perror :: "errno \<Rightarrow> c_int \<Rightarrow> line list" where
  "get_create_perror e keyAsk =
     (let dflt = Unexpected (''[tag_get] CREATE , Unexpected error code return: '' @ num_errno e @ newline)
      in case e of
        ETOOMANYREFS \<Rightarrow> [Explain (''[tag_get] CREATE key='' @ num keyAsk @
           '', raggiunto il numero massimo di TAG_SERVICES'' @ newline)]
      | EBADR \<Rightarrow> [Explain (''[tag_get] CREATE key='' @ num keyAsk @ '', chiave gi'' @ a_grave @
           '' in uso'' @ newline)]
      | EFAULT \<Rightarrow> [Explain (''[tag_get] CREATE key='' @ num keyAsk @
           '', Errore nella creazione del TAG_SERVICE'' @ newline), dflt]
      | _ \<Rightarrow> [dflt])"

definition get_open_perror :: "errno \<Rightarrow> c_int \<Rightarrow> line list" where
  "get_open_perror e keyAsk = (case e of
     EBADSLT \<Rightarrow> [Explain (''[tag_get] OPEN @key='' @ num keyAsk @
       '', la chiave si riferisce ad un TAG_Service privato'' @ newline)]
   | EBADRQC \<Rightarrow> [Explain (''[tag_get] OPEN @key='' @ num keyAsk @ '', permission non valida'' @ newline)]
   | ENOMSG \<Rightarrow> [Explain (''[tag_get] OPEN @key='' @ num keyAsk @ '', chiave non trovata'' @ newline)]
   | _ \<Rightarrow> [Unexpected (''[tag_get] OPEN , Unexpected error code return: '' @ num_errno e @ newline)])"

definition tagGet_perror :: "errno \<Rightarrow> c_int \<Rightarrow> c_int \<Rightarrow> line list" where
  "tagGet_perror e keyAsk commandAsk = (case e of
     ENOSYS \<Rightarrow> [Explain (''[tag_get] sysCall non pi'' @ u_grave @ '' presente'' @ newline)]
   | EBADRQC \<Rightarrow> [Explain (''[tag_get] Parametro permission con valore non ammesso'' @ newline)]
   | EILSEQ \<Rightarrow> [Explain (''[tag_get] Comando non valido :'' @ num commandAsk @ newline)]
   | _ \<Rightarrow>
       if commandAsk = CREATE then get_create_perror e keyAsk
       else if commandAsk = OPEN then get_open_perror e keyAsk
       else [Unexpected (''[tag_get] error, Unexpected error code return: '' @ num_errno e @ newline)])"

definition tagSend_perror :: "errno \<Rightarrow> c_int \<Rightarrow> line list" where
  "tagSend_perror e tag = (case e of
     EXFULL \<Rightarrow> [Explain (''[tag_send] @tag='' @ num tag @
       '', Buffer troppo grande(>MAX_BUF_SIZE) o non specificato'' @ newline)]
   | ENODATA \<Rightarrow> [Explain (''[tag_send] @tag='' @ num tag @
       '', Problema nella trasmissione al modulo kernel'' @ newline)]
   | ENOMSG \<Rightarrow> [Explain (''[tag_send] @tag='' @ num tag @ '', Tag non trovato'' @ newline)]
   | EBADRQC \<Rightarrow> [Explain (''[tag_send] @tag='' @ num tag @ '', Permission invalid'' @ newline)]
   | EBADSLT \<Rightarrow> [Explain (''[tag_send] @tag='' @ num tag @
       '', livello richiesto > livello massimo'' @ newline)]
   | ENOSYS \<Rightarrow> [Explain (''[tag_send] sysCall non pi'' @ u_grave @ '' presente'' @ newline)]
   | EILSEQ \<Rightarrow> [Explain (''[tag_send] @tag='' @ num tag @ '', Command not valid'' @ newline)]
   | EBADMSG \<Rightarrow> [Explain (''[tag_send] @tag='' @ num tag @ '' Errore nella list-replace'' @ newline)]
   | _ \<Rightarrow> [Unexpected (''[tag_send] error, Unexpected error code return: '' @ num_errno e @ newline)])"

definition tagRecive_perror :: "errno \<Rightarrow> c_int \<Rightarrow> line list" where
  "tagRecive_perror e tag = (case e of
     EXFULL \<Rightarrow> [Explain (''[tag_receive] @tag='' @ num tag @
       '', Buffer troppo grande (> MAX_BUF_SIZE), o non presente'' @ newline)]
   | ENOMSG \<Rightarrow> [Explain (''[tag_receive] @tag='' @ num tag @ '', Tag non trovato'' @ newline)]
   | EBADRQC \<Rightarrow> [Explain (''[tag_receive] @tag='' @ num tag @
       '', Permessi non validi per eseguire l'' @ [CHR 0x27] @ ''operazione'' @ newline)]
   | EBADSLT \<Rightarrow> [Explain (''[tag_receive] @tag='' @ num tag @
       '', livello richiesto > livello massimo'' @ newline)]
   | ERESTART \<Rightarrow> [Explain (''[tag_receive] @tag='' @ num tag @
       '', thread svegliato da un segnale'' @ newline)]
   | EUCLEAN \<Rightarrow> [Explain (''[tag_receive] @tag='' @ num tag @
       '' error, thread svegliato dal comando AWAKE_ALL'' @ newline)]
   | ENOSYS \<Rightarrow> [Explain (''[tag_receive] sysCall non pi'' @ u_grave @ '' presente'' @ newline)]
   | EILSEQ \<Rightarrow> [Explain (''[tag_receive] @tag='' @ num tag @ '', comando non valido'' @ newline)]
   | _ \<Rightarrow> [Unexpected (''[tag_receive] error, Unexpected error code return: '' @ num_errno e @ newline)])"

definition ctl_awake_perror :: "errno \<Rightarrow> c_int \<Rightarrow> line list" where
  "ctl_awake_perror e tag = (case e of
     ENOMSG \<Rightarrow> [Explain (''[tag_ctl] TBDE_AWAKE_ALL @tag='' @ num tag @
       '', Niente da risvegliare'' @ newline)]
   | EBADRQC \<Rightarrow> [Explain (''[tag_ctl] TBDE_AWAKE_ALL @tag='' @ num tag @
       '', Permessi non validi per eseguire l'' @ [CHR 0x27] @ ''operazione'' @ newline)]
   | _ \<Rightarrow> [Unexpected (''[tag_ctl] TBDE_AWAKE_ALL, Unexpected error code return: '' @ num_errno e @
       newline)])"

definition ctl_remove_perror :: "errno \<Rightarrow> c_int \<Rightarrow> line list" where
  "ctl_remove_perror e tag = (case e of
     ENOSR \<Rightarrow> [Explain (''[tag_ctl] TBDE_REMOVE @tag='' @ num tag @ '',  TAG ID < 0'' @ newline)]
   | EBADE \<Rightarrow> [Explain (''[tag_ctl] TBDE_REMOVE @tag='' @ num tag @
       '', Permessi non validi per eseguire l'' @ [CHR 0x27] @ ''operazione'' @ newline)]
   | EADDRINUSE \<Rightarrow> [Explain (''[tag_ctl] TBDE_REMOVE @tag='' @ num tag @
       '', Reader in attesa in qualche livello'' @ newline)]
   | ENODATA \<Rightarrow> [Explain (''[tag_ctl] TBDE_REMOVE @tag='' @ num tag @ '', Niente da rimuovere'' @ newline)]
   | _ \<Rightarrow> [Unexpected (''[tag_ctl] TBDE_REMOVE @tag='' @ num tag @
       '', Unexpected error code return: '' @ num_errno e @ newline)])"

definition tagCtl_perror :: "errno \<Rightarrow> c_int \<Rightarrow> c_int \<Rightarrow> line list" where
  "tagCtl_perror e tag commandAsk =
     (if e = EILSEQ then [Explain (''[tag_ctl] error, comando non valido:'' @ num commandAsk @ newline)]
      else case e of
        ENOSYS \<Rightarrow> [Explain (''[tag_ctl] sysCall removed'' @ newline)]
      | ENOSR \<Rightarrow> [Explain (''[tag_ctl] error, TAG ID < 0'' @ newline)]
      | EILSEQ \<Rightarrow> [Explain (''[tag_ctl] error, comando non valido:'' @ num commandAsk @ '' '' @ newline)]
      | _ \<Rightarrow>
          if commandAsk = AWAKE_ALL then ctl_awake_perror e tag
          else if commandAsk = REMOVE then ctl_remove_perror e tag
          else [Unexpected (''[tag_ctl] error, Unexpected error code return: '' @ num_errno e @ newline)])"

end
