(* ===== verification/UserParse.thy ===== *)
theory UserParse
  imports UserLib
begin

text \<open>
  The user library reads back what the kernel prints: \<open>param_text\<close> is the text of an array
  parameter as sysfs documents it, the numbers separated by commas and a newline, and
  \<^verbatim>\<open>initTBDE\<close> recovers the array from it.
\<close>

section \<open>Numbers\<close>

lemma digit_val_char [simp]: "n < 10 \<Longrightarrow> digit_val (char_of (48 + n)) = Some n"
  by (simp add: digit_val_def Let_def)

definition ends_number :: "string \<Rightarrow> bool" where
  "ends_number s \<longleftrightarrow> (case s of [] \<Rightarrow> True | c # _ \<Rightarrow> digit_val c = None)"

lemma read_digits_end: "ends_number s \<Longrightarrow> read_digits acc s = acc"
  by (cases s) (simp_all add: ends_number_def)

lemma read_show_digits:
  "n < f \<Longrightarrow> read_digits acc (show_digits f n @ s) =
     read_digits (acc * 10 ^ length (show_digits f n) + n) s"
proof (induction f arbitrary: n s)
  case (Suc f)
  show ?case
  proof (cases "n < 10")
    case False
    then have "n div 10 < f" using Suc.prems by simp
    from Suc.IH [OF this, of "char_of (48 + n mod 10) # s"] False show ?thesis
      by (simp add: algebra_simps)
  qed simp
qed simp

lemma read_show_nat: "ends_number s \<Longrightarrow> read_digits 0 (show_nat n @ s) = n"
  by (simp add: show_nat_def read_show_digits read_digits_end)

lemma show_nat_first: "\<exists>c cs. show_nat n = c # cs \<and> 48 \<le> (of_char c :: nat) \<and> (of_char c :: nat) \<le> 57"
proof (cases "show_nat n")
  case Nil
  then show ?thesis using show_digits_length(1) [of "Suc n" n] by (simp add: show_nat_def)
next
  case (Cons c cs)
  with show_nat_chars [of c n] show ?thesis by simp
qed

lemma signed_value_show: "ends_number s \<Longrightarrow> signed_value (show_int i @ s) = i"
proof (cases "i < 0")
  case True
  moreover assume "ends_number s"
  ultimately show ?thesis by (simp add: signed_value_def show_int_def read_show_nat)
next
  case False
  moreover assume e: "ends_number s"
  moreover obtain c cs where c: "show_nat (nat i) = c # cs" "48 \<le> (of_char c :: nat)"
    using show_nat_first by blast
  moreover have "read_digits 0 (show_nat (nat i) @ s) = nat i" by (rule read_show_nat [OF e])
  moreover have "c \<noteq> CHR ''-''" "c \<noteq> CHR ''+''" using c(2) by auto
  ultimately show ?thesis by (simp add: signed_value_def show_int_def)
qed

lemma space_not_number: "c \<in> set (show_int i) \<Longrightarrow> \<not> is_space c"
  using show_int_chars [of c i] by (auto simp: is_space_def)

lemma comma_not_number: "c \<in> set (show_int i) \<Longrightarrow> c \<noteq> CHR '',''"
  using show_int_chars [of c i] by auto

lemma newline_not_number: "c \<in> set (show_int i) \<Longrightarrow> c \<noteq> CHR 0x0A"
  using show_int_chars [of c i] by auto

lemma show_int_nonempty: "show_int i \<noteq> []"
  using show_int_length(1) [of i] by auto

lemma atoi_show: "ends_number s \<Longrightarrow> atoi (show_int (sint x) @ s) = Inr x"
proof -
  assume e: "ends_number s"
  have d: "dropWhile is_space (show_int (sint x) @ s) = show_int (sint x) @ s"
    using space_not_number [of "hd (show_int (sint x))" "sint x"] show_int_nonempty [of "sint x"]
    by (cases "show_int (sint x)") auto
  have "- (2 ^ 31) \<le> sint x \<and> sint x < 2 ^ 31" using sint_lt [of x] sint_ge [of x] by simp
  then show ?thesis unfolding atoi_def Let_def d signed_value_show [OF e] by (simp only: simp_thms if_True of_int_sint scast_id)
qed

section \<open>The parameter\<close>

fun comma_joined :: "string list \<Rightarrow> string" where
  "comma_joined [] = []"
| "comma_joined [s] = s"
| "comma_joined (s # ss) = s @ '','' @ comma_joined ss"

definition param_text :: "c_int list \<Rightarrow> string" where
  "param_text xs = comma_joined (map (\<lambda>x. show_int (sint x)) xs) @ newline"

lemma strtok_field:
  assumes "t \<noteq> []" "\<forall>c \<in> set t. c \<noteq> CHR '',''"
  shows "strtok (t @ CHR '','' # s) = Some (t, s)" and "strtok t = Some (t, [])"
proof -
  obtain c cs where t: "t = c # cs" using assms(1) by (cases t) auto
  have d: "dropWhile (\<lambda>c. c = CHR '','') (t @ r) = t @ r" for r using assms(2) by (simp add: t)
  have "takeWhile (\<lambda>c. c \<noteq> CHR '','') (t @ CHR '','' # s) = t"
    "dropWhile (\<lambda>c. c \<noteq> CHR '','') (t @ CHR '','' # s) = CHR '','' # s"
    using assms(2) by (simp_all add: takeWhile_append2 dropWhile_append2)
  then show "strtok (t @ CHR '','' # s) = Some (t, s)"
    using d [of "CHR '','' # s"] by (simp add: strtok_def t)
  have "takeWhile (\<lambda>c. c \<noteq> CHR '','') t = t" "dropWhile (\<lambda>c. c \<noteq> CHR '','') t = []"
    using assms(2) by (simp_all add: takeWhile_eq_all_conv dropWhile_eq_Nil_conv)
  then show "strtok t = Some (t, [])" using d [of "[]"] by (simp add: strtok_def t)
qed

lemma strtok_Nil [simp]: "strtok [] = None"
  by (simp add: strtok_def)

abbreviation fields :: "c_int list \<Rightarrow> string" where
  "fields xs \<equiv> comma_joined (map (\<lambda>x. show_int (sint x)) xs)"

lemma ends_newline: "ends_number newline" "ends_number []"
  by (simp_all add: ends_number_def newline_def digit_val_def)

lemma strtok_number:
  "strtok (show_int i @ newline) = Some (show_int i @ newline, [])"
  "strtok (show_int i @ CHR '','' # s) = Some (show_int i, s)"
proof -
  have "\<forall>c \<in> set (show_int i @ newline). c \<noteq> CHR '',''"
    using comma_not_number by (auto simp: newline_def)
  then show "strtok (show_int i @ newline) = Some (show_int i @ newline, [])"
    by (intro strtok_field(2)) (simp add: show_int_nonempty)
  show "strtok (show_int i @ CHR '','' # s) = Some (show_int i, s)"
    by (rule strtok_field(1)) (use comma_not_number show_int_nonempty in auto)
qed

lemma convert_fields:
  "xs \<noteq> [] \<Longrightarrow> i + length xs \<le> length arr \<Longrightarrow>
   convert_loop (length xs + k) (strtok (fields xs @ newline)) i arr =
     Inr (i + length xs, take i arr @ xs @ drop (i + length xs) arr)"
proof (induction xs arbitrary: i arr)
  case (Cons x xs)
  have i: "i < length arr" using Cons.prems by simp
  have upd: "take (Suc i) (arr[i := x]) @ ys @ drop (Suc i + n) (arr[i := x]) =
      take i arr @ (x # ys) @ drop (Suc (i + n)) arr" for ys n
    using i by (simp add: take_Suc_conv_app_nth)
  show ?case
  proof (cases xs)
    case Nil
    then have "convert_loop (length (x # xs) + k) (strtok (fields (x # xs) @ newline)) i arr =
        Inr (Suc i, arr[i := x])"
      using i by (cases k) (simp_all add: strtok_number atoi_show [OF ends_newline(1)])
    with i Nil show ?thesis by (simp add: upd_conv_take_nth_drop)
  next
    case more: (Cons y ys)
    then have "strtok (fields (x # xs) @ newline) = Some (show_int (sint x), fields xs @ newline)"
      by (simp add: strtok_number)
    moreover have "atoi (show_int (sint x)) = Inr x" using atoi_show [OF ends_newline(2)] by simp
    ultimately show ?thesis
      using Cons.IH [of "Suc i" "arr[i := x]"] Cons.prems i more upd [of xs "length xs"] by simp
  qed
qed simp

lemma fields_no_newline: "c \<in> set (fields xs) \<Longrightarrow> c \<noteq> CHR 0x0A"
proof (induction xs)
  case (Cons x xs)
  then show ?case using newline_not_number by (cases xs) auto
qed simp

lemma fields_length: "length (fields xs) \<le> 12 * length xs"
proof (induction xs)
  case (Cons x xs)
  have "length (show_int (sint x)) \<le> 11"
    using sint_lt [of x] sint_ge [of x] show_int_length(3) [of 10 "sint x"] by simp
  with Cons show ?case by (cases xs) auto
qed simp

lemma fgets_param:
  assumes "12 * length xs + 2 \<le> n"
  shows "fgets n (param_text xs) = param_text xs"
proof -
  have "takeWhile (\<lambda>c. c \<noteq> CHR 0x0A) (fields xs @ newline) = fields xs"
    "dropWhile (\<lambda>c. c \<noteq> CHR 0x0A) (fields xs @ newline) = newline"
    using fields_no_newline [of _ xs]
    by (simp_all add: takeWhile_append dropWhile_append newline_def)
  moreover have "Suc (length (fields xs)) \<le> n - 1" using fields_length [of xs] assms by simp
  ultimately show ?thesis by (simp add: fgets_def param_text_def newline_def)
qed

lemma convert_param:
  assumes "xs \<noteq> []" "length xs \<le> nat (sint limit)" "length xs \<le> length arr"
  shows "convertStrtoArr (param_text xs) arr limit = Inr (length xs, xs @ drop (length xs) arr)"
  using convert_fields [OF assms(1), of 0 arr "nat (sint limit) - length xs"] assms(2,3)
  by (simp add: convertStrtoArr_def param_text_def)

lemma initTBDE_eval:
  assumes "length xs = 4" and "length arr = 4"
  shows "initTBDE (Inr (param_text xs)) arr =
    Inr (Returns (), xs, map (index_line xs) [0..<4] @ [''END'' @ newline])"
proof -
  have "fgets 64 (param_text xs) = param_text xs" by (rule fgets_param) (simp add: assms)
  moreover have "xs \<noteq> []" using assms(1) by auto
  then have "convertStrtoArr (param_text xs) arr 4 = Inr (4, xs)"
    using convert_param [of xs 4 arr] assms by simp
  ultimately show ?thesis by (simp add: initTBDE_def) (simp add: param_text_def newline_def)
qed

end
