(* ===== verification/ModuleProps.thy ===== *)
theory ModuleProps
  imports ModuleMain UserParse
begin

text \<open>
  The properties of loading and unloading, and of the whole path from a user program to the
  handler of a call: the module exposes its functions in the system call table, the kernel
  prints their numbers in a parameter, and the user library reads them back and calls them.
\<close>

section \<open>A module and what the kernel answers it\<close>

definition demo_module :: tag_module where
  "demo_module = \<lparr>sct = demo_memory, kst = unloaded,
     devs = \<lparr>majorNum = 0, devNo = 0, class_var = NoClass, dlog = []\<rparr>, sysCallNum = replicate 4 0\<rparr>"

definition demo_env :: load_env where
  "demo_env = \<lparr>table_memory = Some zeroed, entry_ptr = (\<lambda>i. 0xffffffffc0000000 + of_nat i * 16),
     registration = \<lparr>chrdev_answer = 240, mkdev = (\<lambda>m. m * 0x100000), class_ok = True, device_ok = True\<rparr>\<rparr>"

lemma demo_fresh [simp]: "fresh_module demo_module"
  by (simp add: fresh_module_def demo_module_def) (simp add: demo_memory_def)

lemma demo_table: "first_table (sct demo_module) START START"
  using demo_first by (simp add: demo_module_def)

lemma demo_chosen: "chosen_entries (sct demo_module) START = [134, 174, 182, 183]"
  by (simp add: chosen_entries_def demo_module_def demo_free_before)

text \<open>A memory of which nothing is mapped.\<close>

definition blank_module :: tag_module where
  "blank_module = demo_module\<lparr>sct := demo_memory\<lparr>pt_entry := \<lambda>t i. 0\<rparr>\<rparr>"

lemma blank_no_table: "no_table (sct blank_module) k l"
  by (simp add: no_table_def table_here_def blank_module_def sys_vtpmo_def)

lemma blank_fresh: "fresh_module blank_module"
proof -
  have "clean_tables (sct blank_module)"
    by (rule clean_tablesI) (simp_all add: clean_def blank_module_def demo_memory_def)
  then show ?thesis by (simp add: fresh_module_def blank_module_def demo_module_def) (simp add: demo_memory_def)
qed

section \<open>Loading and unloading\<close>

text \<open>C37: Loading the module puts its four functions into four free entries of the system call
  table and, if the array it gets holds null pointers only, sets up a well-formed empty table of
  services; unloading it gives the system call table and the register CR0 back as they were before
  and leaves no table of services.\<close>

theorem load_then_unload:
  assumes "fresh_module m" and "first_table (sct m) START a"
  shows "\<exists>m1 m2. init_module_Default env m = Inr (Inr 0, m1) \<and>
    (\<forall>n < 4. word_at (sct m1) (ent a (chosen_entries (sct m) a ! n)) = entry_ptr env n) \<and>
    (table_memory env = Some zeroed \<longrightarrow> kinv (kst m1) \<and> rooms_of (kst m1) = Map.empty) \<and>
    cleanup_module_Default m1 = Inr m2 \<and> word_at (sct m2) = word_at (sct m) \<and>
    cr0_reg (sct m2) = cr0_reg (sct m) \<and> nextFree (sct m2) = 0 \<and> tagServices (kst m2) = None"
proof -
  from cleanup_eval [OF assms, of env] obtain m1 m2 where
    u: "init_module_Default env m = Inr (Inr 0, m1)" "cleanup_module_Default m1 = Inr m2"
      "sct m2 = (searched (sct m) a)\<lparr>cr0 := cr0_reg (sct m), nextFree := 0\<rparr>" "tagServices (kst m2) = None"
    by blast
  have "\<forall>n < 4. word_at (sct m1) (ent a (chosen_entries (sct m) a ! n)) = entry_ptr env n"
    "kst m1 = snd (initService (table_memory env) (kst m))"
    using loaded [OF assms, of env] u(1) by force+
  moreover from this(2) have "table_memory env = Some zeroed \<longrightarrow> kst m1 = booted (kst m)"
    by (simp add: booted_def)
  ultimately show ?thesis using u by (auto simp: searched_def)
qed

theorem load_then_unload_witness:
  "\<exists>m1 m2. init_module_Default demo_env demo_module = Inr (Inr 0, m1) \<and>
     word_at (sct m1) (ent START 174) = 0xffffffffc0000010 \<and> kinv (kst m1) \<and>
     cleanup_module_Default m1 = Inr m2 \<and> word_at (sct m2) = word_at (sct demo_module)"
proof -
  from load_then_unload [OF demo_fresh demo_table, of demo_env] obtain m1 m2 where
    m: "init_module_Default demo_env demo_module = Inr (Inr 0, m1)"
      "\<forall>n < 4. word_at (sct m1) (ent START ([134, 174, 182, 183] ! n)) = entry_ptr demo_env n"
      "table_memory demo_env = Some zeroed \<longrightarrow> kinv (kst m1)"
      "cleanup_module_Default m1 = Inr m2" "word_at (sct m2) = word_at (sct demo_module)"
    unfolding demo_chosen by blast
  from m(2) [rule_format, of 1] have "word_at (sct m1) (ent START 174) = 0xffffffffc0000010"
    by (simp add: demo_env_def)
  moreover have "table_memory demo_env = Some zeroed" by (simp add: demo_env_def)
  ultimately show ?thesis using m by blast
qed

text \<open>If the search finds no table the module is loaded all the same, with status 0: no
  function is exposed, the numbers in the parameter stay 0, no table of services is set up, and
  unloading succeeds.\<close>

theorem load_without_table:
  assumes "fresh_module m" and "no_table (sct m) START MAX_ADDR"
  shows "\<exists>m1 m2. init_module_Default env m = Inr (Inr 0, m1) \<and> sct m1 = sct m \<and> kst m1 = kst m \<and>
    sysCallNum m1 = sysCallNum m \<and> cleanup_module_Default m1 = Inr m2 \<and>
    word_at (sct m2) = word_at (sct m) \<and> cr0_reg (sct m2) = cr0_reg (sct m)"
proof -
  let ?u = "unprotect_memory ((sct m)\<lparr>cr0 := cr0_reg (sct m)\<rparr>)"
  have "nextFree (sct m) = 0" using assms(1) by (simp add: fresh_module_def)
  then have "restore_loop ?u = Some (Inr ?u)"
    by (subst restore_loop.simps) (simp add: unprotect_memory_def write_cr0_forced_def)
  then have "removeAllSyscall (sct m) = Inr ((sct m)\<lparr>cr0 := cr0_reg (sct m)\<rparr>)"
    by (simp add: removeAllSyscall_def unprotect_memory_def protect_memory_def write_cr0_forced_def)
  then show ?thesis
    by (simp add: init_no_table [OF assms] register_device_def cleanup_module_Default_def)
qed

theorem load_without_table_witness:
  "\<exists>m1. init_module_Default demo_env blank_module = Inr (Inr 0, m1) \<and> sysCallNum m1 = [0, 0, 0, 0]"
  using load_without_table [OF blank_fresh blank_no_table, of demo_env]
  by (auto simp: blank_module_def demo_module_def numeral_eq_Suc)

text \<open>The status of the device registration is not looked at.  After a successful one, unloading
  gives the class and the node back once but the character device twice; if only the node could
  not be created the class is destroyed twice as well; and after a registration that got no
  class, loading still answers 0 and unloading hands the kernel a class that does not exist.\<close>

theorem unload_releases_twice:
  assumes "fresh_module m" and "first_table (sct m) START a" and "dlog (devs m) = []"
  shows "\<exists>m1 m2. init_module_Default env m = Inr (Inr 0, m1) \<and> cleanup_module_Default m1 = Inr m2 \<and>
    (if 0 \<le> sint (chrdev_answer (registration env)) \<and> class_ok (registration env)
     then held (dlog (devs m2)) = (- 1, if device_ok (registration env) then 0 else - 1, 0)
     else \<exists>c \<in> set (dlog (devs m2)). \<not> class_arg_ok c)"
proof -
  from cleanup_eval [OF assms(1,2), of env] obtain m1 m2 where
    u: "init_module_Default env m = Inr (Inr 0, m1)" "cleanup_module_Default m1 = Inr m2"
      "devs m2 = devkoExit (snd (devkoInit (registration env) (devs m)))"
    by blast
  have "class_var (devs m) = NoClass" using assms(1) by (simp add: fresh_module_def)
  then show ?thesis
    using u devkoExit_after_failure [of "devs m" "registration env"] assms(3)
    by (auto simp: devkoExit_log devkoInit_def Let_def dcall_log_def held_def)
qed

theorem unload_releases_twice_witness:
  "\<exists>m1 m2. init_module_Default demo_env demo_module = Inr (Inr 0, m1) \<and>
     cleanup_module_Default m1 = Inr m2 \<and> held (dlog (devs m2)) = (- 1, 0, 0)"
  using unload_releases_twice [OF demo_fresh demo_table, of demo_env]
  by (auto simp: demo_env_def demo_module_def)

section \<open>From a user program to the module\<close>

text \<open>What \<^verbatim>\<open>syscall(2)\<close> and the kernel's dispatch promise: the call of number \<open>n\<close> is answered by
  the function entry \<open>n\<close> of the table points to; \<open>h i\<close> are the answers of the module's functions.\<close>

definition dispatches :: "(nat \<Rightarrow> request \<Rightarrow> 'r) \<Rightarrow> load_env \<Rightarrow> sysc \<Rightarrow> 'r syscalls \<Rightarrow> bool" where
  "dispatches h env s sys \<longleftrightarrow>
     (\<forall>n < 256. \<forall>i < 4. word_at s (ent (hacked_syscall_tbl s) n) = entry_ptr env i \<longrightarrow> sys (of_nat n) = h i)"

lemma chosen_first:
  assumes "0 < length (free_before s a)"
  shows "chosen_entries s a ! 0 = 0 \<longleftrightarrow> word_at s (ent a 0) = word_at s (ent a FIRST_NI_SYSCALL)"
proof -
  let ?P = "\<lambda>i. word_at s (ent a i) = word_at s (ent a FIRST_NI_SYSCALL)"
  let ?rest = "filter ?P [1..<Suc SEVENTH_NI_SYSCALL]"
  have f: "free_before s a = (if ?P 0 then 0 # ?rest else ?rest)"
    unfolding free_before_def by (subst upt_conv_Cons) (auto simp del: upt_Suc)
  have pos: "x \<noteq> 0" if "x \<in> set ?rest" for x using that by auto
  show ?thesis
  proof (cases "?P 0")
    case True
    with f show ?thesis by (simp add: chosen_entries_def)
  next
    case False
    with assms f have "0 < length ?rest" by (simp only: if_False)
    then have "?rest ! 0 \<noteq> 0" by (intro pos nth_mem)
    with False f show ?thesis by (simp add: chosen_entries_def)
  qed
qed

lemma chosen_later:
  assumes "0 < n" "n < length (chosen_entries s a)"
  shows "chosen_entries s a ! n \<noteq> 0"
proof
  assume z: "chosen_entries s a ! n = 0"
  have "0 \<in> set (chosen_entries s a)" using nth_mem [OF assms(2)] z by simp
  then have "0 \<in> set (free_before s a)" unfolding chosen_entries_def by (rule in_set_takeD)
  then have "word_at s (ent a 0) = word_at s (ent a FIRST_NI_SYSCALL)" "0 < length (free_before s a)"
    by (auto simp: free_before_def simp del: upt_Suc) (auto simp: filter_empty_conv)
  then have "chosen_entries s a ! 0 = 0" by (simp add: chosen_first)
  moreover have "distinct (chosen_entries s a)"
    by (simp add: chosen_entries_def free_before_def del: upt_Suc)
  moreover have "chosen_entries s a \<noteq> []" using assms(2) by auto
  ultimately show False using z assms nth_eq_iff_index_eq [of "chosen_entries s a" n 0] by simp
qed

text \<open>C38: The library on a loaded module.  When the module found a system call table, the library reads
  the numbers of the four calls from the module's parameter, and \<^verbatim>\<open>tag_send\<close>, \<^verbatim>\<open>tag_receive\<close> and
  \<^verbatim>\<open>tag_ctl\<close> reach the module's functions; \<^verbatim>\<open>tag_get\<close> does unless entry 0 of that table was free,
  and then the library's own test takes its number 0 for an array that was never filled and the
  process exits.\<close>

theorem library_reaches_the_module:
  assumes fresh: "fresh_module m" and t: "first_table (sct m) START a" and "length arr = 4"
    and sys: "\<And>m1. init_module_Default env m = Inr (Inr 0, m1) \<Longrightarrow> dispatches h env (sct m1) sys"
  shows "\<exists>m1 idx out. init_module_Default env m = Inr (Inr 0, m1) \<and>
    initTBDE (Inr (param_text (sysCallNum m1))) arr = Inr (Returns (), idx, out) \<and>
    tag_get_lib sys idx k command permission =
      (if word_at (sct m) (ent a 0) = word_at (sct m) (ent a FIRST_NI_SYSCALL) then Exited [not_initialised]
       else Returns (h 0 (GetR k command permission))) \<and>
    tag_send_lib sys idx tag level buffer sz = Returns (h 1 (SendR tag level buffer sz)) \<and>
    tag_receive_lib sys idx tag level sz = Returns (h 2 (ReceiveR tag level sz)) \<and>
    tag_ctl_lib sys idx tag command = Returns (h 3 (CtlR tag command))"
proof -
  let ?es = "chosen_entries (sct m) a"
  note S = searched [OF fresh t]
  obtain m1 where m1: "init_module_Default env m = Inr (Inr 0, m1)"
      "hacked_syscall_tbl (sct m1) = a" "sysCallNum m1 = map of_nat ?es"
      "\<And>n. n < 4 \<Longrightarrow> word_at (sct m1) (ent a (?es ! n)) = entry_ptr env n"
    using loaded [OF fresh t, of env] by metis
  have small: "?es ! n < 256" if "n < 4" for n
    using tbl.slot_law [OF S(3)] S(2) that nth_mem by metis
  have call: "sys (of_nat (?es ! n)) = h n" if "n < 4" for n
    using sys [OF m1(1)] small [OF that] m1(4) [OF that] m1(2) that by (simp add: dispatches_def)
  have z: "(of_nat (?es ! n) :: c_int) = 0 \<longleftrightarrow> ?es ! n = 0" if "n < 4" for n
    using small [OF that] of_nat_c_int_eq_iff [of "?es ! n" 0] by simp
  have "0 < length (free_before (sct m) a)" using S(2) by (auto simp: chosen_entries_def)
  note F = chosen_first [OF this] chosen_later [of _ "sct m" a]
  have "initTBDE (Inr (param_text (sysCallNum m1))) arr =
      Inr (Returns (), sysCallNum m1, map (index_line (sysCallNum m1)) [0..<4] @ [''END'' @ newline])"
    by (rule initTBDE_eval) (simp_all add: m1(3) S(2) assms(3))
  with m1(1) show ?thesis
    using F z call S(2)
    by (simp add: m1(3) tag_get_lib_def tag_send_lib_def tag_receive_lib_def tag_ctl_lib_def)
qed

text \<open>A kernel that dispatches by the table of the demonstration module.\<close>

definition demo_sys :: "(nat \<Rightarrow> request \<Rightarrow> 'r) \<Rightarrow> 'r syscalls" where
  "demo_sys h n = h (if n = 134 then 0 else if n = 174 then 1 else if n = 182 then 2 else 3)"

lemma demo_dispatches:
  assumes "init_module_Default demo_env demo_module = Inr (Inr 0, m1)"
  shows "dispatches h demo_env (sct m1) (demo_sys h)"
proof -
  obtain m2 where m2: "init_module_Default demo_env demo_module = Inr (Inr 0, m2)"
      "hacked_syscall_tbl (sct m2) = START"
      "\<And>n. n < 4 \<Longrightarrow> word_at (sct m2) (ent START ([134, 174, 182, 183] ! n)) = entry_ptr demo_env n"
      "\<And>x. (\<And>i. i \<in> set [134, 174, 182, 183] \<Longrightarrow> ent START i \<noteq> x) \<Longrightarrow>
         word_at (sct m2) x = word_at (sct demo_module) x"
    using loaded [OF demo_fresh demo_table, of demo_env] unfolding demo_chosen by metis
  have [simp]: "m2 = m1" using assms m2(1) by simp
  have four: "i = 0 \<or> i = 1 \<or> i = 2 \<or> i = 3" if "i < 4" for i :: nat using that by linarith
  show ?thesis unfolding dispatches_def
  proof (intro allI impI)
    fix n i :: nat
    assume n: "n < 256" and i: "i < 4"
      and w: "word_at (sct m1) (ent (hacked_syscall_tbl (sct m1)) n) = entry_ptr demo_env i"
    show "demo_sys h (of_nat n) = h i"
    proof (cases "n \<in> set [134, 174, 182, 183]")
      case True
      then show ?thesis using w m2(2) m2(3) [of 0] m2(3) [of 1] m2(3) [of 2] m2(3) [of 3] four [OF i]
        by (auto simp: demo_sys_def demo_env_def)
    next
      case False
      have "ent START i \<noteq> ent START n" if "i \<in> set [134, 174, 182, 183]" for i
      proof -
        have "i < 256" "i \<noteq> n" using that False by auto
        then show ?thesis using n by (simp add: ent_eq)
      qed
      then have "word_at (sct m1) (ent START n) = word_at (sct demo_module) (ent START n)"
        using m2(4) [of "ent START n"] by simp
      with w m2(2) n have "entry_ptr demo_env i = ni_word \<or> entry_ptr demo_env i = handler_word"
        using demo_mem [of n] by (auto simp: demo_module_def split: if_splits)
      then show ?thesis using four [OF i] by (auto simp: demo_env_def ni_word_def handler_word_def)
    qed
  qed
qed

theorem library_reaches_the_module_witness:
  "\<exists>m1 idx out. init_module_Default demo_env demo_module = Inr (Inr 0, m1) \<and>
     initTBDE (Inr (param_text (sysCallNum m1))) [0, 0, 0, 0] = Inr (Returns (), idx, out) \<and>
     tag_send_lib (demo_sys (\<lambda>i req. i)) idx 0 0 None 0 = Returns 1"
  using library_reaches_the_module [OF demo_fresh demo_table, of "[0, 0, 0, 0]" demo_env
      "\<lambda>i req. i", OF _ demo_dispatches] by fastforce

end
