(* ===== verification/UserProps.thy ===== *)
theory UserProps
  imports UserParse Calls
begin

text \<open>
  The properties of \<^verbatim>\<open>user/interface/interface.c\<close>: the parser of the parameter, and which
  errors of the kernel its messages explain.
\<close>

section \<open>The parameter\<close>

text \<open>The library reads back any array of numbers the kernel prints, through a buffer that
  holds 12 bytes per number: \<^verbatim>\<open>convertStrtoArr\<close> returns how many there are and stores each,
  leaving the rest of its array alone.\<close>

theorem parameter_round_trip:
  assumes "xs \<noteq> []" and "length xs \<le> nat (sint limit)" and "length xs \<le> length arr"
    and "12 * length xs + 2 \<le> n"
  shows "convertStrtoArr (fgets n (param_text xs)) arr limit =
    Inr (length xs, xs @ drop (length xs) arr)"
  unfolding fgets_param [OF assms(4)] by (rule convert_param [OF assms(1-3)])

theorem parameter_round_trip_witness:
  "convertStrtoArr (fgets 64 (param_text [134, 174, - 1, 2147483647])) [9, 9, 9, 9, 9] 4 =
     Inr (4, [134, 174, - 1, 2147483647, 9])"
  using parameter_round_trip [of "[134, 174, - 1, 2147483647]" 4 "[9, 9, 9, 9, 9]" 64] by simp

section \<open>The messages\<close>

text \<open>What a program prints for the error of a call.\<close>

fun reports :: "call \<Rightarrow> errno \<Rightarrow> line list" where
  "reports (Get k command p) e = tagGet_perror e k command"
| "reports (Send tag level buffer sz) e = tagSend_perror e tag"
| "reports (Ctl tag command) e = tagCtl_perror e tag command"

fun explains :: "line list \<Rightarrow> bool" where
  "explains [Explain s] = True"
| "explains _ = False"

lemma get_errors:
  "fst (a_get env R k command p) = Inl e \<Longrightarrow> explains (tagGet_perror e k command)"
  by (auto simp: a_get_def a_create_def a_open_def tagGet_perror_def get_create_perror_def
      get_open_perror_def CREATE_def OPEN_def split: if_splits option.splits)

lemma send_errors:
  "fst (a_send env R tag level buffer sz) = Inl e \<Longrightarrow> explains (tagSend_perror e tag)"
  by (auto simp: a_send_def tagSend_perror_def split: if_splits option.splits)

lemma ctl_errors:
  "fst (a_ctl env R tag command) = Inl e \<Longrightarrow>
   explains (tagCtl_perror e tag command) \<longleftrightarrow> \<not> (command = REMOVE \<and> e = EBADRQC)"
  by (auto simp: a_ctl_def tagCtl_perror_def ctl_awake_perror_def ctl_remove_perror_def AWAKE_ALL_def
      REMOVE_def split: if_splits option.splits)

lemma receive_errors:
  assumes "tag_receive env cto wait s tag level bn sz = Inr (Inl e, out, s')"
  shows "e \<in> {ENOSYS, EXFULL, ENOMSG, EBADRQC, EBADSLT, EUCLEAN}"
  using assms by (auto simp: tag_receive_def Let_def case_stuck case_Inr_split split: if_splits)

text \<open>C40: The errors of calls that run alone on a well-formed table, with memory left.  For each error
  of \<^verbatim>\<open>tag_get\<close>, \<^verbatim>\<open>tag_send\<close>, \<^verbatim>\<open>tag_ctl\<close> and \<^verbatim>\<open>tag_receive\<close> the library prints exactly one line, and
  not its "unexpected error" line, except when a process that may not use a service asks to remove
  it: the module answers EBADRQC where the library expects EBADE.  Not every line fits: \<^verbatim>\<open>tag_receive\<close>
  never answers the ERESTART that has a line of its own, and EBADRQC of an \<^verbatim>\<open>OPEN\<close> is reported as a
  bad argument, not with the line written for it.  And for EFAULT, which only a \<^verbatim>\<open>CREATE\<close> that races
  with another gets, two lines come, the second the unexpected one.\<close>

theorem errors_are_explained:
  assumes "env_sound env" "vzalloc_ok env" and "kinv s" "complete s"
    and "budget env s (levelDeep + n) (Suc k)"
  shows "(\<forall>c e s'. run_call env s c = Inr (Inl e, s') \<longrightarrow>
      (explains (reports c e) \<longleftrightarrow> \<not> (e = EBADRQC \<and> (\<exists>tag. c = Ctl tag REMOVE)))) \<and>
    (\<forall>cto wait tag level bn sz e out s'. tag_receive env cto wait s tag level bn sz = Inr (Inl e, out, s') \<longrightarrow>
      explains (tagRecive_perror e tag) \<and> e \<noteq> ERESTART) \<and>
    (\<forall>key. tagGet_perror EBADRQC key OPEN \<noteq> get_open_perror EBADRQC key \<and>
      \<not> explains (tagGet_perror EFAULT key CREATE))"
proof (intro conjI allI impI)
  fix c e s' assume "run_call env s c = Inr (Inl e, s')"
  with call_refines [OF assms, of c] have "fst (a_call env (rooms_of s) c) = Inl e" by (metis Inr_inject fst_conv)
  then show "explains (reports c e) \<longleftrightarrow> \<not> (e = EBADRQC \<and> (\<exists>tag. c = Ctl tag REMOVE))"
    using get_errors send_errors ctl_errors by (cases c) auto
next
  fix cto wait tag level bn sz e out s'
  assume "tag_receive env cto wait s tag level bn sz = Inr (Inl e, out, s')"
  from receive_errors [OF this] show "explains (tagRecive_perror e tag)" "e \<noteq> ERESTART"
    by (auto simp: tagRecive_perror_def)
qed (simp_all add: tagGet_perror_def get_open_perror_def get_create_perror_def CREATE_def)

lemma remove_nothing:
  "run_call (plenty 1 7) empty_table (Ctl 5 REMOVE) =
     Inr (Inl ENODATA, snd (projr (run_call (plenty 1 7) empty_table (Ctl 5 REMOVE))))"
proof -
  have b: "budget (plenty 1 7) empty_table (levelDeep + 968) (Suc 299)"
    using plenty_room by (simp add: levelDeep_def)
  from call_refines [OF plenty_sound _ kinv_booted complete_booted b, of "Ctl 5 REMOVE"]
  obtain r t where r: "run_call (plenty 1 7) empty_table (Ctl 5 REMOVE) = Inr (r, t)"
      "(r, rooms_of t) = a_call (plenty 1 7) (rooms_of empty_table) (Ctl 5 REMOVE)"
    by auto
  then have "r = Inl ENODATA" by (simp add: a_ctl_def REMOVE_def AWAKE_ALL_def)
  with r(1) show ?thesis by simp
qed

theorem errors_are_explained_witness:
  "explains (reports (Ctl 5 REMOVE) ENODATA) \<and>
   (\<exists>s'. run_call (plenty 1 7) empty_table (Ctl 5 REMOVE) = Inr (Inl ENODATA, s'))"
proof -
  have b: "budget (plenty 1 7) empty_table (levelDeep + 968) (Suc 299)"
    using plenty_room by (simp add: levelDeep_def)
  from errors_are_explained [OF plenty_sound _ kinv_booted complete_booted b] remove_nothing show ?thesis
    by (auto simp del: reports.simps run_call.simps)
qed

end
