(* ===== verification/UserCommands.thy ===== *)
theory UserCommands
  imports UserParse
begin

text \<open>
  \<^verbatim>\<open>user/commands/*.c\<close>: the four command line programs.  Each is a function of the kernel
  (\<open>sys\<close>, the answer to a call and the bytes it wrote to the caller's buffer), of the parameter
  file and of its arguments (\<^verbatim>\<open>argv\<close>), to the exit status and the texts it prints.  A call the
  kernel refuses returns -1 to the program and leaves the error in \<^verbatim>\<open>errno\<close>.
\<close>

type_synonym kernel = "(rv \<times> byte list) syscalls"
type_synonym outcome = "(int \<times> string list) res"

definition tab :: string where "tab = [CHR 0x09]"

fun text_of :: "line \<Rightarrow> string" where
  "text_of (Explain s) = s"
| "text_of (Unexpected s) = s"

text \<open>\<^verbatim>\<open>initTBDE()\<close> and what follows it; \<^verbatim>\<open>exit(EXIT_FAILURE)\<close> is status 1.\<close>

definition after_init ::
  "errno + string \<Rightarrow> (c_int list \<Rightarrow> string list \<Rightarrow> outcome) \<Rightarrow> outcome" where
  "after_init file k = rbind (initTBDE file [0, 0, 0, 0]) (\<lambda>(p, idx, out).
     case p of Exited why \<Rightarrow> Inr (1, out @ why) | Returns _ \<Rightarrow> k idx out)"

definition get_help :: "string list" where
  "get_help =
     [''usage: <key> <command> <permission>'' @ newline, ''command:'' @ newline,
      tab @ ''CREATE = '' @ num CREATE @ newline, tab @ ''OPEN = '' @ num OPEN @ newline,
      ''permission:'' @ newline, tab @ ''PUBLIC_ROOM = '' @ num OPEN_ROOM @ newline,
      tab @ ''PRIVATE_ROOM = '' @ num PRIVATE_ROOM @ newline]"

definition get_main :: "kernel \<Rightarrow> errno + string \<Rightarrow> string list \<Rightarrow> outcome" where
  "get_main sys file argv =
     (if length argv \<noteq> 4 then Inr (- 1, get_help)
      else after_init file (\<lambda>idx out.
        rbind (atoi (argv ! 1)) (\<lambda>keyAsk.
        rbind (atoi (argv ! 2)) (\<lambda>commandAsk.
        rbind (atoi (argv ! 3)) (\<lambda>permissionAsk.
        let said = (\<lambda>tag. ''@tag = '' @ num tag @ '' = tag_get('' @ num keyAsk @ '','' @ num commandAsk @
              '','' @ num permissionAsk @ '')'' @ newline)
        in case tag_get_lib sys idx keyAsk commandAsk permissionAsk of
             Exited why \<Rightarrow> Inr (1, out @ why)
           | Returns (Inl e, _) \<Rightarrow>
               Inr (0, out @ [said (- 1), ''Error''] @ map text_of (tagGet_perror e keyAsk commandAsk))
           | Returns (Inr tag, _) \<Rightarrow> Inr (0, out @ [said tag]))))))"

text \<open>The message goes with its terminator; \<open>ptr\<close> is how \<^verbatim>\<open>%p\<close> prints its address.\<close>

definition bytes_of :: "string \<Rightarrow> byte list" where
  "bytes_of s = map (\<lambda>c. of_nat (of_char c)) s @ [0]"

definition send_main :: "string \<Rightarrow> kernel \<Rightarrow> errno + string \<Rightarrow> string list \<Rightarrow> outcome" where
  "send_main ptr sys file argv =
     (if length argv \<noteq> 4 then Inr (- 1, [''usage: <tag> <level> <msg>'' @ newline])
      else after_init file (\<lambda>idx out.
        rbind (atoi (argv ! 1)) (\<lambda>tag.
        rbind (atoi (argv ! 2)) (\<lambda>level.
        let size_arg = (of_nat (length (argv ! 3)) + 1 :: c_int);
            said = ''tag_send('' @ num tag @ '','' @ num level @ '','' @ ptr @ '','' @ num size_arg @ '')'' @ newline
        in case tag_send_lib sys idx tag level (Some (bytes_of (argv ! 3))) (scast size_arg) of
             Exited why \<Rightarrow> Inr (1, out @ [said] @ why)
           | Returns (Inl e, _) \<Rightarrow> Inr (0, out @ [said] @ map text_of (tagSend_perror e tag))
           | Returns (Inr _, _) \<Rightarrow> Inr (0, out @ [said])))))"

text \<open>\<^verbatim>\<open>%s\<close> of the buffer: what the call wrote up to the first null; without one the print goes on
  into memory that was never written.\<close>

definition print_buffer :: "byte list \<Rightarrow> string res" where
  "print_buffer bs =
     (if 0 \<in> set bs then Inr (map (\<lambda>b. char_of (unat b)) (takeWhile (\<lambda>b. b \<noteq> 0) bs)) else Inl Fault)"

definition receive_main :: "kernel \<Rightarrow> errno + string \<Rightarrow> string list \<Rightarrow> outcome" where
  "receive_main sys file argv =
     (if length argv \<noteq> 3 then Inr (- 1, [''usage: <tag> <level>'' @ newline])
      else after_init file (\<lambda>idx out.
        rbind (atoi (argv ! 1)) (\<lambda>tag.
        rbind (atoi (argv ! 2)) (\<lambda>level.
        let said = (\<lambda>n. ''@bRead = '' @ num n @ '' = tag_receive('' @ num tag @ '','' @ num level @
              '',bufPtr, bufSize)'' @ newline)
        in case tag_receive_lib sys idx tag level 4096 of
             Exited why \<Rightarrow> Inr (1, out @ why)
           | Returns (Inl e, _) \<Rightarrow> Inr (0, out @ [said (- 1)] @ map text_of (tagRecive_perror e tag))
           | Returns (Inr n, bs) \<Rightarrow>
               rbind (print_buffer bs) (\<lambda>str.
               Inr (0, out @ [said n, ''[reader]> '' @ str @ tab @ ''Return value = '' @ num n @ newline]))))))"

definition ctl_help :: "string list" where
  "ctl_help =
     [''usage: <tag_id> <cmd_id>'' @ newline, tab @ ''REMOVE = '' @ num REMOVE @ newline,
      tab @ ''AWAKE_ALL = '' @ num AWAKE_ALL @ newline]"

definition ctl_main :: "kernel \<Rightarrow> errno + string \<Rightarrow> string list \<Rightarrow> outcome" where
  "ctl_main sys file argv =
     (if length argv \<noteq> 3 then Inr (- 1, ctl_help)
      else after_init file (\<lambda>idx out.
        rbind (atoi (argv ! 1)) (\<lambda>tag.
        rbind (atoi (argv ! 2)) (\<lambda>commandAsk.
        let said = ''tag_ctls('' @ num tag @ '', '' @ num commandAsk @ '')'' @ newline
        in case tag_ctl_lib sys idx tag commandAsk of
             Exited why \<Rightarrow> Inr (1, out @ [said] @ why)
           | Returns (Inl e, _) \<Rightarrow> Inr (0, out @ [said] @ map text_of (tagCtl_perror e tag commandAsk))
           | Returns (Inr _, _) \<Rightarrow> Inr (0, out @ [said])))))"

section \<open>What the programs send and show\<close>

text \<open>The bytes \<^verbatim>\<open>send\<close> hands to the kernel are printed back by \<^verbatim>\<open>receive\<close>.\<close>

lemma print_bytes_of:
  assumes "CHR 0x00 \<notin> set s"
  shows "print_buffer (bytes_of s) = Inr s"
proof -
  let ?b = "\<lambda>c. of_nat (of_char c) :: byte"
  have nz: "?b c \<noteq> 0" if "c \<in> set s" for c
  proof -
    have "0 < (of_char c :: nat)"
    proof (rule ccontr)
      assume "\<not> 0 < (of_char c :: nat)"
      then have "char_of (of_char c :: nat) = CHR 0x00" by (simp add: char_of_def)
      with that assms show False by simp
    qed
    then show ?thesis by (simp add: word_unat_eq_iff unat_of_nat)
  qed
  have "takeWhile (\<lambda>b. b \<noteq> 0) (map ?b s @ [0]) = map ?b s"
    using nz by (subst takeWhile_append2) auto
  moreover have "char_of (unat (?b c)) = c" for c by (simp add: unat_of_nat)
  ultimately show ?thesis by (simp add: print_buffer_def bytes_of_def comp_def)
qed

lemma print_unterminated: "0 \<notin> set bs \<Longrightarrow> print_buffer bs = Inl Fault"
  by (simp add: print_buffer_def)

end
