(* ===== verification/DemoProgram.thy ===== *)
theory DemoProgram
  imports UserCommands Calls
begin

text \<open>
  \<^verbatim>\<open>user/test/demo.c\<close>: a program that creates five services, lets 50 receivers and 5 senders
  loose on them, awakes everybody, waits for the threads to end and removes the services.  Every
  call goes through the library and the numbers that \<^verbatim>\<open>initTBDE\<close> has read; the kernel behind the
  numbers (\<open>K\<close>) has a state of its own.  The draws of \<^verbatim>\<open>rand\<close> are parameters, and so is what the
  threads do (\<open>running\<close>, \<open>joined\<close>), for which \<open>DemoThreads\<close> puts together the calls of the threads in
  any order.  The texts are what it prints, with \<^verbatim>\<open>AUDIT\<close> on as in the file.  A refused call
  returns -1, an answered \<^verbatim>\<open>tag_ctl\<close> 0 and an answered \<^verbatim>\<open>tag_get\<close> a tag, so the tests of the
  results are the case of an error.
\<close>

section \<open>Programs that print and may exit\<close>

text \<open>What a part of the program prints, its value (\<open>None\<close>: the process has exited) and the state.\<close>

type_synonym ('w, 'a) run = "(string list \<times> 'a option \<times> 'w) res"

definition run_then :: "('w, 'a) run \<Rightarrow> ('a \<Rightarrow> 'w \<Rightarrow> ('w, 'b) run) \<Rightarrow> ('w, 'b) run" where
  "run_then p f = rbind p (\<lambda>(out, x, w). case x of
     None \<Rightarrow> Inr (out, None, w)
   | Some a \<Rightarrow> rbind (f a w) (\<lambda>(out', y, w'). Inr (out @ out', y, w')))"

definition say :: "string list \<Rightarrow> ('w, 'a) run \<Rightarrow> ('w, 'a) run" where
  "say out p = rbind p (\<lambda>(out', y, w). Inr (out @ out', y, w))"

lemma run_simps [simp]:
  "run_then (Inr (out, None, w)) f = Inr (out, None, w)"
  "run_then (Inr (out, Some a, w)) f = say out (f a w)"
  "run_then (Inl e) f = Inl e"
  "say out (Inl e) = Inl e" "say out (Inr (out', y, w)) = Inr (out @ out', y, w)" "say [] p = p"
  by (simp_all add: run_then_def say_def rbind_def split: sum.splits prod.splits)

text \<open>A call of the library is made in the state the kernel is in, or ends the process.\<close>

type_synonym 'w kern = "('w \<Rightarrow> (rv \<times> 'w) res) syscalls"

definition perform :: "('w \<Rightarrow> (rv \<times> 'w) res) prog \<Rightarrow> 'w \<Rightarrow> ('w, rv) run" where
  "perform p w = (case p of
     Exited why \<Rightarrow> Inr (why, None, w)
   | Returns f \<Rightarrow> rbind (f w) (\<lambda>(r, w'). Inr ([], Some r, w')))"

section \<open>The program\<close>

definition NService :: nat where "NService = 5"
definition NUM_READER :: nat where "NUM_READER = 50"
definition NUM_WRITER :: nat where "NUM_WRITER = 5"
definition PROBABILITY :: nat where "PROBABILITY = 5"

lemmas demo_macros = NService_def NUM_READER_def NUM_WRITER_def PROBABILITY_def

text \<open>What the threads do, with the numbers of the calls and the array \<^verbatim>\<open>TAGS\<close>.\<close>

type_synonym 'w threads = "c_int list \<Rightarrow> c_int list \<Rightarrow> 'w \<Rightarrow> ('w, unit) run"

text \<open>\<open>rnd 0\<close> is the first number the thread draws.  The second line prints the buffer whatever
  the call has answered.\<close>

definition receiver :: "kernel \<Rightarrow> c_int list \<Rightarrow> (nat \<Rightarrow> nat) \<Rightarrow> nat \<Rightarrow> c_int list \<Rightarrow> string list res" where
  "receiver sys idx rnd me TAGS =
     (let level = of_nat (rnd 0 mod 32); tag = TAGS ! (rnd 1 mod NService);
          before = ''thread '' @ show_nat me @ '' - Waiting for receive on tag '' @ num tag @
            '' level '' @ num level @ newline;
          after = (\<lambda>text ret. ''thread '' @ show_nat me @ '' - Receive from tag '' @ num tag @
            '' on level '' @ num level @ '': '' @ text @ '' - Result '' @ num ret @ newline)
      in case tag_receive_lib sys idx tag level 256 of
           Exited why \<Rightarrow> Inr (before # why)
         | Returns (r, bs) \<Rightarrow>
             rbind (print_buffer bs) (\<lambda>text.
             Inr [before, after text (case r of Inl e \<Rightarrow> - 1 | Inr n \<Rightarrow> n)]))"

text \<open>The text of a sender, with its terminator.\<close>

definition thread_message :: "nat \<Rightarrow> byte list" where
  "thread_message me = bytes_of (''Message from thread '' @ show_nat me)"

definition sender_rounds :: "(nat \<times> nat) list" where
  "sender_rounds = List.product [0..<NService] [0..<levelDeep]"

definition send_one :: "'w kern \<Rightarrow> c_int list \<Rightarrow> c_int list \<Rightarrow> nat \<Rightarrow> nat \<Rightarrow> nat \<Rightarrow> 'w \<Rightarrow> ('w, unit) run" where
  "send_one K idx TAGS T level me w =
     run_then (perform (tag_send_lib K idx (TAGS ! T) (of_nat level) (Some (thread_message me))
                          (of_nat (length (thread_message me)))) w) (\<lambda>r w1.
       Inr ((case r of Inl e \<Rightarrow> map text_of (tagSend_perror e (TAGS ! T)) | Inr n \<Rightarrow> []), Some (), w1))"

fun sender_loop ::
  "'w kern \<Rightarrow> c_int list \<Rightarrow> (nat \<Rightarrow> nat) \<Rightarrow> nat \<Rightarrow> c_int list \<Rightarrow> (nat \<times> nat) list \<Rightarrow> nat \<Rightarrow> 'w \<Rightarrow> ('w, unit) run" where
  "sender_loop K idx rnd me TAGS [] k w = Inr ([], Some (), w)"
| "sender_loop K idx rnd me TAGS ((T, level) # rs) k w =
     (if rnd k mod 100 < PROBABILITY then
        run_then (send_one K idx TAGS T level me w) (\<lambda>_ w1. sender_loop K idx rnd me TAGS rs (Suc k) w1)
      else sender_loop K idx rnd me TAGS rs (Suc k) w)"

definition sender ::
  "'w kern \<Rightarrow> c_int list \<Rightarrow> (nat \<Rightarrow> nat) \<Rightarrow> nat \<Rightarrow> c_int list \<Rightarrow> 'w \<Rightarrow> ('w, unit) run" where
  "sender K idx rnd me TAGS w = sender_loop K idx rnd me TAGS sender_rounds 0 w"

definition created_line :: "nat \<Rightarrow> string" where
  "created_line i = ''Tag created with key: '' @ show_nat i @ newline"

text \<open>The first refusal ends the program.\<close>

fun create_loop ::
  "'w kern \<Rightarrow> c_int list \<Rightarrow> nat list \<Rightarrow> c_int list \<Rightarrow> 'w \<Rightarrow> ('w, bool \<times> c_int list) run" where
  "create_loop K idx [] TAGS w = Inr ([], Some (True, TAGS), w)"
| "create_loop K idx (i # is) TAGS w =
     run_then (perform (tag_get_lib K idx (of_nat i + 1) CREATE OPEN_ROOM) w) (\<lambda>r w1. case r of
       Inl e \<Rightarrow> Inr (map text_of (tagGet_perror e (of_nat i + 1) CREATE), Some (False, TAGS), w1)
     | Inr tag \<Rightarrow> say [created_line i] (create_loop K idx is (TAGS[i := tag]) w1))"

text \<open>The loop that awakes asks for the tag \<open>j\<close>, not for \<open>TAGS[j]\<close>.\<close>

fun awake_loop :: "'w kern \<Rightarrow> c_int list \<Rightarrow> nat list \<Rightarrow> 'w \<Rightarrow> ('w, unit) run" where
  "awake_loop K idx [] w = Inr ([], Some (), w)"
| "awake_loop K idx (j # js) w =
     run_then (perform (tag_ctl_lib K idx (of_nat j) AWAKE_ALL) w) (\<lambda>r w1.
       say (case r of Inl e \<Rightarrow> map text_of (tagCtl_perror e (of_nat j) AWAKE_ALL) | Inr n \<Rightarrow> [])
         (awake_loop K idx js w1))"

definition deleted_line :: "c_int \<Rightarrow> string" where
  "deleted_line tag = ''Deleted service with TAG ID: '' @ num tag @ newline"

fun remove_loop :: "'w kern \<Rightarrow> c_int list \<Rightarrow> c_int list \<Rightarrow> nat list \<Rightarrow> 'w \<Rightarrow> ('w, unit) run" where
  "remove_loop K idx TAGS [] w = Inr ([], Some (), w)"
| "remove_loop K idx TAGS (j # js) w =
     run_then (perform (tag_ctl_lib K idx (TAGS ! j) REMOVE) w) (\<lambda>r w1.
       say ((case r of Inl e \<Rightarrow> map text_of (tagCtl_perror e (of_nat j) REMOVE) | Inr n \<Rightarrow> []) @ [deleted_line (TAGS ! j)])
         (remove_loop K idx TAGS js w1))"

definition started_lines :: "string list" where
  "started_lines =
     map (\<lambda>i. ''Receiver: '' @ show_nat i @ '' '' @ newline) [0..<NUM_READER] @
     map (\<lambda>i. ''Sender: '' @ show_nat (NUM_READER + i) @ '' '' @ newline) [0..<NUM_WRITER]"

text \<open>\<open>running\<close> is what the threads do before \<^verbatim>\<open>main\<close> awakes the sleepers, \<open>joined\<close> what they do
  from then until all have ended (it does not return when one never does).\<close>

definition demo_main ::
  "'w kern \<Rightarrow> errno + string \<Rightarrow> 'w threads \<Rightarrow> 'w threads \<Rightarrow> 'w \<Rightarrow> (int \<times> string list \<times> 'w) res" where
  "demo_main K file running joined w =
     rbind (initTBDE file [0, 0, 0, 0]) (\<lambda>(p, idx, out). case p of
       Exited why \<Rightarrow> Inr (1, out @ why, w)
     | Returns _ \<Rightarrow>
         rbind (say out
          (run_then (create_loop K idx [0..<NService] (replicate NService 0) w) (\<lambda>(fine, TAGS) w1.
             if \<not> fine then Inr ([], Some (- 1), w1)
             else say started_lines
              (run_then (running idx TAGS w1) (\<lambda>_ w2.
               say [newline @ newline @ ''Awake All'' @ newline @ newline]
              (run_then (awake_loop K idx [0..<NService] w2) (\<lambda>_ w3.
               run_then (joined idx TAGS w3) (\<lambda>_ w4.
               say [newline @ newline @ ''Start deleting'' @ newline @ newline]
              (run_then (remove_loop K idx TAGS [0..<NService] w4) (\<lambda>_ w5. Inr ([], Some 0, w5)))))))))))
           (\<lambda>(lines, status, w'). Inr (case status of None \<Rightarrow> 1 | Some n \<Rightarrow> n, lines, w')))"

end
