(* ===== verification/DemoThreads.thy ===== *)
theory DemoThreads
  imports DemoProgram Threads
begin

text \<open>
  The threads of the demonstration on the module.  A receiver's \<^verbatim>\<open>tag_receive\<close> comes in two parts, as
  in \<open>Threads\<close>: up to the sleep on its level, and from the moment the scheduler lets it look at the
  wake flag.  A receiver taken off the queue that finds the flag down again (another reader has
  begun to listen in between) goes back to sleep.  The calls of all threads come in any order, one
  at a time; what the receivers print is left out.
\<close>

section \<open>The module behind the library\<close>

text \<open>\<open>ended\<close>: the receivers whose \<^verbatim>\<open>tag_receive\<close> has returned.\<close>

record demo_sys = sys +
  ended :: "nat list"

definition on_module :: "kenv \<Rightarrow> call \<Rightarrow> demo_sys \<Rightarrow> (rv \<times> demo_sys) res" where
  "on_module env c w = rbind (run_call env (ker w) c) (\<lambda>(r, s). Inr (r, w\<lparr>ker := s\<rparr>))"

text \<open>The numbers \<open>idx\<close> are those of the module's functions, none of them in entry 0.\<close>

definition serves :: "demo_sys kern \<Rightarrow> c_int list \<Rightarrow> kenv \<Rightarrow> bool" where
  "serves K idx env \<longleftrightarrow> (\<forall>n < 4. idx ! n \<noteq> 0) \<and>
     (\<forall>k c p. K (idx ! 0) (GetR k c p) = on_module env (Get k c p)) \<and>
     (\<forall>tag level buf sz. K (idx ! 1) (SendR tag level buf sz) = on_module env (Send tag level buf sz)) \<and>
     (\<forall>tag c. K (idx ! 3) (CtlR tag c) = on_module env (Ctl tag c))"

lemma perform_served:
  assumes "serves K idx env"
  shows "perform (tag_get_lib K idx k c p) w = rbind (on_module env (Get k c p) w) (\<lambda>(r, w'). Inr ([], Some r, w'))"
    "perform (tag_send_lib K idx tag level buf sz) w =
       rbind (on_module env (Send tag level buf sz) w) (\<lambda>(r, w'). Inr ([], Some r, w'))"
    "perform (tag_ctl_lib K idx tag c) w = rbind (on_module env (Ctl tag c) w) (\<lambda>(r, w'). Inr ([], Some r, w'))"
  using assms by (simp_all add: serves_def perform_def tag_get_lib_def tag_send_lib_def tag_ctl_lib_def)

section \<open>What a thread does next\<close>

datatype act =
    Sends nat nat nat
  | Sleeps nat nat nat
  | Wakes nat

definition receive_starts :: "kenv \<Rightarrow> nat \<Rightarrow> c_int \<Rightarrow> c_int \<Rightarrow> demo_sys \<Rightarrow> demo_sys res" where
  "receive_starts env p tag level w =
     (let refused = (\<lambda>s. Inr (w\<lparr>ker := klogs ModulePut s, ended := p # ended w\<rparr>))
      in if \<not> module_live env then Inr (w\<lparr>ended := p # ended w\<rparr>)
         else
           let s1 = klogs (ReadLock SearchLock) (klogs TryModuleGet (ker w))
           in rbind (searchTAG_Service_withTag s1 tag) (\<lambda>found.
                let s2 = klogs (ReadUnlock SearchLock) s1
                in (case found of
                      None \<Rightarrow> refused s2
                    | Some a \<Rightarrow> (case sv_heap s2 a of
                        None \<Rightarrow> Inl Fault
                      | Some sv \<Rightarrow>
                          if \<not> validServiceOperation env sv then refused s2
                          else if sint level \<ge> int levelDeep then refused s2
                          else
                            rbind (search_enter (levels sv) level) (\<lambda>(my_epoch, l).
                              let j = the (level_ix level)
                              in Inr (w\<lparr>ker := queue_reader p a j (set_levels a sv l s2),
                                   asleep := (asleep w)(p \<mapsto>
                                     \<lparr>at_addr = a, at_ix = j, at_level = level, at_epoch = my_epoch\<rparr>)\<rparr>))))))"

text \<open>The message found is copied into the 256 bytes of the thread's stack, which can be written.\<close>

definition receive_goes_on :: "nat \<Rightarrow> demo_sys \<Rightarrow> demo_sys res" where
  "receive_goes_on p w = (case asleep w p of
     None \<Rightarrow> Inr w
   | Some x \<Rightarrow> (case sv_heap (ker w) (at_addr x) of
       None \<Rightarrow> Inl Fault
     | Some sv \<Rightarrow>
         if p \<in> set (readerQueue (levels sv) ! at_ix x) then Inr w
         else if ready (levels sv) ! at_ix x \<noteq> 1 then
           Inr (w\<lparr>ker := queue_reader p (at_addr x) (at_ix x) (ker w)\<rparr>)
         else
           rbind (search_leave (el_heap (mem (ker w))) (levels sv) (at_epoch x) (at_level x) False) (\<lambda>(e, l).
             let w' = w\<lparr>ker := klogs ModulePut (set_levels (at_addr x) sv l (ker w)),
                        asleep := (asleep w)(p := None), ended := p # ended w\<rparr>
             in (case e of
               None \<Rightarrow> Inr w'
             | Some a \<Rightarrow> (case el_heap (mem (ker w)) a of
                 None \<Rightarrow> Inl Fault
               | Some el \<Rightarrow>
                   if length (e_message el) < unat (min 256 (e_size el)) then Inl Fault else Inr w')))))"

fun act_run :: "kenv \<Rightarrow> demo_sys kern \<Rightarrow> c_int list \<Rightarrow> c_int list \<Rightarrow> act \<Rightarrow> demo_sys \<Rightarrow> (demo_sys, unit) run" where
  "act_run env K idx TAGS (Sends T level me) w = send_one K idx TAGS T level me w"
| "act_run env K idx TAGS (Sleeps p T level) w =
     (if idx ! 2 = 0 then Inr ([not_initialised], None, w)
      else if asleep w p \<noteq> None \<or> p \<in> set (ended w) then Inr ([], Some (), w)
      else rbind (receive_starts env p (TAGS ! T) (of_nat level) w) (\<lambda>w'. Inr ([], Some (), w')))"
| "act_run env K idx TAGS (Wakes p) w = rbind (receive_goes_on p w) (\<lambda>w'. Inr ([], Some (), w'))"

fun acts_run ::
  "kenv \<Rightarrow> demo_sys kern \<Rightarrow> c_int list \<Rightarrow> c_int list \<Rightarrow> act list \<Rightarrow> demo_sys \<Rightarrow> (demo_sys, unit) run" where
  "acts_run env K idx TAGS [] w = Inr ([], Some (), w)"
| "acts_run env K idx TAGS (a # as) w =
     run_then (act_run env K idx TAGS a w) (\<lambda>_ w1. acts_run env K idx TAGS as w1)"

text \<open>The threads before \<^verbatim>\<open>main\<close> awakes everybody, and from then until \<^verbatim>\<open>pthread_join\<close> has seen all
  receivers end; with nothing left to happen it waits for one that sleeps for ever.\<close>

definition threads_run :: "kenv \<Rightarrow> demo_sys kern \<Rightarrow> act list \<Rightarrow> demo_sys threads" where
  "threads_run env K xs idx TAGS w = acts_run env K idx TAGS xs w"

definition threads_end :: "kenv \<Rightarrow> demo_sys kern \<Rightarrow> act list \<Rightarrow> demo_sys threads" where
  "threads_end env K ys idx TAGS w =
     run_then (acts_run env K idx TAGS ys w) (\<lambda>_ w1.
       if list_all (\<lambda>p. p \<in> set (ended w1)) [0..<NUM_READER] then Inr ([], Some (), w1) else Inl Spin)"

section \<open>Levels whose flags are up and whose queues are empty\<close>

definition raised :: "rcu_list \<Rightarrow> bool" where
  "raised l \<longleftrightarrow> (\<forall>j < levelDeep. ready l ! j = 1 \<and> readerQueue l ! j = [])"

definition raised_at :: "kstate \<Rightarrow> addr \<Rightarrow> bool" where
  "raised_at s a \<longleftrightarrow> (\<exists>sv. sv_heap s a = Some sv \<and> raised (levels sv))"

definition keeps_raised :: "kstate \<Rightarrow> kstate \<Rightarrow> bool" where
  "keeps_raised s s' \<longleftrightarrow> (\<forall>a. raised_at s a \<longrightarrow> raised_at s' a)"

lemma raised_at_mem [simp]: "raised_at (s\<lparr>mem := m\<rparr>) a = raised_at s a" "raised_at (klogs c s) a = raised_at s a"
  "raised_at (klog_all cs s) a = raised_at s a"
  by (simp_all add: raised_at_def)

lemma raised_at_set [simp]:
  "raised_at (set_levels a sv l s) b = (if b = a then raised l else raised_at s b)"
  by (simp add: raised_at_def set_levels_def)

lemma raised_all_awake [simp]: "raised (all_awake l)"
  by (simp add: raised_def all_awake_def)

lemma raised_same: "same_queues l l' \<Longrightarrow> raised l' = raised l"
  by (simp add: raised_def same_queues_def)

lemma raised_wake: "raised l \<Longrightarrow> raised (wake_up_all j (l\<lparr>ready := (ready l)[j := 1]\<rparr>))"
  by (auto simp: raised_def wake_up_all_def nth_list_update_eq nth_list_update_neq)
    (metis list_update_beyond not_le nth_list_update_eq nth_list_update_neq)+

lemma keeps_raised_mem [simp]:
  "keeps_raised (klogs c s) s' = keeps_raised s s'" "keeps_raised s (klogs c s') = keeps_raised s s'"
  "keeps_raised s s"
  by (simp_all add: keeps_raised_def)

lemma send_level_raised:
  assumes "send_level env s a sv level buf sz = Inr (r, s')" "sv_heap s a = Some sv"
  shows "keeps_raised s s'"
proof -
  have "raised_at s a = raised (levels sv)" using assms(2) by (simp add: raised_at_def)
  with assms(1) show ?thesis
    by (auto simp: send_level_def put_return_def Let_def keeps_raised_def case_stuck raised_wake
        dest!: replace_queues dest: raised_same split: if_splits)
qed

lemma send_raised:
  assumes "run_call env s (Send tag level buffer sz) = Inr (r, s')"
  shows "keeps_raised s s'"
  using assms
  by (auto simp: tag_send_def put_return_def Let_def case_stuck case_Inr_split dest!: send_level_raised
      split: if_splits option.splits)

lemma awake_raised:
  assumes inv: "kinv s" and run: "run_call env s (Ctl tag AWAKE_ALL) = Inr (Inr 0, s')"
    and sl: "slot s (unat tag) = Some a"
  shows "keeps_raised s s'" "raised_at s' a"
proof -
  let ?s = "klogs TryModuleGet s"
  from kinv_slot [OF inv sl] obtain sv where sv: "sv_heap s a = Some sv" "svc_at s (unat tag) = Some sv" by auto
  have q: "quiet (levels sv)" using kinv_rcu_ok [OF inv sv(2)] by (simp add: rcu_ok_def)
  from run have "tag_ctl_TBDE_AWAKE_ALL env ?s tag = Inr (Inr 0, s')"
    by (auto simp: tag_ctl_def put_return_def Let_def split: if_splits)
  moreover have "kinv ?s" using inv by simp
  ultimately have "s' = klogs ModulePut (klogs (WriteUnlock SearchLock) (set_levels a sv (all_awake (levels sv))
      ((klogs (ReadUnlock SearchLock) (klogs (ReadLock SearchLock) ?s))
        \<lparr>mem := (mem (klogs (ReadUnlock SearchLock) (klogs (ReadLock SearchLock) ?s)))
          \<lparr>klog := klog (mem (klogs (ReadUnlock SearchLock) (klogs (ReadLock SearchLock) ?s))) @
            map (WakeUpAll a) [0..<levelDeep]\<rparr>\<rparr>)))"
    using sl sv q
    by (auto simp: tag_ctl_TBDE_AWAKE_ALL_def search_tag_klogs put_return_def Let_def awake_all split: if_splits)
  then show "keeps_raised s s'" "raised_at s' a" by (simp_all add: keeps_raised_def)
qed

section \<open>A change of flags and queues\<close>

lemma all_upd:
  "f i = Some x \<Longrightarrow> P y = P x \<Longrightarrow> (\<forall>k r. (f(i \<mapsto> y)) k = Some r \<longrightarrow> P r) \<longleftrightarrow> (\<forall>k r. f k = Some r \<longrightarrow> P r)"
  by (metis fun_upd_apply option.inject)

lemma levels_update:
  assumes inv: "kinv s" and sl: "slot s i = Some a" and sv: "sv_heap s a = Some sv"
    and l: "head l = head (levels sv)" "quiet l"
  shows "kinv (set_levels a sv l s)" "slot (set_levels a sv l s) = slot s"
    "complete (set_levels a sv l s) = complete s"
    "budget env (set_levels a sv l s) n m = budget env s n m"
    "rooms_of (set_levels a sv l s) = (rooms_of s)(i \<mapsto> room_of (mem s) (sv\<lparr>levels := l\<rparr>))"
proof -
  have at: "svc_at s i = Some sv" using sl sv by (simp add: svc_at_def)
  note U = same_nodes_update [OF inv sl sv l]
  show "kinv (set_levels a sv l s)" "slot (set_levels a sv l s) = slot s" using U(1,3) by blast+
  show R: "rooms_of (set_levels a sv l s) = (rooms_of s)(i \<mapsto> room_of (mem s) (sv\<lparr>levels := l\<rparr>))"
    using rooms_update [of "set_levels a sv l s" s i "Some (sv\<lparr>levels := l\<rparr>)", OF U(2)] by simp
  have v: "rcu_view (mem s) l = rcu_view (mem s) (levels sv)" by (rule rcu_same_head) (rule l(1))
  show "complete (set_levels a sv l s) = complete s"
    unfolding complete_rooms R by (rule all_upd, rule rooms_at [OF at]) (simp add: v)
  show "budget env (set_levels a sv l s) n m = budget env s n m"
    using dom_set_levels [OF sv, of l "mem s"] by (simp add: budget_def alloc_room_def)
qed

section \<open>What the phases of the demonstration rely on\<close>

text \<open>An environment in which calls succeed, and a state with memory for \<open>n\<close> calls.\<close>

definition healthy :: "kenv \<Rightarrow> bool" where
  "healthy env \<longleftrightarrow> env_sound env \<and> vzalloc_ok env \<and> module_live env"

definition ready_for :: "kenv \<Rightarrow> nat \<Rightarrow> kstate \<Rightarrow> bool" where
  "ready_for env n s \<longleftrightarrow> kinv s \<and> complete s \<and> budget env s (levelDeep * n) n"

lemma ready_for_klogs [simp]:
  "ready_for env n (klogs c s) = ready_for env n s" "ready_for env n (klog_all cs s) = ready_for env n s"
  by (simp_all add: ready_for_def)

text \<open>The first \<open>k\<close> services of the program less those in \<open>D\<close>; only those in \<open>A\<close> have sleepers.\<close>

definition services :: "nat \<Rightarrow> nat set \<Rightarrow> nat set \<Rightarrow> rooms \<Rightarrow> bool" where
  "services k A D R \<longleftrightarrow> (\<forall>i. R i \<noteq> None \<longleftrightarrow> i < k \<and> i \<notin> D) \<and>
     (\<forall>i r. R i = Some r \<longrightarrow> r_perm r = OPEN_ROOM \<and> (i \<notin> A \<longrightarrow> r_sleep r = []))"

lemma services_upd:
  assumes "services k A D R" "R i = Some r" "r_perm r' = r_perm r" "i \<notin> A \<longrightarrow> r_sleep r' = r_sleep r"
  shows "services k A D (R(i \<mapsto> r'))"
  using assms by (auto simp: services_def)

lemma unat_tag [simp]: "T < NService \<Longrightarrow> unat (of_nat T :: c_int) = T"
  by (simp add: NService_def unat_of_nat)

text \<open>Every sleeping receiver's service is one of the program's.\<close>

definition parked :: "demo_sys \<Rightarrow> bool" where
  "parked w \<longleftrightarrow> (\<forall>p x. asleep w p = Some x \<longrightarrow> at_epoch x < 2 \<and> level_ix (at_level x) = Some (at_ix x) \<and>
     (\<exists>T < NService. slot (ker w) T = Some (at_addr x)))"

definition fit :: "kenv \<Rightarrow> nat \<Rightarrow> nat set \<Rightarrow> demo_sys \<Rightarrow> bool" where
  "fit env n A w \<longleftrightarrow> ready_for env n (ker w) \<and> services NService A {} (rooms_of (ker w)) \<and> parked w"

text \<open>After the awaking, all flags that sleepers look at are up, and they stay up.\<close>

definition called :: "demo_sys \<Rightarrow> bool" where
  "called w \<longleftrightarrow> (\<forall>p x. asleep w p = Some x \<longrightarrow> raised_at (ker w) (at_addr x))"

text \<open>A step of flags and queues in the service \<open>T\<close>.\<close>

lemma levels_fit:
  assumes f: "fit env n A w" and sl: "slot (ker w) T = Some a" and sv: "sv_heap (ker w) a = Some sv"
    and l: "head l = head (levels sv)" "quiet l" and A: "T \<in> A \<or> sleepers l = sleepers (levels sv)"
  shows "ready_for env n (set_levels a sv l (ker w))" "slot (set_levels a sv l (ker w)) = slot (ker w)"
    "services NService A {} (rooms_of (set_levels a sv l (ker w)))"
proof -
  have inv: "kinv (ker w)" and s: "services NService A {} (rooms_of (ker w))"
    using f by (simp_all add: fit_def ready_for_def)
  note U = levels_update [OF inv sl sv l]
  show "ready_for env n (set_levels a sv l (ker w))" using f U by (simp add: fit_def ready_for_def)
  show "slot (set_levels a sv l (ker w)) = slot (ker w)" by (rule U)
  have at: "svc_at (ker w) T = Some sv" using sl sv by (simp add: svc_at_def)
  show "services NService A {} (rooms_of (set_levels a sv l (ker w)))"
    unfolding U(5) by (rule services_upd [OF s rooms_at [OF at]]) (use A in auto)
qed

lemma fit_slot:
  assumes "fit env n A w" "T < NService"
  obtains a sv where "slot (ker w) T = Some a" "sv_heap (ker w) a = Some sv" "svc_at (ker w) T = Some sv"
    "rooms_of (ker w) T = Some (room_of (mem (ker w)) sv)" "quiet (levels sv)" "sv_perm sv = OPEN_ROOM"
proof -
  have inv: "kinv (ker w)" and s: "services NService A {} (rooms_of (ker w))"
    using assms(1) by (simp_all add: fit_def ready_for_def)
  from s assms(2) obtain r where r: "rooms_of (ker w) T = Some r" "r_perm r = OPEN_ROOM"
    unfolding services_def by (metis empty_iff option.exhaust)
  from r(1) obtain a where a: "slot (ker w) T = Some a" using rooms_of_None [OF inv, of T] by fastforce
  with kinv_slot [OF inv] obtain sv where sv: "sv_heap (ker w) a = Some sv" "svc_at (ker w) T = Some sv" by auto
  have "quiet (levels sv)" using kinv_rcu_ok [OF inv sv(2)] by (simp add: rcu_ok_def)
  with a sv r rooms_at [OF sv(2)] show thesis by (intro that) auto
qed

section \<open>One act\<close>

definition act_ok :: "act \<Rightarrow> bool" where
  "act_ok a = (case a of
     Sends T level me \<Rightarrow> T < NService \<and> level < levelDeep \<and> me < NUM_READER + NUM_WRITER
   | Sleeps p T level \<Rightarrow> p < NUM_READER \<and> T < NService \<and> level < levelDeep
   | Wakes p \<Rightarrow> p < NUM_READER)"

text \<open>A send needs memory, the parts of a receive do not.\<close>

definition cost :: "act \<Rightarrow> nat" where
  "cost a = (case a of Sends T level me \<Rightarrow> 1 | _ \<Rightarrow> 0)"

abbreviation costs :: "act list \<Rightarrow> nat" where
  "costs xs \<equiv> sum_list (map cost xs)"

definition sleeps :: "act \<Rightarrow> bool" where
  "sleeps a = (case a of Sleeps p T level \<Rightarrow> True | _ \<Rightarrow> False)"

abbreviation five_tags :: "c_int list" where
  "five_tags \<equiv> map of_nat [0..<NService]"

lemma small_level: "l < levelDeep \<Longrightarrow> sint (of_nat l :: c_int) = int l \<and> level_ix (of_nat l) = Some l"
proof -
  assume l: "l < levelDeep"
  then have "sint (of_nat l :: c_int) = int l" by (intro sint_of_nat_small) (simp add: levelDeep_def)
  with l show ?thesis by (simp add: level_ix_def)
qed

text \<open>A receiver goes to sleep.\<close>

lemma starts_fit:
  assumes f: "fit env n A w" and A: "{..<NService} \<subseteq> A" and env: "healthy env"
    and T: "T < NService" "l < levelDeep" and p: "asleep w p = None"
  shows "\<exists>w'. receive_starts env p (of_nat T) (of_nat l) w = Inr w' \<and> fit env n A w' \<and>
    asleep w' p \<noteq> None \<and> (\<forall>q. q \<noteq> p \<longrightarrow> asleep w' q = asleep w q) \<and> ended w' = ended w"
proof -
  from fit_slot [OF f T(1)] obtain a sv where
    a: "slot (ker w) T = Some a" "sv_heap (ker w) a = Some sv" "svc_at (ker w) T = Some sv"
      "rooms_of (ker w) T = Some (room_of (mem (ker w)) sv)" "quiet (levels sv)" "sv_perm sv = OPEN_ROOM" .
  have inv: "kinv (ker w)" using f by (simp add: fit_def ready_for_def)
  let ?k = "klog_all receive_prefix (ker w)"
  let ?s = "receive_sleep a l (ker w)" and ?sv = "sv\<lparr>levels := listening l (levels sv)\<rparr>"
  have eq: "?s = set_levels a sv (listening l (levels sv)) ?k" using a(2) by (simp add: receive_sleep_def)
  have f0: "fit env n A (w\<lparr>ker := ?k\<rparr>)" using f by (simp add: fit_def parked_def)
  note S = levels_fit [OF f0, simplified, OF a(1,2), of "listening l (levels sv)", simplified, OF listening_simps(2) [OF a(5)], folded eq]
  have sl: "slot ?s T = Some a" "sv_heap ?s a = Some ?sv" using S(2) a(1) by (simp_all add: eq set_levels_def)
  have f1: "fit env n A (w\<lparr>ker := ?s\<rparr>)"
    using S f by (simp add: fit_def parked_def)
  let ?q = "queue_reader p a l ?s"
  have eq2: "?q = set_levels a ?sv (enqueue p l (levels ?sv)) ?s" using sl(2) by (simp add: queue_reader_def)
  have Q: "ready_for env n ?q" "slot ?q = slot ?s" "services NService A {} (rooms_of ?q)"
    using levels_fit [OF f1, simplified, OF sl, of "enqueue p l (levels ?sv)"] a(5) A T(1) unfolding eq2 by auto
  have e: "epoch (levels sv) < 2" using a(5) by (simp add: quiet_def)
  let ?w = "w\<lparr>ker := ?q, asleep := (asleep w)(p \<mapsto>
    \<lparr>at_addr = a, at_ix = l, at_level = of_nat l, at_epoch = epoch (levels sv)\<rparr>)\<rparr>"
  have valid: "validServiceOperation env sv" using a(6) by (simp add: validServiceOperation_def)
  have "kinv (klogs TryModuleGet (ker w))" using inv by simp
  then have "receive_starts env p (of_nat T) (of_nat l) w = Inr ?w"
    using env a(1,2) T small_level [OF T(2)] valid
    by (simp add: receive_starts_def Let_def search_tag_klogs search_enter_eq healthy_def eq receive_prefix_def
        klogs_klog_all listening_def)
  moreover have "fit env n A ?w"
    using Q S(2) f e a(1) T(1) small_level [OF T(2)] by (auto simp: fit_def parked_def)
  ultimately show ?thesis by auto
qed

text \<open>The return of a receiver that finds the flag up.\<close>

lemma leaves_fit:
  assumes f: "fit env n A w" and x: "asleep w p = Some x" and sv: "sv_heap (ker w) (at_addr x) = Some sv"
    and p: "p \<notin> set (readerQueue (levels sv) ! at_ix x)" "ready (levels sv) ! at_ix x = 1"
  shows "\<exists>w' l. receive_goes_on p w = Inr w' \<and> fit env n A w' \<and> asleep w' = (asleep w)(p := None) \<and>
    ended w' = p # ended w \<and> ker w' = klogs ModulePut (set_levels (at_addr x) sv l (ker w)) \<and>
    raised l = raised (levels sv)"
proof -
  from f x obtain T where T: "T < NService" "slot (ker w) T = Some (at_addr x)" "at_epoch x < 2"
    "level_ix (at_level x) = Some (at_ix x)" unfolding fit_def parked_def by blast
  have inv: "kinv (ker w)" using f by (simp add: fit_def ready_for_def)
  have at: "svc_at (ker w) T = Some sv" using T(2) sv by (simp add: svc_at_def)
  note wf = kinv_wf [OF inv at]
  then have ok: "rcu_ok (mem (ker w)) (levels sv)" "quiet (levels sv)" by (simp_all add: svc_wf_def rcu_ok_def)
  let ?l = "(levels sv)\<lparr>waiters := (waiters (levels sv))[at_ix x := waiters (levels sv) ! at_ix x - 1]\<rparr>"
  from search_leave_woken [OF ok(1) T(4,3)] obtain e where
    e: "search_leave (el_heap (mem (ker w))) (levels sv) (at_epoch x) (at_level x) False = Inr (e, ?l)"
      "rcu_view (mem (ker w)) (levels sv) (at_level x) =
        map_option (\<lambda>a. (e_message (the (el_heap (mem (ker w)) a)), e_size (the (el_heap (mem (ker w)) a)))) e"
      "\<forall>a. e = Some a \<longrightarrow> el_heap (mem (ker w)) a \<noteq> None" by blast
  have len: "\<not> length (e_message el) < unat (min 256 (e_size el))"
    if "e = Some a" "el_heap (mem (ker w)) a = Some el" for a el
  proof -
    have "rcu_view (mem (ker w)) (levels sv) (at_level x) = Some (e_message el, e_size el)" using e(2) that by simp
    with wf have "unat (e_size el) \<le> length (e_message el)" unfolding svc_wf_def by blast
    moreover have "unat (min 256 (e_size el)) \<le> unat (e_size el)" by (simp add: min_def word_le_nat_alt)
    ultimately show ?thesis by simp
  qed
  have l: "head ?l = head (levels sv)" "quiet ?l" using ok(2) by (simp_all add: quiet_def)
  have l3: "sleepers ?l = sleepers (levels sv)" by (rule sleepers_cong) simp
  note U = levels_fit [OF f T(2) sv l(1,2) disjI2 [OF l3]]
  let ?w = "w\<lparr>ker := klogs ModulePut (set_levels (at_addr x) sv ?l (ker w)), asleep := (asleep w)(p := None),
    ended := p # ended w\<rparr>"
  have "receive_goes_on p w = Inr ?w"
    using x sv p e(1,3) len by (auto simp: receive_goes_on_def Let_def split: option.splits)
  moreover have "fit env n A ?w" using U f by (auto simp: fit_def parked_def)
  moreover have "raised ?l = raised (levels sv)" by (simp add: raised_def)
  ultimately show ?thesis by (intro exI [of _ ?w] exI [of _ ?l]) simp
qed

lemma goes_on_fit:
  assumes f: "fit env n A w" and A: "{..<NService} \<subseteq> A \<or> called w"
  shows "\<exists>w'. receive_goes_on p w = Inr w' \<and> fit env n A w' \<and> (\<forall>q. q \<noteq> p \<longrightarrow> asleep w' q = asleep w q) \<and>
    set (ended w) \<subseteq> set (ended w') \<and> (asleep w p \<noteq> None \<longrightarrow> asleep w' p \<noteq> None \<or> p \<in> set (ended w')) \<and>
    (called w \<longrightarrow> called w' \<and> asleep w' p = None)"
proof (cases "asleep w p")
  case None
  with f show ?thesis by (simp add: receive_goes_on_def)
next
  case (Some x)
  from f Some obtain T where T: "T < NService" "slot (ker w) T = Some (at_addr x)"
    "level_ix (at_level x) = Some (at_ix x)" unfolding fit_def parked_def by blast
  have inv: "kinv (ker w)" using f by (simp add: fit_def ready_for_def)
  from kinv_slot [OF inv T(2)] obtain sv where
    sv: "sv_heap (ker w) (at_addr x) = Some sv" "svc_at (ker w) T = Some sv" by blast
  have q: "quiet (levels sv)" using kinv_rcu_ok [OF inv sv(2)] by (simp add: rcu_ok_def)
  have up: "p \<notin> set (readerQueue (levels sv) ! at_ix x) \<and> ready (levels sv) ! at_ix x = 1" if "called w"
    using that Some sv(1) level_ix_Some [OF T(3)] by (force simp: called_def raised_at_def raised_def)
  consider (asleep) "p \<in> set (readerQueue (levels sv) ! at_ix x)"
    | (again) "p \<notin> set (readerQueue (levels sv) ! at_ix x)" "ready (levels sv) ! at_ix x \<noteq> 1"
    | (leaves) "p \<notin> set (readerQueue (levels sv) ! at_ix x)" "ready (levels sv) ! at_ix x = 1" by blast
  then show ?thesis
  proof cases
    case asleep
    with f Some sv(1) up show ?thesis by (auto simp: receive_goes_on_def)
  next
    case again
    with up have "\<not> called w" by blast
    with A T(1) have TA: "T \<in> A" by blast
    let ?w = "w\<lparr>ker := queue_reader p (at_addr x) (at_ix x) (ker w)\<rparr>"
    have eq: "queue_reader p (at_addr x) (at_ix x) (ker w) = set_levels (at_addr x) sv (enqueue p (at_ix x) (levels sv)) (ker w)"
      using sv(1) by (simp add: queue_reader_def)
    note U = levels_fit [OF f T(2) sv(1) enqueue_simps(1) enqueue_simps(2) [OF q] disjI1 [OF TA], of p "at_ix x", folded eq]
    have "receive_goes_on p w = Inr ?w" using again Some sv(1) by (simp add: receive_goes_on_def)
    moreover have "fit env n A ?w" using U f by (simp add: fit_def parked_def)
    ultimately show ?thesis using Some \<open>\<not> called w\<close> by auto
  next
    case leaves
    from leaves_fit [OF f Some sv(1) leaves] obtain w' l where w': "receive_goes_on p w = Inr w'" "fit env n A w'"
      "asleep w' = (asleep w)(p := None)" "ended w' = p # ended w"
      "ker w' = klogs ModulePut (set_levels (at_addr x) sv l (ker w))" "raised l = raised (levels sv)" by blast
    have "called w'" if c: "called w"
    proof -
      have "raised (levels sv)" using c Some sv(1) unfolding called_def raised_at_def by fastforce
      with c show ?thesis unfolding called_def w'(3,5) by (simp add: w'(6))
    qed
    with w' show ?thesis by auto
  qed
qed

text \<open>A send of a sender: it is answered 0.\<close>

lemma one_call:
  assumes "healthy env" "ready_for env (Suc n) s" "a_call env (rooms_of s) c = (r, R)"
  shows "\<exists>s'. run_call env s c = Inr (r, s') \<and> ready_for env n s' \<and> rooms_of s' = R"
  using call_refines [of env s "levelDeep * n" n c] assms
  by (auto simp: healthy_def ready_for_def algebra_simps)

lemma message_length:
  assumes "me < NUM_READER + NUM_WRITER"
  shows "length (thread_message me) \<le> 4096"
proof -
  have "length (show_nat me) \<le> 2"
    unfolding show_nat_def by (rule show_digits_length(2)) (use assms in \<open>auto simp: demo_macros\<close>)
  then show ?thesis by (simp add: thread_message_def bytes_of_def)
qed

definition send_call :: "nat \<Rightarrow> nat \<Rightarrow> nat \<Rightarrow> call" where
  "send_call T level me = Send (of_nat T) (of_nat level) (Some (thread_message me)) (of_nat (length (thread_message me)))"

lemma send_answered:
  assumes "module_live env" "act_ok (Sends T l me)" "services NService A {} R"
  shows "\<exists>R'. a_call env R (send_call T l me) = (Inr 0, R') \<and> services NService A {} R'"
proof -
  from assms(2) have T: "T < NService" "l < levelDeep" "me < NUM_READER + NUM_WRITER" by (simp_all add: act_ok_def)
  let ?n = "length (thread_message me)"
  from assms(3) T(1) obtain r where r: "R T = Some r" "r_perm r = OPEN_ROOM" "T \<notin> A \<longrightarrow> r_sleep r = []"
    unfolding services_def by (metis empty_iff option.exhaust)
  have sz: "unat (of_nat ?n :: size_t) = ?n" "\<not> MAX_MESSAGE_SIZE < (of_nat ?n :: size_t)"
    using message_length [OF T(3)]
    by (simp_all add: unat_of_nat MAX_MESSAGE_SIZE_def word_less_nat_alt not_less)
  from assms(1) T(1,2) r sz small_level [OF T(2)] have "a_call env R (send_call T l me) =
      (Inr 0, R(T \<mapsto> r\<lparr>r_msg := (r_msg r)(of_nat l \<mapsto> (thread_message me, of_nat ?n)),
        r_sleep := filter (\<lambda>i. i \<noteq> l) (r_sleep r)\<rparr>))"
    by (simp add: send_call_def a_send_def r_allowed_def)
  moreover have "services NService A {} (R(T \<mapsto> r\<lparr>r_msg := m, r_sleep := filter (\<lambda>i. i \<noteq> l) (r_sleep r)\<rparr>))" for m
    using assms(3) r T(1) by (auto simp: services_def)
  ultimately show ?thesis by blast
qed

lemma parked_call:
  assumes "parked w" "keeps_slots (ker w) s"
  shows "parked (w\<lparr>ker := s\<rparr>)"
  using assms by (fastforce simp: parked_def keeps_slots_def)

lemma send_fit:
  assumes env: "healthy env" "serves K idx env" and ok: "act_ok (Sends T l me)" and f: "fit env (Suc n) A w"
  shows "\<exists>s. send_one K idx five_tags T l me w = Inr ([], Some (), w\<lparr>ker := s\<rparr>) \<and> fit env n A (w\<lparr>ker := s\<rparr>) \<and>
    (called w \<longrightarrow> called (w\<lparr>ker := s\<rparr>))"
proof -
  from ok have T: "T < NService" by (simp add: act_ok_def)
  from f env(1) send_answered [OF _ ok, of env A "rooms_of (ker w)"] obtain R where
    R: "a_call env (rooms_of (ker w)) (send_call T l me) = (Inr 0, R)" "services NService A {} R"
    by (auto simp: fit_def healthy_def)
  from one_call [OF env(1) _ R(1)] f obtain s where
    s: "run_call env (ker w) (send_call T l me) = Inr (Inr 0, s)" "ready_for env n s" "rooms_of s = R"
    by (auto simp: fit_def)
  have k: "keeps_slots (ker w) s"
    using call_keeps_slots [OF _ _ s(1)] f by (simp add: no_remove_def send_call_def fit_def ready_for_def)
  have "keeps_raised (ker w) s" using s(1) unfolding send_call_def by (rule send_raised)
  then have "called w \<longrightarrow> called (w\<lparr>ker := s\<rparr>)" by (auto simp: called_def keeps_raised_def)
  moreover have "send_one K idx five_tags T l me w = Inr ([], Some (), w\<lparr>ker := s\<rparr>)"
    using s(1) T by (simp add: send_one_def perform_served [OF env(2)] on_module_def send_call_def del: upt_Suc)
  moreover have "fit env n A (w\<lparr>ker := s\<rparr>)"
    using s(2,3) R(2) f parked_call [OF _ k] by (simp add: fit_def)
  ultimately show ?thesis by blast
qed

section \<open>The acts of all threads\<close>

definition accounted :: "demo_sys \<Rightarrow> nat \<Rightarrow> bool" where
  "accounted w p \<longleftrightarrow> asleep w p \<noteq> None \<or> p \<in> set (ended w)"

definition progress :: "act \<Rightarrow> demo_sys \<Rightarrow> demo_sys \<Rightarrow> bool" where
  "progress a w w' \<longleftrightarrow> (\<forall>p. accounted w p \<or> (\<exists>T l. a = Sleeps p T l) \<longrightarrow> accounted w' p) \<and>
     (called w \<and> \<not> sleeps a \<longrightarrow> called w' \<and> (\<forall>p. asleep w p = None \<or> a = Wakes p \<longrightarrow> asleep w' p = None))"

lemma act_fit:
  assumes env: "healthy env" "serves K idx env" and ok: "act_ok a" and f: "fit env (cost a + n) A w"
    and A: "{..<NService} \<subseteq> A \<or> called w \<and> \<not> sleeps a"
  shows "\<exists>w'. act_run env K idx five_tags a w = Inr ([], Some (), w') \<and> fit env n A w' \<and> progress a w w'"
proof (cases a)
  case (Sends T l me)
  with f have "fit env (Suc n) A w" by (simp add: cost_def)
  from send_fit [OF env _ this] ok Sends obtain s where
    "send_one K idx five_tags T l me w = Inr ([], Some (), w\<lparr>ker := s\<rparr>)" "fit env n A (w\<lparr>ker := s\<rparr>)"
    "called w \<longrightarrow> called (w\<lparr>ker := s\<rparr>)" by blast
  then show ?thesis by (simp add: Sends progress_def accounted_def)
next
  case (Sleeps p T l)
  then have T: "T < NService" "l < levelDeep" "{..<NService} \<subseteq> A" "idx ! 2 \<noteq> 0" "fit env n A w"
    using f ok A env(2) by (simp_all add: act_ok_def sleeps_def serves_def cost_def)
  show ?thesis
  proof (cases "asleep w p \<noteq> None \<or> p \<in> set (ended w)")
    case True
    with T show ?thesis by (simp add: Sleeps progress_def accounted_def sleeps_def)
  next
    case False
    then have "asleep w p = None" by blast
    from starts_fit [OF T(5,3) env(1) T(1,2) this] obtain w' where
      "receive_starts env p (of_nat T) (of_nat l) w = Inr w'" "fit env n A w'" "asleep w' p \<noteq> None"
      "\<forall>q. q \<noteq> p \<longrightarrow> asleep w' q = asleep w q" "ended w' = ended w" by blast
    with T False show ?thesis by (auto simp: Sleeps progress_def accounted_def sleeps_def simp del: upt_Suc)
  qed
next
  case (Wakes p)
  with f have "fit env n A w" by (simp add: cost_def)
  from goes_on_fit [OF this, of p] A obtain w' where
    w': "receive_goes_on p w = Inr w'" "fit env n A w'" "\<forall>q. q \<noteq> p \<longrightarrow> asleep w' q = asleep w q"
      "set (ended w) \<subseteq> set (ended w')" "asleep w p \<noteq> None \<longrightarrow> asleep w' p \<noteq> None \<or> p \<in> set (ended w')"
      "called w \<longrightarrow> called w' \<and> asleep w' p = None" by blast
  have "progress a w w'" unfolding progress_def accounted_def using w'(3-6) Wakes by (metis act.distinct(6) act.inject(3) subsetD)
  with w'(1,2) show ?thesis by (simp add: Wakes)
qed

lemma running_fit:
  assumes env: "healthy env" "serves K idx env" and A: "{..<NService} \<subseteq> A"
  shows "list_all act_ok xs \<Longrightarrow> fit env (costs xs + n) A w \<Longrightarrow>
    \<exists>w'. acts_run env K idx five_tags xs w = Inr ([], Some (), w') \<and> fit env n A w' \<and>
      (\<forall>p. accounted w p \<or> (\<exists>T l. Sleeps p T l \<in> set xs) \<longrightarrow> accounted w' p)"
proof (induction xs arbitrary: w)
  case (Cons a xs)
  from act_fit [OF env, of a "costs xs + n" A w] Cons.prems A obtain w1 where
    w1: "act_run env K idx five_tags a w = Inr ([], Some (), w1)" "fit env (costs xs + n) A w1" "progress a w w1"
    by (auto simp: add.assoc)
  from Cons.IH [OF _ w1(2)] Cons.prems(1) obtain w' where
    "acts_run env K idx five_tags xs w1 = Inr ([], Some (), w')" "fit env n A w'"
    "\<forall>p. accounted w1 p \<or> (\<exists>T l. Sleeps p T l \<in> set xs) \<longrightarrow> accounted w' p" by auto
  with w1 show ?case by (auto simp: progress_def simp del: upt_Suc)
qed simp

lemma ending_fit:
  assumes env: "healthy env" "serves K idx env"
  shows "list_all act_ok ys \<Longrightarrow> list_all (\<lambda>a. \<not> sleeps a) ys \<Longrightarrow> fit env (costs ys + n) A w \<Longrightarrow> called w \<Longrightarrow>
    \<exists>w'. acts_run env K idx five_tags ys w = Inr ([], Some (), w') \<and> fit env n A w' \<and>
      (\<forall>p. accounted w p \<longrightarrow> accounted w' p) \<and>
      (\<forall>p. asleep w p = None \<or> Wakes p \<in> set ys \<longrightarrow> asleep w' p = None)"
proof (induction ys arbitrary: w)
  case (Cons a ys)
  from act_fit [OF env, of a "costs ys + n" A w] Cons.prems obtain w1 where
    w1: "act_run env K idx five_tags a w = Inr ([], Some (), w1)" "fit env (costs ys + n) A w1" "progress a w w1"
    by (auto simp: add.assoc)
  have "called w1" using w1(3) Cons.prems(2,4) by (simp add: progress_def)
  from Cons.IH [OF _ _ w1(2) this] Cons.prems(1,2) obtain w' where
    "acts_run env K idx five_tags ys w1 = Inr ([], Some (), w')" "fit env n A w'"
    "\<forall>p. accounted w1 p \<longrightarrow> accounted w' p"
    "\<forall>p. asleep w1 p = None \<or> Wakes p \<in> set ys \<longrightarrow> asleep w' p = None" by auto
  with w1 Cons.prems(2,4) show ?case by (auto simp: progress_def simp del: upt_Suc)
qed simp

text \<open>A sender's code makes its sends one after the other, as its draws say.\<close>

lemma sender_acts:
  "sender_loop K idx rnd me TAGS rs k w =
     acts_run env K idx TAGS (map (\<lambda>i. Sends (fst (rs ! i)) (snd (rs ! i)) me)
       (filter (\<lambda>i. rnd (i + k) mod 100 < PROBABILITY) [0..<length rs])) w"
proof (induction rs arbitrary: k w)
  case (Cons x rs)
  obtain T l where x: "x = (T, l)" by fastforce
  have up: "[0..<length (x # rs)] = 0 # map Suc [0..<length rs]"
    by (simp only: list.size add_0_right add_Suc_right map_Suc_upt upt_conv_Cons [OF zero_less_Suc])
  have "sender_loop K idx rnd me TAGS rs (Suc k) =
      acts_run env K idx TAGS (map (\<lambda>i. Sends (fst (rs ! i)) (snd (rs ! i)) me)
        (filter (\<lambda>i. rnd (i + Suc k) mod 100 < PROBABILITY) [0..<length rs]))"
    by (rule ext) (rule Cons.IH)
  then show ?case unfolding up by (simp add: x filter_map comp_def)
qed simp

end
