(* ===== verification/DemoProps.thy ===== *)
theory DemoProps
  imports DemoThreads
begin

text \<open>
  The demonstration run on the module: on an empty table it creates the tags 0 to 4, its sends and
  receives succeed in whatever order they come, its receivers end once everybody has been awoken,
  and it leaves an empty table.
\<close>

section \<open>The phases\<close>

lemma first_index_split:
  "\<forall>x \<in> set xs. \<not> P x \<Longrightarrow> P y \<Longrightarrow> first_index P (xs @ y # ys) = Some (length xs)"
  by (induction xs) auto

lemma upt_split: "k < n \<Longrightarrow> [0..<n] = [0..<k] @ k # [Suc k..<n]"
  using upt_add_eq_append [of 0 k "n - k"] upt_conv_Cons [of k n] by simp

lemma r_free_first: "(\<And>i. R i = None \<longleftrightarrow> \<not> i < k) \<Longrightarrow> k < min_sys_TAG_Services \<Longrightarrow> r_free R = Some k"
  using first_index_split [of "[0..<k]" "\<lambda>i. R i = None" k] by (simp add: r_free_def tags_def upt_split)

lemma create_one:
  assumes "module_live env" "k < NService" "services k {} {} R" "\<forall>i < k. \<exists>r. R i = Some r \<and> r_key r = of_nat i + 1"
  shows "a_call env R (Get (of_nat k + 1) CREATE OPEN_ROOM) =
    (Inr (of_nat k), R(k \<mapsto> new_room env (of_nat k + 1) OPEN_ROOM))"
proof -
  have "R i = None \<longleftrightarrow> \<not> i < k" for i using assms(3) unfolding services_def by blast
  then have free: "r_free R = Some k"
    by (rule r_free_first) (use assms(2) in \<open>simp add: NService_def min_sys_TAG_Services_def\<close>)
  have key: "of_nat k + 1 = (of_nat (k + 1) :: c_int)" by simp
  have "\<not> has_key R (of_nat k + 1) i" for i
  proof (cases "i < k")
    case True
    with assms(4) obtain r where r: "R i = Some r" "r_key r = of_nat (i + 1)" by auto
    have "(of_nat (i + 1) :: c_int) \<noteq> of_nat (k + 1)"
      using True assms(2) by (subst of_nat_c_int_eq_iff) (simp_all add: NService_def)
    with r show ?thesis by (simp add: has_key_def key)
  next
    case False
    with assms(3) show ?thesis by (auto simp: services_def has_key_def split: option.split)
  qed
  then have find: "r_find R (of_nat k + 1) = None" by (simp add: r_find_def find_None_iff)
  have "(of_nat (k + 1) :: c_int) \<noteq> of_nat 0"
    using assms(2) by (subst of_nat_c_int_eq_iff) (simp_all add: NService_def)
  then have "of_nat k + 1 \<noteq> (0 :: c_int)" by (simp add: add.commute)
  with assms(1) free find show ?thesis by (simp add: a_get_def a_create_def)
qed

definition keyed :: "nat \<Rightarrow> rooms \<Rightarrow> bool" where
  "keyed k R \<longleftrightarrow> (\<forall>i < k. \<exists>r. R i = Some r \<and> r_key r = of_nat i + 1)"

lemma create_all:
  assumes ok: "healthy env" "serves K idx env"
  shows "d + k = NService \<Longrightarrow> length TAGS = NService \<Longrightarrow> ready_for env (d + n) (ker w) \<Longrightarrow>
    services k {} {} (rooms_of (ker w)) \<Longrightarrow> keyed k (rooms_of (ker w)) \<Longrightarrow>
    \<exists>s'. create_loop K idx [k..<NService] TAGS w =
        Inr (map created_line [k..<NService], Some (True, take k TAGS @ map of_nat [k..<NService]), w\<lparr>ker := s'\<rparr>) \<and>
      ready_for env n s' \<and> services NService {} {} (rooms_of s')"
proof (induction d arbitrary: k TAGS w)
  case 0
  then show ?case by (intro exI [of _ "ker w"]) simp
next
  case (Suc d)
  then have k: "k < NService" by simp
  let ?c = "Get (of_nat k + 1) CREATE OPEN_ROOM"
  have "a_call env (rooms_of (ker w)) ?c =
      (Inr (of_nat k), (rooms_of (ker w))(k \<mapsto> new_room env (of_nat k + 1) OPEN_ROOM))"
    using create_one ok(1) k Suc.prems(4,5) by (simp add: healthy_def keyed_def)
  from one_call [OF ok(1) _ this, of "d + n"] Suc.prems(3) obtain s1 where
    s1: "run_call env (ker w) ?c = Inr (Inr (of_nat k), s1)" "ready_for env (d + n) s1"
      "rooms_of s1 = (rooms_of (ker w))(k \<mapsto> new_room env (of_nat k + 1) OPEN_ROOM)" by auto
  have "services (Suc k) {} {} (rooms_of s1)"
    using Suc.prems(4) s1(3) by (auto simp: services_def new_room_def less_Suc_eq)
  moreover have "keyed (Suc k) (rooms_of s1)"
    using Suc.prems(5) s1(3) by (auto simp: keyed_def new_room_def less_Suc_eq)
  ultimately obtain s' where s': "create_loop K idx [Suc k..<NService] (TAGS[k := of_nat k]) (w\<lparr>ker := s1\<rparr>) =
        Inr (map created_line [Suc k..<NService],
             Some (True, take (Suc k) (TAGS[k := of_nat k]) @ map of_nat [Suc k..<NService]), w\<lparr>ker := s'\<rparr>)"
      "ready_for env n s'" "services NService {} {} (rooms_of s')"
    using Suc.IH [of "Suc k" "TAGS[k := of_nat k]" "w\<lparr>ker := s1\<rparr>"] Suc.prems(1,2) s1(2) by auto
  have "take (Suc k) (TAGS[k := of_nat k]) = take k TAGS @ [of_nat k]"
    using k Suc.prems(2) by (simp add: take_Suc_conv_app_nth)
  with s1(1) s' k show ?case
    by (intro exI [of _ s']) (simp add: upt_conv_Cons perform_served [OF ok(2)] on_module_def del: upt_Suc)
qed

lemma awake_loop_all:
  assumes ok: "healthy env" "serves K idx env"
  shows "d + k = NService \<Longrightarrow> fit env (d + n) {k..<NService} w \<Longrightarrow>
    (\<And>T a. T < k \<Longrightarrow> slot (ker w) T = Some a \<Longrightarrow> raised_at (ker w) a) \<Longrightarrow>
    \<exists>s'. awake_loop K idx [k..<NService] w = Inr ([], Some (), w\<lparr>ker := s'\<rparr>) \<and>
      fit env n {} (w\<lparr>ker := s'\<rparr>) \<and> (\<forall>T a. T < NService \<longrightarrow> slot s' T = Some a \<longrightarrow> raised_at s' a)"
proof (induction d arbitrary: k w)
  case 0
  then show ?case by (intro exI [of _ "ker w"]) auto
next
  case (Suc d)
  then have k: "k < NService" by simp
  have s: "services NService {k..<NService} {} (rooms_of (ker w))" and inv: "kinv (ker w)"
    using Suc.prems(2) by (simp_all add: fit_def ready_for_def)
  from s k obtain r where r: "rooms_of (ker w) k = Some r" "r_perm r = OPEN_ROOM"
    unfolding services_def by (metis empty_iff option.exhaust)
  have "\<not> sint (of_nat k :: c_int) < 0" using k by (subst sint_of_nat_small) (simp_all add: NService_def)
  with ok(1) k r have a: "a_call env (rooms_of (ker w)) (Ctl (of_nat k) AWAKE_ALL) =
      (Inr 0, (rooms_of (ker w))(k \<mapsto> r\<lparr>r_sleep := []\<rparr>))"
    by (simp add: healthy_def a_ctl_def r_allowed_def)
  from one_call [OF ok(1) _ a, of "d + n"] Suc.prems(2) obtain s1 where
    s1: "run_call env (ker w) (Ctl (of_nat k) AWAKE_ALL) = Inr (Inr 0, s1)" "ready_for env (d + n) s1"
      "rooms_of s1 = (rooms_of (ker w))(k \<mapsto> r\<lparr>r_sleep := []\<rparr>)" by (auto simp: fit_def)
  have slots: "keeps_slots (ker w) s1" using call_keeps_slots [OF _ inv s1(1)] by (simp add: no_remove_def tag_macros)
  have "services NService {Suc k..<NService} {} (rooms_of s1)"
    using s s1(3) r k by (auto simp: services_def)
  with s1(2) Suc.prems(2) parked_call [OF _ slots] have f1: "fit env (d + n) {Suc k..<NService} (w\<lparr>ker := s1\<rparr>)"
    by (simp add: fit_def)
  have up: "raised_at s1 b" if "T < Suc k" "slot s1 T = Some b" for T b
  proof -
    from that(1) k have "T < NService" by simp
    from fit_slot [OF Suc.prems(2) this] obtain c where c: "slot (ker w) T = Some c" by blast
    with slots that(2) have "c = b" by (simp add: keeps_slots_def)
    from fit_slot [OF Suc.prems(2) k] obtain e where "slot (ker w) k = Some e" by blast
    then have "slot (ker w) (unat (of_nat k :: c_int)) = Some e" using k by simp
    from awake_raised [OF inv s1(1) this] \<open>slot (ker w) k = Some e\<close> \<open>c = b\<close> c that(1) Suc.prems(3) [of T c] show ?thesis
      by (cases "T = k") (auto simp: keeps_raised_def)
  qed
  from Suc.IH [OF _ f1] up Suc.prems(1) obtain s' where
    "awake_loop K idx [Suc k..<NService] (w\<lparr>ker := s1\<rparr>) = Inr ([], Some (), w\<lparr>ker := s'\<rparr>)"
    "fit env n {} (w\<lparr>ker := s'\<rparr>)" "\<forall>T a. T < NService \<longrightarrow> slot s' T = Some a \<longrightarrow> raised_at s' a" by auto
  with s1(1) show ?case unfolding upt_conv_Cons [OF k]
    by (intro exI [of _ s']) (simp add: perform_served [OF ok(2)] on_module_def)
qed

lemma remove_loop_all:
  assumes ok: "healthy env" "serves K idx env"
  shows "d + k = NService \<Longrightarrow> ready_for env (d + n) (ker w) \<Longrightarrow> services NService {} {..<k} (rooms_of (ker w)) \<Longrightarrow>
    \<exists>s'. remove_loop K idx five_tags [k..<NService] w =
        Inr (map (\<lambda>j. deleted_line (of_nat j)) [k..<NService], Some (), w\<lparr>ker := s'\<rparr>) \<and> ready_for env n s' \<and>
      services NService {} {..<NService} (rooms_of s')"
proof (induction d arbitrary: k w)
  case 0
  then show ?case by (intro exI [of _ "ker w"]) simp
next
  case (Suc d)
  then have k: "k < NService" by simp
  with Suc.prems(3) obtain r where r: "rooms_of (ker w) k = Some r" "r_perm r = OPEN_ROOM" "r_sleep r = []"
    unfolding services_def by (metis empty_iff lessThan_iff less_irrefl option.exhaust)
  have "\<not> sint (of_nat k :: c_int) < 0" using k by (subst sint_of_nat_small) (simp_all add: NService_def)
  with ok(1) k r have a: "a_call env (rooms_of (ker w)) (Ctl (of_nat k) REMOVE) = (Inr 0, (rooms_of (ker w))(k := None))"
    by (simp add: healthy_def a_ctl_def r_allowed_def tag_macros)
  from one_call [OF ok(1) _ a, of "d + n"] Suc.prems(2) obtain s1 where
    s1: "run_call env (ker w) (Ctl (of_nat k) REMOVE) = Inr (Inr 0, s1)" "ready_for env (d + n) s1"
      "rooms_of s1 = (rooms_of (ker w))(k := None)" by auto
  have "services NService {} {..<Suc k} (rooms_of s1)"
    using Suc.prems(3) s1(3) k by (auto simp: services_def less_Suc_eq)
  from Suc.IH [of "Suc k" "w\<lparr>ker := s1\<rparr>"] this s1(2) Suc.prems(1) obtain s' where
    "remove_loop K idx five_tags [Suc k..<NService] (w\<lparr>ker := s1\<rparr>) =
      Inr (map (\<lambda>j. deleted_line (of_nat j)) [Suc k..<NService], Some (), w\<lparr>ker := s'\<rparr>)" "ready_for env n s'"
    "services NService {} {..<NService} (rooms_of s')" by auto
  moreover have "five_tags ! k = of_nat k" using k by simp
  ultimately show ?case using s1(1) unfolding upt_conv_Cons [OF k]
    by (intro exI [of _ s']) (simp add: perform_served [OF ok(2)] on_module_def del: upt_Suc)
qed

section \<open>The whole program\<close>

text \<open>The ends of all receivers.\<close>

lemma threads_end_fit:
  assumes env: "healthy env" "serves K idx env" and ys: "list_all act_ok ys" "list_all (\<lambda>a. \<not> sleeps a) ys"
    and f: "fit env (costs ys + n) {} w" and up: "\<forall>T a. T < NService \<longrightarrow> slot (ker w) T = Some a \<longrightarrow> raised_at (ker w) a"
    and all: "\<forall>p < NUM_READER. accounted w p \<and> Wakes p \<in> set ys"
  shows "\<exists>w'. threads_end env K ys idx five_tags w = Inr ([], Some (), w') \<and> fit env n {} w' \<and>
    (\<forall>p < NUM_READER. asleep w' p = None \<and> p \<in> set (ended w'))"
proof -
  have "called w" using f up unfolding called_def fit_def parked_def by blast
  from ending_fit [OF env ys f this] obtain w' where
    w': "acts_run env K idx five_tags ys w = Inr ([], Some (), w')" "fit env n {} w'"
      "\<forall>p. accounted w p \<longrightarrow> accounted w' p" "\<forall>p. asleep w p = None \<or> Wakes p \<in> set ys \<longrightarrow> asleep w' p = None"
    by blast
  have "\<forall>p < NUM_READER. asleep w' p = None \<and> p \<in> set (ended w')"
    using w'(3,4) all unfolding accounted_def by blast
  with w'(1,2) show ?thesis by (simp add: threads_end_def list_all_iff del: upt_Suc)
qed

text \<open>C39: The demonstration on a loaded module whose table is empty and whose functions are in no
  entry 0, with memory for its calls, its receivers included.  Let its calls come in any order, one
  at a time, receivers going to sleep and resuming in between; let every receiver begin its
  \<^verbatim>\<open>tag_receive\<close> before \<^verbatim>\<open>main\<close> awakes everybody (which \<^verbatim>\<open>sleep(2)\<close> hopes for) and be scheduled again
  afterwards, and let no signal come.  Then, whatever the threads draw, the program creates the tags
  0 to 4, none of its calls is refused, all 50 receivers end, \<^verbatim>\<open>main\<close> ends with status 0, prints no
  error, and leaves the table empty.\<close>

theorem demo_cleans_up:
  assumes "env_sound env" "vzalloc_ok env" "module_live env"
    and "kinv (ker w)" "complete (ker w)" "rooms_of (ker w) = Map.empty" "asleep w = Map.empty"
    and "initTBDE file [0, 0, 0, 0] = Inr (Returns u, idx, out)" "serves K idx env"
    and "list_all act_ok xs" "list_all act_ok ys" "list_all (\<lambda>a. \<not> sleeps a) ys"
    and "\<forall>p < NUM_READER. (\<exists>T l. Sleeps p T l \<in> set xs) \<and> Wakes p \<in> set ys"
    and "budget env (ker w) (levelDeep * (15 + costs xs + costs ys)) (15 + costs xs + costs ys)"
  shows "\<exists>w'. demo_main K file (threads_run env K xs) (threads_end env K ys) w =
      Inr (0, out @ map created_line [0..<NService] @ started_lines @
              [newline @ newline @ ''Awake All'' @ newline @ newline] @
              [newline @ newline @ ''Start deleting'' @ newline @ newline] @
              map (\<lambda>j. deleted_line (of_nat j)) [0..<NService], w') \<and>
    kinv (ker w') \<and> rooms_of (ker w') = Map.empty \<and>
    (\<forall>p < NUM_READER. asleep w' p = None \<and> p \<in> set (ended w'))"
proof -
  have ok: "healthy env" using assms by (simp add: healthy_def)
  let ?x = "costs xs" and ?y = "costs ys"
  have R: "ready_for env (NService + (?x + (NService + (?y + (NService + 0))))) (ker w)"
    using assms(4,5,14) by (simp add: ready_for_def NService_def algebra_simps)
  have "services 0 {} {} (rooms_of (ker w))" "keyed 0 (rooms_of (ker w))"
    using assms(6) by (simp_all add: services_def keyed_def)
  from create_all [OF ok assms(9) _ _ R this, of "replicate NService 0"] obtain s1 where
    s1: "create_loop K idx [0..<NService] (replicate NService 0) w =
      Inr (map created_line [0..<NService], Some (True, five_tags), w\<lparr>ker := s1\<rparr>)"
      "ready_for env (?x + (NService + (?y + (NService + 0)))) s1" "services NService {} {} (rooms_of s1)"
    by auto
  have "fit env (?x + (NService + (?y + (NService + 0)))) {0..<NService} (w\<lparr>ker := s1\<rparr>)"
    using s1(2,3) assms(7) by (auto simp: fit_def parked_def services_def)
  from running_fit [OF ok assms(9) _ assms(10) this] obtain w2 where
    w2: "acts_run env K idx five_tags xs (w\<lparr>ker := s1\<rparr>) = Inr ([], Some (), w2)"
      "fit env (NService + (?y + (NService + 0))) {0..<NService} w2" "\<forall>p < NUM_READER. accounted w2 p"
    using assms(13) by (auto simp: atLeast0LessThan)
  from awake_loop_all [OF ok assms(9) _ w2(2)] obtain s3 where
    s3: "awake_loop K idx [0..<NService] w2 = Inr ([], Some (), w2\<lparr>ker := s3\<rparr>)"
      "fit env (?y + (NService + 0)) {} (w2\<lparr>ker := s3\<rparr>)"
      "\<forall>T a. T < NService \<longrightarrow> slot s3 T = Some a \<longrightarrow> raised_at s3 a" by auto
  have "\<forall>p < NUM_READER. accounted (w2\<lparr>ker := s3\<rparr>) p \<and> Wakes p \<in> set ys"
    using w2(3) assms(13) by (simp add: accounted_def)
  with threads_end_fit [OF ok assms(9,11,12) s3(2)] s3(3) obtain w4 where
    w4: "threads_end env K ys idx five_tags (w2\<lparr>ker := s3\<rparr>) = Inr ([], Some (), w4)" "fit env (NService + 0) {} w4"
      "\<forall>p < NUM_READER. asleep w4 p = None \<and> p \<in> set (ended w4)" by auto
  from remove_loop_all [OF ok assms(9), of NService 0 0 w4] w4(2) obtain s5 where
    s5: "remove_loop K idx five_tags [0..<NService] w4 =
        Inr (map (\<lambda>j. deleted_line (of_nat j)) [0..<NService], Some (), w4\<lparr>ker := s5\<rparr>)"
      "ready_for env 0 s5" "services NService {} {..<NService} (rooms_of s5)" by (auto simp: fit_def)
  have "rooms_of s5 = Map.empty" using s5(3) by (auto simp: services_def fun_eq_iff)
  with s1(1) w2(1) s3(1) w4(1,3) s5(1,2) assms(8) show ?thesis
    unfolding demo_main_def threads_run_def ready_for_def by (simp del: upt_Suc)
qed

lemma small_numbers: "(\<forall>n < 4. P n) \<longleftrightarrow> P 0 \<and> P 1 \<and> P 2 \<and> P (3 :: nat)"
proof -
  have "n < 4 \<longleftrightarrow> n = 0 \<or> n = 1 \<or> n = 2 \<or> n = 3" for n :: nat by auto
  then show ?thesis by auto
qed

text \<open>The receivers ask for the levels 0 to 9 of the five services; three senders draw one message each.\<close>

definition demo_kernel :: "kenv \<Rightarrow> demo_sys kern" where
  "demo_kernel env n req w = (case req of
     GetR k c p \<Rightarrow> on_module env (Get k c p) w
   | SendR tag level buf sz \<Rightarrow> on_module env (Send tag level buf sz) w
   | ReceiveR tag level sz \<Rightarrow> Inl Spin
   | CtlR tag c \<Rightarrow> on_module env (Ctl tag c) w)"

definition demo_start :: "act list" where
  "demo_start = map (\<lambda>p. Sleeps p (p mod 5) (p div 5)) [0..<NUM_READER] @ [Sends 0 3 50, Wakes 15, Sends 4 31 54]"

definition demo_end :: "act list" where
  "demo_end = Sends 2 0 51 # map Wakes [0..<NUM_READER]"

theorem demo_cleans_up_witness:
  "\<exists>out w'. demo_main (demo_kernel (plenty 1 7)) (Inr (param_text [134, 174, 177, 178]))
      (threads_run (plenty 1 7) (demo_kernel (plenty 1 7)) demo_start)
      (threads_end (plenty 1 7) (demo_kernel (plenty 1 7)) demo_end)
      \<lparr>ker = empty_table, asleep = Map.empty, ended = []\<rparr> = Inr (0, out, w') \<and>
    rooms_of (ker w') = Map.empty \<and> asleep w' 49 = None"
proof -
  obtain out where i: "initTBDE (Inr (param_text [134, 174, 177, 178])) [0, 0, 0, 0] =
      Inr (Returns (), [134, 174, 177, 178], out)"
    using initTBDE_eval [of "[134, 174, 177, 178]" "[0, 0, 0, 0]"] by auto
  have K: "serves (demo_kernel (plenty 1 7)) [134, 174, 177, 178] (plenty 1 7)"
    by (simp add: serves_def demo_kernel_def fun_eq_iff small_numbers)
  have d: "list_all act_ok demo_start" "list_all act_ok demo_end" "list_all (\<lambda>a. \<not> sleeps a) demo_end"
    by (auto simp: demo_start_def demo_end_def act_ok_def sleeps_def demo_macros levelDeep_def list_all_iff)
  have c: "\<forall>p < NUM_READER. (\<exists>T l. Sleeps p T l \<in> set demo_start) \<and> Wakes p \<in> set demo_end"
    by (auto simp: demo_start_def demo_end_def image_iff)
  have len: "costs demo_start = 2" "costs demo_end = 1"
    by (simp_all add: demo_start_def demo_end_def cost_def comp_def)
  have b: "budget (plenty 1 7) (ker \<lparr>ker = empty_table, asleep = Map.empty, ended = []\<rparr>)
      (levelDeep * (15 + costs demo_start + costs demo_end)) (15 + costs demo_start + costs demo_end)"
    unfolding len by (simp, rule budget_le [OF plenty_room]) (simp_all add: levelDeep_def)
  from demo_cleans_up [where K = "demo_kernel (plenty 1 7)", OF plenty_sound _ _ _ _ _ _ i K d c b]
  show ?thesis by (auto simp: NUM_READER_def)
qed

end
