(* ===== verification/Spec2Isabelle.thy ===== *)
theory Spec2Isabelle
  imports LockRuns ListProps RcuAtomic RcuReaders RcuFailures ThreadProps ServiceRaces StatusProps TableProps
    ModuleProps UserProps DemoProps
begin

text \<open>
  \<^bold>\<open>The program.\<close>  \<^verbatim>\<open>TAG_Data_Messaging\<close> is a Linux module (x86-64) that adds four system calls
  for exchanging messages: \<^verbatim>\<open>tag_get\<close> creates or opens a service, \<^verbatim>\<open>tag_receive\<close> sleeps on one of
  the 32 levels of a service, \<^verbatim>\<open>tag_send\<close> delivers a message to the sleepers of a level and
  \<^verbatim>\<open>tag_ctl\<close> wakes all sleepers of a service or removes it.  A character device shows the state
  of all services.  When it is loaded the module searches kernel memory for the system call
  table, with a page walk of its own, and puts its functions into free entries; their numbers
  are exported as a module parameter, which the user library reads.

  \<^bold>\<open>Theories and source files\<close> (paths under src/; TS is \<^verbatim>\<open>TAG_MESSAGING/TAG_Subsystem\<close>).

  \<^item> \<open>Prelude\<close>: C integers as words, runs that return or are stuck, invariants of machines.
    \<open>Errno\<close>: error numbers and \<^verbatim>\<open>global_include/TAG_MACROS.h\<close>.  \<open>KernelLog\<close>: the record of
    locks, references, buffers and wake-ups.  \<open>Decimal\<close>: the numbers \<^verbatim>\<open>%d\<close> prints.
    \<open>CopyLoop\<close>: the loop around \<^verbatim>\<open>copy_to_user\<close>.
  \<^item> \<open>LevelStore\<close> (\<^verbatim>\<open>TS/list.h\<close>): the interface of the list of levels, a locale.  \<open>RcuList\<close>
    (\<^verbatim>\<open>TS/rcu-list.c\<close>): the list with its epochs; \<open>RcuCorrect\<close>: its correctness, and the
    interpretation of the interface.  \<open>ListProps\<close>: its properties.
  \<^item> \<open>RcuSteps\<close> (\<^verbatim>\<open>TS/rcu-list.c\<close> again): the same list as a machine of threads that take one shared
    access at a time.  \<open>RcuSafe\<close>: its invariant, and the interpretation of the machine;
    \<open>RcuProps\<close>: what readers and writers may rely on.  \<open>RcuAtomic\<close>: the machine implements a plain
    list of messages.  \<open>RcuRuns\<close>, \<open>RcuReaders\<close>: a writer or reader that runs alone is the
    function of \<open>RcuList\<close>.  \<open>RcuFailures\<close>: the schedules in which readers are failed.
  \<^item> \<open>Services\<close> (\<^verbatim>\<open>TS/TAG_Messaging.h\<close>, \<^verbatim>\<open>TS/TAG_Messagin_help.c\<close>): the table of services and its
    helpers; \<open>kstate\<close> is the global state.  \<open>TagMessaging\<close> (\<^verbatim>\<open>TS/TAG_Messaging.c\<close>): the four
    calls.  \<open>ServiceTable\<close>, \<open>TableOps\<close>: the invariant \<open>kinv\<close> and what keeps it.  \<open>Rooms\<close>: the
    abstract specification, a map from tags to rooms.  \<open>GetCorrect\<close>, \<open>SendCorrect\<close>,
    \<open>CtlCorrect\<close>, \<open>ReceiveCorrect\<close>: one call each, every branch.  \<open>Boot\<close>: the state after
    \<^verbatim>\<open>initService\<close>.  \<open>Calls\<close>, \<open>CallProps\<close>, \<open>UseProps\<close>: runs of calls, and what callers rely on.
    \<open>LockProps\<close>: the locks, references and buffers each call takes and gives back.  \<open>LockRuns\<close>: runs
    of calls on locks that block, so that a lock one call leaves behind stops the next.  \<open>Threads\<close>, \<open>ThreadProps\<close>: sleeping readers interleaved with calls.
  \<^item> \<open>ServiceSteps\<close> (\<^verbatim>\<open>TS/TAG_Messaging.c\<close>, \<^verbatim>\<open>TS/TAG_Messagin_help.c\<close> again): the table used by several
    threads at once, one access to \<^verbatim>\<open>tagServices\<close>, \<^verbatim>\<open>serviceCount\<close>, \<^verbatim>\<open>searchLock\<close> or a service per step
    of \<^verbatim>\<open>CREATE\<close>, \<^verbatim>\<open>OPEN\<close>, \<^verbatim>\<open>REMOVE\<close> and the lookup of a tag in the other calls.  \<open>ServiceSafe\<close>: its
    invariant, and the interpretation of the machine.  \<open>ServiceProps\<close>: what the table shows to others,
    and lookups.  \<open>ServiceRuns\<close>: a call that runs alone is the function of \<open>TagMessaging\<close>, and the
    lock is what the log says.  \<open>ServiceRemoval\<close>: one thread that removes.  \<open>ServiceRaces\<close>: what goes
    wrong when creations or removals overlap.
  \<^item> \<open>StatusDump\<close>, \<open>StatusProps\<close> (\<^verbatim>\<open>TAG_MESSAGING/charDev/charDev.c\<close> and \<^verbatim>\<open>scan_Service\<close>): the dump and
    the file operations.  \<open>DeviceNode\<close>: registration of the device (\<^verbatim>\<open>devkoInit\<close>, \<^verbatim>\<open>devkoExit\<close>).
  \<^item> \<open>PageWalk\<close> (\<^verbatim>\<open>TAG_MESSAGING/sysCall_Discovery/vtpmo/vtpmo.c\<close>): the page walk and the walk of
    the processor.  \<open>SyscallTable\<close> (\<^verbatim>\<open>TAG_MESSAGING/sysCall_Discovery/sysCall_Discovery.c\<close>):
    search, free entries, \<^verbatim>\<open>add_syscall\<close>, \<^verbatim>\<open>removeAllSyscall\<close>.  \<open>TableScan\<close>: the search is right.
    \<open>TableWrite\<close>: the writes are right, and the interface \<open>handler_table\<close>.  \<open>TableProps\<close>: properties.
  \<^item> \<open>ModuleMain\<close> (\<^verbatim>\<open>main.c\<close>): loading and unloading.  \<open>UserLib\<close>, \<open>UserParse\<close>
    (\<^verbatim>\<open>user/interface/interface.c\<close>): the user library.  \<open>UserCommands\<close> (\<^verbatim>\<open>user/commands\<close>): the four
    programs.  \<open>ModuleProps\<close>, \<open>UserProps\<close>: properties of these, and of the path from a program
    through the library and the system call table to the module.  \<open>DemoProgram\<close>
    (\<^verbatim>\<open>user/test/demo.c\<close>): the demonstration; \<open>DemoThreads\<close>: its threads composed on the module,
    receivers included; \<open>DemoProps\<close>: the whole run.

  \<^bold>\<open>How the code is read.\<close>  A C function is a function from the state to its value and the new
  state; a result \<open>Inl Fault\<close> is an access C leaves undefined, \<open>Inl Spin\<close> a loop that never ends,
  and an answer \<open>Inl e\<close> inside \<open>Inr\<close> is \<^verbatim>\<open>return -e\<close>.  Memory is a store from addresses to objects
  (list nodes, services, status buffers) or, for the system call table, from virtual addresses to
  words.  Allocation, \<^verbatim>\<open>copy_to_user\<close>, the caller's identity, the page tables and the kernel's
  answers to registrations are parameters; what is assumed of them are the named predicates
  \<open>env_sound\<close>, \<open>budget\<close>, \<open>copy_law\<close>, \<open>copy_fair\<close>, \<open>wait_keeps\<close>, \<open>clean_path\<close> (\<open>clean_tables\<close> for
  all addresses), \<open>dispatches\<close> and \<open>serves\<close>.
  \<^verbatim>\<open>tag_receive\<close> is split at its sleep: \<open>search_enter\<close>, what others do (a parameter, \<open>wait\<close>), the
  test of the wake flag, \<open>search_leave\<close>; with the flag down and no signal the reader never returns.
  The calls of \<open>TagMessaging\<close> record their uses of locks, references and buffers; \<open>LockRuns\<close> makes
  the recorded locks block.

  \<^bold>\<open>What is shown.\<close>  (1) Refinement: a run of calls on locks that block answers as the map of rooms
  promises and keeps \<open>kinv\<close>, as long as no call gives an answer that leaves a lock held; what happens
  after such an answer is shown too.  A woken reader gets the message stored for its level, and
  returns only if its buffer can be written.  (2) Lists: insertion, replacement, removal and search
  act as list operations.  In every interleaving without signals the list stays whole, no node is
  freed twice, a reader counted in the current epoch holds no freed node, the readers a writer
  waits for, unless overtaken, can let it go on, and each writer decides its change of the messages
  at one step; the readers see it at that step, but for a replacement further on in the list, which
  takes two stores and hides the rest of the list in between.  A writer or reader that runs alone is
  the whole function.  What is not protected is shown by runs: a reader that the epoch has overtaken
  while it slept, as one send does to the reader it wakes, a node used after its search, a wake-up
  lost to another reader, a replacement seen half done.  (3) Safety: a call that runs alone on a
  well-formed table does not fault or spin but for unchecked allocations, negative levels of
  \<^verbatim>\<open>tag_receive\<close> and the last release of \<^verbatim>\<open>AWAKE_ALL\<close>.  In every interleaving of creations, lookups
  and removals the table stays well formed and changes as an abstract directory of keys does, one
  step per call; without removals no lookup meets a null pointer or a freed service; a thread that
  alone removes is safe, and \<^verbatim>\<open>serviceCount\<close> is then exact whenever no call runs.  The races are shown
  from any table that has the entry they need: the last entry given twice, after which \<^verbatim>\<open>searchLock\<close>
  is held for ever (but for the misplaced release of an \<^verbatim>\<open>AWAKE_ALL\<close> under way), a service freed
  while another call uses it, a search that meets a null pointer, one service removed twice.
  (4) The protocol of locks, references and buffers, with the paths on which the code breaks it.
  (5) The dump is complete up to 23 services and overflows from 36 on.  (6) The page walk is the
  processor's but for pages of 1 GB and for entries with bits above the address set on the way; the
  search ends and finds the first table; the four entries it offers are free, and unloading restores
  them.  (7) The library reads back the parameter, its functions reach the module's when a table was
  found (\<^verbatim>\<open>tag_get\<close> not if it is in entry 0), and its messages explain every error of a call that runs
  alone but one.  (8) The demonstration, receivers included, is refused nothing and leaves the table
  empty, if its receivers begin before everybody is awoken.

  \<^bold>\<open>Bounds and fuel.\<close>  Loops that may not end are partial functions into \<open>option\<close> and are shown to
  end: the copy loop for fair user memory, the list loops on every chain, the page loop from every
  start, the restore loop.  \<open>show_digits\<close> has the number itself as fuel.  Loops over a fixed range
  recurse over the list of their indices.  \<open>budget env s n m\<close> says that memory lasts for \<open>n\<close> more
  nodes and \<open>m\<close> more services; one CREATE uses 32 nodes.  Schedules are finite lists of events;
  \<open>grace_period_ends\<close>, \<open>writers_alone\<close>, \<open>readers_alone\<close> and \<open>calls_alone\<close> say that enough steps
  exist.

  \<^bold>\<open>Not modelled.\<close>  Weak memory (accesses of \<open>RcuSteps\<close> take effect at once and in order);
  interrupts and processor migration while CR0 is changed; what \<^verbatim>\<open>printk\<close> writes; other modules
  that write the system call table; the table and the lists of its services
  stepped in one machine (\<open>Threads\<close> interleaves whole calls, \<open>RcuSteps\<close> one list, \<open>ServiceSteps\<close> the
  table, where \<^verbatim>\<open>new_TAG_Service\<close> and the building of the service that \<^verbatim>\<open>REMOVE\<close> drops are one step,
  and \<^verbatim>\<open>AWAKE_ALL\<close> is followed up to its first use of the service: its last release of
  \<^verbatim>\<open>searchLock\<close>, which misuses the lock, is not among the steps, and \<open>lock_follows_log\<close> and
  \<open>lost_hold_stays\<close> say what it would do to them); page-table reads through \<^verbatim>\<open>__va\<close> that fault; what
  the receivers of the demonstration print; the global \<^verbatim>\<open>flags\<close> of
  the interrupt state; the lock-based list that \<^verbatim>\<open>list.h\<close> declares but no file defines; the files
  the kernel build generates.
\<close>

end
